(* ===== verification/Obelisk_Prelude.thy ===== *)
theory Obelisk_Prelude
  imports Main "HOL-Library.Word" "HOL-Library.While_Combinator"
begin

text \<open>
  Shared vocabulary of the development: the machine types of the Blackfin port, the
  ITRON status codes (\<open>core/include/itronsys/status.h\<close>), the collections the
  component theories feed with simplification rules, and generic lemmas on optional list ends
  and on single bits of words.
\<close>

unbundle bit_operations_syntax

type_synonym u32 = "32 word"
type_synonym u64 = "64 word"

named_theorems er_defs \<open>values of the ITRON status codes\<close>
named_theorems cfg_defs \<open>values of the configuration constants of autoconf.h\<close>
named_theorems kernel_frame \<open>fields a kernel primitive leaves alone\<close>

section \<open>Status codes\<close>

definition E_OK :: int where [er_defs]: "E_OK = 0"
definition E_PAR :: int where [er_defs]: "E_PAR = -17"
definition E_ID :: int where [er_defs]: "E_ID = -18"
definition E_ILUSE :: int where [er_defs]: "E_ILUSE = -28"
definition E_NOMEM :: int where [er_defs]: "E_NOMEM = -33"
definition E_NOID :: int where [er_defs]: "E_NOID = -34"
definition E_OBJ :: int where [er_defs]: "E_OBJ = -41"
definition E_NOEXS :: int where [er_defs]: "E_NOEXS = -42"
definition E_QOVR :: int where [er_defs]: "E_QOVR = -43"
definition E_TMOUT :: int where [er_defs]: "E_TMOUT = -50"
definition E_DLT :: int where [er_defs]: "E_DLT = -51"

section \<open>Signed 32-bit arithmetic\<close>

text \<open>An \<open>int\<close> of the code after an arithmetic step that may leave its range: the value the
  two's complement machine stores.\<close>

definition sint32 :: "int \<Rightarrow> int" where
  "sint32 i = sint (word_of_int i :: u32)"

lemma sint32_eq: "sint32 i = signed_take_bit 31 i"
  by (simp add: sint32_def signed_of_int)

lemma sint32_id [simp]: "- (2 ^ 31) \<le> i \<Longrightarrow> i < 2 ^ 31 \<Longrightarrow> sint32 i = i"
  by (simp add: sint32_eq signed_take_bit_int_eq_self)

lemma sint32_bounds: "- (2 ^ 31) \<le> sint32 i" "sint32 i < 2 ^ 31"
  using signed_take_bit_int_greater_eq_minus_exp [of 31 i] signed_take_bit_int_less_exp [of 31 i]
  by (simp_all add: sint32_eq)

section \<open>Ends of lists\<close>

definition first_of :: "'a list \<Rightarrow> 'a option" where
  "first_of xs = (case xs of [] \<Rightarrow> None | x # _ \<Rightarrow> Some x)"

definition last_of :: "'a list \<Rightarrow> 'a option" where
  "last_of xs = (if xs = [] then None else Some (last xs))"

lemma first_of_simps [simp]:
  "first_of [] = None" "first_of (x # xs) = Some x"
  by (simp_all add: first_of_def)

lemma last_of_simps [simp]:
  "last_of [] = None" "last_of [x] = Some x"
  by (simp_all add: last_of_def)

lemma last_of_Cons: "last_of (x # xs) = (if xs = [] then Some x else last_of xs)"
  by (simp add: last_of_def)

lemma last_of_Cons2 [simp]: "last_of (x # y # zs) = last_of (y # zs)"
  by (simp add: last_of_def)

lemma first_of_append: "first_of (xs @ ys) = (if xs = [] then first_of ys else first_of xs)"
  by (cases xs) auto

lemma last_of_append [simp]: "last_of (xs @ ys) = (if ys = [] then last_of xs else last_of ys)"
  by (auto simp: last_of_def)

lemma first_of_None_iff [simp]: "first_of xs = None \<longleftrightarrow> xs = []" "None = first_of xs \<longleftrightarrow> xs = []"
  by (cases xs; simp)+

lemma last_of_None_iff [simp]: "last_of xs = None \<longleftrightarrow> xs = []" "None = last_of xs \<longleftrightarrow> xs = []"
  by (auto simp: last_of_def)

lemma first_of_SomeD: "first_of xs = Some x \<Longrightarrow> x \<in> set xs \<and> xs = x # tl xs"
  by (cases xs) auto

lemma last_of_SomeD: "last_of xs = Some x \<Longrightarrow> x \<in> set xs \<and> xs = butlast xs @ [x]"
  by (auto simp: last_of_def split: if_splits)

lemma first_of_in: "first_of xs = Some x \<Longrightarrow> x \<in> set xs"
  by (cases xs) auto

lemma last_of_in: "last_of xs = Some x \<Longrightarrow> x \<in> set xs"
  by (auto simp: last_of_def split: if_splits)

lemma first_of_map: "first_of (map f xs) = map_option f (first_of xs)"
  by (cases xs) auto

section \<open>Bits of words\<close>

lemma bit_exp_word [simp]:
  "bit (2 ^ n :: 'a::len word) m \<longleftrightarrow> m = n \<and> n < LENGTH('a)"
  by (auto simp: bit_exp_iff possible_bit_word)

lemma word_eq_0_iff_bit: "(x :: 'a::len word) = 0 \<longleftrightarrow> (\<forall>n < LENGTH('a). \<not> bit x n)"
  by (auto simp: bit_eq_iff dest: bit_imp_le_length)

lemma word_nonzero_bit: "(x :: 'a::len word) \<noteq> 0 \<longleftrightarrow> (\<exists>n < LENGTH('a). bit x n)"
  using word_eq_0_iff_bit by blast

lemma and_mask_eq_0_iff:
  "(x :: 'a::len word) AND mask k = 0 \<longleftrightarrow> (\<forall>n < LENGTH('a). n < k \<longrightarrow> \<not> bit x n)"
  by (auto simp: word_eq_0_iff_bit bit_simps)

section \<open>Draining loops\<close>

text \<open>The loop \<open>while (x = get()) { body }\<close>: the state carries the value read last. \<open>None\<close>
  as a result means that the loop does not end.\<close>

definition drain :: "('s \<Rightarrow> 'x option \<times> 's) \<Rightarrow> ('x \<Rightarrow> 's \<Rightarrow> 's) \<Rightarrow> 's \<Rightarrow> 's option" where
  "drain get body s =
     map_option snd
       (while_option (\<lambda>(x, s). x \<noteq> None)
         (\<lambda>(x, s). case x of None \<Rightarrow> (None, s) | Some y \<Rightarrow> get (body y s)) (get s))"

lemma drain_None: "get s = (None, s') \<Longrightarrow> drain get body s = Some s'"
  by (simp add: drain_def while_option_unfold)

lemma drain_Some: "get s = (Some x, s') \<Longrightarrow> drain get body s = drain get body (body x s')"
  by (simp add: drain_def while_option_unfold [of _ _ "(Some x, s')"])

text \<open>A loop that takes the elements of a list one by one ends.\<close>

lemma drain_ends:
  assumes "I xs s"
    and "\<And>s. I [] s \<Longrightarrow> \<exists>s'. get s = (None, s') \<and> J s'"
    and "\<And>x xs s. I (x # xs) s \<Longrightarrow> \<exists>s'. get s = (Some x, s') \<and> I xs (body x s')"
  shows "\<exists>s'. drain get body s = Some s' \<and> J s'"
  using assms(1)
proof (induction xs arbitrary: s)
  case Nil
  then show ?case
    using assms(2) drain_None by metis
next
  case (Cons x xs)
  then show ?case
    using assms(3) drain_Some by metis
qed

text \<open>What holds at the end of such a loop, when it ends.\<close>

lemma drain_inv:
  assumes "drain get body s = Some s'" "I s"
    and step: "\<And>s. I s \<Longrightarrow> I (snd (get s))" "\<And>x s. I s \<Longrightarrow> I (body x s)"
  shows "I s'"
proof -
  obtain x where "while_option (\<lambda>(x, s). x \<noteq> None)
      (\<lambda>(x, s). case x of None \<Rightarrow> (None, s) | Some y \<Rightarrow> get (body y s)) (get s) = Some (x, s')"
    using assms(1) by (auto simp: drain_def)
  then have "I (snd (x, s'))"
    by (rule while_option_rule [where P = "\<lambda>p. I (snd p)", rotated])
      (use step assms(2) in \<open>auto split: option.splits\<close>)
  then show ?thesis
    by simp
qed

section \<open>Masks\<close>

lemma and_not_mask: "w AND NOT (mask j) = w - take_bit j w" for w :: "'a :: len word"
proof -
  have "w AND NOT (mask j) = push_bit j (drop_bit j w)"
    by (auto intro!: bit_word_eqI simp: bit_simps)
  then show ?thesis
    using bits_ident [of j w] by (simp add: eq_diff_eq)
qed

lemma unat_and_not_mask: "unat (w AND NOT (mask j)) = unat w div 2 ^ j * 2 ^ j" for w :: u32
proof -
  have "unat (take_bit j w) = unat w mod 2 ^ j"
    by (subst unsigned_take_bit_eq) (simp add: take_bit_eq_mod)
  then show ?thesis
    unfolding and_not_mask by (simp add: unat_sub_if' minus_mod_eq_div_mult)
qed

end
