(* ===== verification/Bitmaps.thy ===== *)
theory Bitmaps
  imports Obelisk_Prelude
begin

text \<open>
  The 32-bit bitmaps of the kernel: \<open>core/include/bitop.h\<close> (bit searches by halving)
  and \<open>core/include/bitmap.h\<close> (single-bit updates). The searches are shown equal to their
  specification: the least and the greatest set bit. The locale \<open>id_allocator\<close> states what
  the object managers promise about the identifiers they hand out from such a bitmap.
\<close>

type_synonym bitmap_t = u32

section \<open>bitop.h\<close>

text \<open>One block \<open>if (!(x & m)) { x >>= k; r += k; }\<close> of \<open>_ffs\<close>; the shift of the
  signed argument is arithmetic. Likewise \<open>if (!(x & m)) { x <<= k; r -= k; }\<close> of \<open>_fls\<close>.\<close>

definition ffs_step :: "u32 \<Rightarrow> nat \<Rightarrow> u32 \<times> int \<Rightarrow> u32 \<times> int" where
  "ffs_step m k = (\<lambda>(x, r). if x AND m = 0 then (signed_drop_bit k x, r + int k) else (x, r))"

definition fls_step :: "u32 \<Rightarrow> nat \<Rightarrow> u32 \<times> int \<Rightarrow> u32 \<times> int" where
  "fls_step m k = (\<lambda>(x, r). if x AND m = 0 then (push_bit k x, r - int k) else (x, r))"

definition ffs :: "u32 \<Rightarrow> int" where
  "ffs x =
     (if x = 0 then -1
      else snd (ffs_step 0x1 1 (ffs_step 0x3 2 (ffs_step 0xf 4 (ffs_step 0xff 8
             (ffs_step 0xffff 16 (x, 0)))))))"

definition ffc :: "u32 \<Rightarrow> int" where
  "ffc x = ffs (NOT x)"

definition fls :: "u32 \<Rightarrow> int" where
  "fls x =
     (if x = 0 then -1
      else snd (fls_step 0x80000000 1 (fls_step 0xc0000000 2 (fls_step 0xf0000000 4
             (fls_step 0xff000000 8 (fls_step 0xffff0000 16 (x, 31)))))))"

definition flc :: "u32 \<Rightarrow> int" where
  "flc x = fls (NOT x)"

text \<open>\<open>_set_bit\<close> and \<open>_clear_bit\<close> on the word at \<open>addr\<close>.\<close>

definition bitop_set_bit :: "nat \<Rightarrow> u32 \<Rightarrow> u32" where
  "bitop_set_bit nr w = w OR push_bit nr 1"

definition bitop_clear_bit :: "nat \<Rightarrow> u32 \<Rightarrow> u32" where
  "bitop_clear_bit nr w = w AND NOT (push_bit nr 1)"

section \<open>bitmap.h\<close>

definition clearbitmap :: bitmap_t where
  "clearbitmap = 0"

definition setbitmap :: bitmap_t where
  "setbitmap = NOT 0"

definition setbit :: "bitmap_t \<Rightarrow> nat \<Rightarrow> bitmap_t" where
  "setbit bitmap b = bitmap OR push_bit b 1"

definition clearbit :: "bitmap_t \<Rightarrow> nat \<Rightarrow> bitmap_t" where
  "clearbit bitmap b = bitmap AND NOT (push_bit b 1)"

definition isbitset :: "bitmap_t \<Rightarrow> nat \<Rightarrow> bool" where
  "isbitset bitmap b \<longleftrightarrow> bitmap AND push_bit b 1 \<noteq> 0"

section \<open>Single-bit laws\<close>

lemma bit_setbit [simp]: "bit (setbit bm b) n \<longleftrightarrow> bit bm n \<or> n = b \<and> b < 32"
  by (auto simp: setbit_def bit_or_iff)

lemma bit_clearbit [simp]: "bit (clearbit bm b) n \<longleftrightarrow> bit bm n \<and> n \<noteq> b"
  by (auto simp: clearbit_def bit_and_iff bit_not_iff dest: bit_imp_le_length)

lemma bit_clearbitmap [simp]: "\<not> bit clearbitmap n"
  by (simp add: clearbitmap_def)

lemma bit_setbitmap [simp]: "bit setbitmap n \<longleftrightarrow> n < 32"
  by (simp add: setbitmap_def)

lemma isbitset_iff [simp]: "isbitset bm b \<longleftrightarrow> bit bm b"
  by (auto simp: isbitset_def word_nonzero_bit bit_and_iff dest: bit_imp_le_length)

lemma bitmap_bound: "bit (bm :: bitmap_t) n \<Longrightarrow> n < 32"
  using bit_imp_le_length by fastforce

section \<open>The searches find the extreme bits\<close>

definition least_bit :: "u32 \<Rightarrow> nat \<Rightarrow> bool" where
  "least_bit x n \<longleftrightarrow> bit x n \<and> (\<forall>m < n. \<not> bit x m)"

definition greatest_bit :: "u32 \<Rightarrow> nat \<Rightarrow> bool" where
  "greatest_bit x n \<longleftrightarrow> bit x n \<and> (\<forall>m > n. \<not> bit x m)"

lemma least_bit_exists: "x \<noteq> 0 \<Longrightarrow> \<exists>n < 32. least_bit x n"
  unfolding least_bit_def word_nonzero_bit
  using exists_least_iff [of "bit x"] bitmap_bound by blast

lemma greatest_bit_exists:
  assumes "x \<noteq> 0"
  shows "\<exists>n < 32. greatest_bit x n"
proof -
  let ?n = "GREATEST n. bit x n"
  obtain k where k: "bit x k"
    using assms word_nonzero_bit by blast
  have bound: "\<And>n. bit x n \<Longrightarrow> n \<le> 32"
    using bitmap_bound less_imp_le by blast
  have "bit x ?n"
    using GreatestI_nat [of "bit x" k 32] k bound by blast
  moreover have "n \<le> ?n" if "bit x n" for n
    using Greatest_le_nat [of "bit x" n 32] that bound by blast
  ultimately have "greatest_bit x ?n"
    unfolding greatest_bit_def using linorder_not_le by blast
  then show ?thesis
    using \<open>bit x ?n\<close> bitmap_bound by blast
qed

lemma least_bit_unique: "least_bit x n \<Longrightarrow> least_bit x m \<Longrightarrow> n = m"
  unfolding least_bit_def by (metis linorder_neqE_nat)

lemma greatest_bit_unique: "greatest_bit x n \<Longrightarrow> greatest_bit x m \<Longrightarrow> n = m"
  unfolding greatest_bit_def by (metis linorder_neqE_nat)

text \<open>One halving step of the search from below: a zero low part moves the least bit down, a
  non-zero one bounds it.\<close>

lemma least_bit_drop:
  assumes "least_bit x n" "x AND mask k = 0" "k < 32"
  shows "least_bit (signed_drop_bit k x) (n - k) \<and> k \<le> n"
proof -
  have n: "n < 32" and bn: "bit x n" and low: "\<And>m. m < n \<Longrightarrow> \<not> bit x m"
    using assms(1) bitmap_bound by (auto simp: least_bit_def)
  have k: "k \<le> n"
    using assms(2,3) bn n by (auto simp: and_mask_eq_0_iff not_less [symmetric])
  have "bit (signed_drop_bit k x) (n - k)"
    using k bn n by (auto simp: bit_simps)
  moreover have "\<not> bit (signed_drop_bit k x) m" if "m < n - k" for m
    using that low [of "m + k"] n by (auto simp: bit_simps add.commute)
  ultimately show ?thesis
    using k by (simp add: least_bit_def)
qed

lemma least_bit_mask:
  assumes "least_bit x n" "x AND mask k \<noteq> 0"
  shows "n < k"
  using assms unfolding least_bit_def and_mask_eq_0_iff by (metis not_less_iff_gr_or_eq order.strict_trans)

lemma ffs_stage:
  assumes "least_bit x n" "k < 32" "n < 2 * k" "m = mask k"
  obtains x' r' n' where "ffs_step m k (x, r) = (x', r')" "least_bit x' n'" "n' < k"
    "r' + int n' = r + int n"
proof (cases "x AND mask k = 0")
  case True
  then have "least_bit (signed_drop_bit k x) (n - k)" "k \<le> n"
    using least_bit_drop [OF assms(1) True assms(2)] by auto
  then show ?thesis
    using that [of "signed_drop_bit k x" "r + int k" "n - k"] True assms(3,4)
    by (simp add: ffs_step_def)
next
  case False
  then show ?thesis
    using that [of x r n] assms(1,4) least_bit_mask [OF assms(1) False] by (simp add: ffs_step_def)
qed

lemma low_masks:
  "(0xffff :: u32) = mask 16" "(0xff :: u32) = mask 8" "(0xf :: u32) = mask 4"
  "(0x3 :: u32) = mask 2" "(0x1 :: u32) = mask 1"
  by (simp_all add: mask_eq_exp_minus_1)

lemma ffs_least:
  assumes "least_bit x n"
  shows "ffs x = int n"
proof -
  have x: "x \<noteq> 0" and n: "n < 2 * 16"
    using assms bitmap_bound by (auto simp: least_bit_def)
  obtain x1 r1 n1 where 1: "ffs_step 0xffff 16 (x, 0) = (x1, r1)" "least_bit x1 n1" "n1 < 16"
      "r1 + int n1 = 0 + int n"
    by (rule ffs_stage [where r = 0, OF assms _ n low_masks(1)]) auto
  obtain x2 r2 n2 where 2: "ffs_step 0xff 8 (x1, r1) = (x2, r2)" "least_bit x2 n2" "n2 < 8"
      "r2 + int n2 = r1 + int n1"
    by (rule ffs_stage [where r = r1, OF 1(2) _ _ low_masks(2)]) (use 1(3) in auto)
  obtain x3 r3 n3 where 3: "ffs_step 0xf 4 (x2, r2) = (x3, r3)" "least_bit x3 n3" "n3 < 4"
      "r3 + int n3 = r2 + int n2"
    by (rule ffs_stage [where r = r2, OF 2(2) _ _ low_masks(3)]) (use 2(3) in auto)
  obtain x4 r4 n4 where 4: "ffs_step 0x3 2 (x3, r3) = (x4, r4)" "least_bit x4 n4" "n4 < 2"
      "r4 + int n4 = r3 + int n3"
    by (rule ffs_stage [where r = r3, OF 3(2) _ _ low_masks(4)]) (use 3(3) in auto)
  obtain x5 r5 n5 where 5: "ffs_step 0x1 1 (x4, r4) = (x5, r5)" "n5 < 1"
      "r5 + int n5 = r4 + int n4"
    by (rule ffs_stage [where r = r4, OF 4(2) _ _ low_masks(5)]) (use 4(3) in auto)
  have "ffs x = r5"
    using x by (simp add: ffs_def 1(1) 2(1) 3(1) 4(1) 5(1) del: One_nat_def)
  then show ?thesis
    using 1(4) 2(4) 3(4) 4(4) 5(2,3) by simp
qed

lemma ffs_zero [simp]: "ffs 0 = -1"
  by (simp add: ffs_def)

lemma ffs_spec:
  assumes "x \<noteq> 0"
  obtains n where "ffs x = int n" "n < 32" "least_bit x n"
  using least_bit_exists [OF assms] ffs_least that by blast

lemma greatest_bit_push:
  assumes "greatest_bit x n" "x AND NOT (mask (32 - k)) = 0" "k \<le> 32"
  shows "greatest_bit (push_bit k x) (n + k) \<and> n + k < 32"
proof -
  have bn: "bit x n" and up: "\<And>m. n < m \<Longrightarrow> \<not> bit x m" and n: "n < 32"
    using assms(1) bitmap_bound by (auto simp: greatest_bit_def)
  have "\<not> bit (x AND NOT (mask (32 - k))) n"
    using assms(2) by simp
  then have k: "n + k < 32"
    using bn n assms(3) by (auto simp: bit_simps)
  have "\<not> bit (push_bit k x) m" if "n + k < m" for m
    using that up [of "m - k"] by (auto simp: bit_simps)
  then show ?thesis
    using k bn by (auto simp: greatest_bit_def bit_simps)
qed

lemma greatest_bit_not_mask:
  assumes "greatest_bit x n" "x AND NOT (mask (32 - k)) \<noteq> 0"
  shows "32 - k \<le> n"
proof -
  obtain m where "bit x m" "32 - k \<le> m"
    using assms(2) by (auto simp: word_nonzero_bit bit_simps)
  then show ?thesis
    using assms(1) by (meson greatest_bit_def le_trans not_le)
qed

lemma fls_stage:
  assumes "greatest_bit x n" "0 < k" "k \<le> 16" "32 - 2 * k \<le> n" "m = NOT (mask (32 - k))"
  obtains x' r' n' where "fls_step m k (x, r) = (x', r')" "greatest_bit x' n'" "32 - k \<le> n'"
    "r' + int n' = r + int n"
proof (cases "x AND NOT (mask (32 - k)) = 0")
  case True
  then have "greatest_bit (push_bit k x) (n + k)"
    using greatest_bit_push [OF assms(1) True] assms(3) by auto
  then show ?thesis
    using that [of "push_bit k x" "r - int k" "n + k"] True assms(2-5) by (simp add: fls_step_def)
next
  case False
  then show ?thesis
    using that [of x r n] assms(1,5) greatest_bit_not_mask [OF assms(1) False]
    by (simp add: fls_step_def)
qed

lemma high_masks:
  "(0xffff0000 :: u32) = NOT (mask (32 - 16))" "(0xff000000 :: u32) = NOT (mask (32 - 8))"
  "(0xf0000000 :: u32) = NOT (mask (32 - 4))" "(0xc0000000 :: u32) = NOT (mask (32 - 2))"
  "(0x80000000 :: u32) = NOT (mask (32 - 1))"
  by (simp_all add: mask_eq_exp_minus_1)

lemma fls_greatest:
  assumes "greatest_bit x n"
  shows "fls x = int n"
proof -
  have x: "x \<noteq> 0"
    using assms by (auto simp: greatest_bit_def)
  obtain x1 r1 n1 where 1: "fls_step 0xffff0000 16 (x, 31) = (x1, r1)" "greatest_bit x1 n1"
      "16 \<le> n1" "r1 + int n1 = 31 + int n"
    by (rule fls_stage [where r = 31, OF assms _ _ _ high_masks(1)]) auto
  obtain x2 r2 n2 where 2: "fls_step 0xff000000 8 (x1, r1) = (x2, r2)" "greatest_bit x2 n2"
      "24 \<le> n2" "r2 + int n2 = r1 + int n1"
    by (rule fls_stage [where r = r1, OF 1(2) _ _ _ high_masks(2)]) (use 1(3) in auto)
  obtain x3 r3 n3 where 3: "fls_step 0xf0000000 4 (x2, r2) = (x3, r3)" "greatest_bit x3 n3"
      "28 \<le> n3" "r3 + int n3 = r2 + int n2"
    by (rule fls_stage [where r = r2, OF 2(2) _ _ _ high_masks(3)]) (use 2(3) in auto)
  obtain x4 r4 n4 where 4: "fls_step 0xc0000000 2 (x3, r3) = (x4, r4)" "greatest_bit x4 n4"
      "30 \<le> n4" "r4 + int n4 = r3 + int n3"
    by (rule fls_stage [where r = r3, OF 3(2) _ _ _ high_masks(4)]) (use 3(3) in auto)
  obtain x5 r5 n5 where 5: "fls_step 0x80000000 1 (x4, r4) = (x5, r5)" "greatest_bit x5 n5"
      "31 \<le> n5" "r5 + int n5 = r4 + int n4"
    by (rule fls_stage [where r = r4, OF 4(2) _ _ _ high_masks(5)]) (use 4(3) in auto)
  have "n5 < 32"
    using 5(2) bitmap_bound by (auto simp: greatest_bit_def)
  then have "n5 = 31"
    using 5(3) by linarith
  then have "r5 = int n"
    using 1(4) 2(4) 3(4) 4(4) 5(4) by linarith
  moreover have "fls x = r5"
    unfolding fls_def 1(1) 2(1) 3(1) 4(1) 5(1) using x by simp
  ultimately show ?thesis
    by simp
qed

lemma fls_zero [simp]: "fls 0 = -1"
  by (simp add: fls_def)

text \<open>\<open>_ffc\<close>, the search for a free identifier: the least clear bit, or -1 on a full bitmap.\<close>

lemma ffc_full: "ffc bm = -1 \<longleftrightarrow> (\<forall>n < 32. bit bm n)"
proof (cases "NOT bm = 0")
  case True
  then have "bit bm n" if "n < 32" for n
    using that by (simp add: word_eq_0_iff_bit bit_not_iff)
  then show ?thesis using True by (simp add: ffc_def)
next
  case False
  then obtain n where "ffs (NOT bm) = int n" "n < 32" "least_bit (NOT bm) n"
    by (rule ffs_spec)
  then show ?thesis by (auto simp: ffc_def least_bit_def bit_not_iff)
qed

lemma ffc_least:
  assumes "ffc bm \<noteq> -1"
  obtains n where "ffc bm = int n" "n < 32" "\<not> bit bm n" "\<And>m. m < n \<Longrightarrow> bit bm m"
proof -
  have "NOT bm \<noteq> 0"
    using assms by (auto simp: ffc_def)
  then obtain n where "ffs (NOT bm) = int n" "n < 32" "least_bit (NOT bm) n"
    by (rule ffs_spec)
  then show ?thesis
    using that [of n] by (auto simp: ffc_def least_bit_def bit_not_iff)
qed

lemma ffc_range: "-1 \<le> ffc bm \<and> ffc bm < 32"
  by (cases "ffc bm = -1") (auto elim: ffc_least)

lemma ffc_free: "0 \<le> ffc bm \<Longrightarrow> \<not> bit bm (nat (ffc bm)) \<and> nat (ffc bm) < 32"
  by (rule ffc_least [of bm]) auto

lemma ffc_below:
  assumes "n < 32"
  shows "0 \<le> ffc bm \<and> ffc bm < int n \<longleftrightarrow> (\<exists>m < n. \<not> bit bm m)"
proof (cases "ffc bm = -1")
  case True
  then show ?thesis
    using ffc_full [of bm] assms by auto
next
  case False
  have "\<exists>k. ffc bm = int k \<and> \<not> bit bm k \<and> (\<forall>m < k. bit bm m)"
    by (rule ffc_least [OF False]) simp
  then obtain k where k: "ffc bm = int k" "\<not> bit bm k" "\<forall>m < k. bit bm m"
    by (elim exE conjE)
  have "k < n \<longleftrightarrow> (\<exists>m < n. \<not> bit bm m)"
    using k(2,3) by (meson not_less order.strict_trans1)
  then show ?thesis
    using k(1) by simp
qed

section \<open>Identifiers\<close>

text \<open>An object manager that assigns identifiers: \<open>acre p s\<close> creates an object from the packet
  \<open>p\<close>, \<open>used s\<close> is its bitmap of identifiers in use, \<open>ret\<close> how a call returns a number. On
  an acceptable packet it returns the first free identifier, one more than the bit, and marks it; when
  that number is beyond the limit it returns \<open>E_NOID\<close> and changes nothing.\<close>

locale id_allocator =
  fixes used :: "'s \<Rightarrow> bitmap_t" and limit :: nat and ok :: "'p \<Rightarrow> bool"
    and acre :: "'p \<Rightarrow> 's \<Rightarrow> 'r \<times> 's" and ret :: "int \<Rightarrow> 'r"
  assumes limit: "limit < 32"
    and ret_inj: "ret v = ret w \<Longrightarrow> v = w"
    and full: "ok p \<Longrightarrow> \<not> (0 \<le> ffc (used s) \<and> ffc (used s) < int limit) \<Longrightarrow> acre p s = (ret E_NOID, s)"
    and free: "ok p \<Longrightarrow> 0 \<le> ffc (used s) \<Longrightarrow> ffc (used s) < int limit \<Longrightarrow>
      fst (acre p s) = ret (ffc (used s) + 1) \<and>
      used (snd (acre p s)) = setbit (used s) (nat (ffc (used s)))"
begin

text \<open>\<open>E_NOID\<close> exactly when every identifier is taken.\<close>

lemma exhausted_iff:
  assumes "ok p"
  shows "fst (acre p s) = ret E_NOID \<longleftrightarrow> (\<forall>m < limit. bit (used s) m)"
proof (cases "0 \<le> ffc (used s) \<and> ffc (used s) < int limit")
  case True
  then have "fst (acre p s) \<noteq> ret E_NOID"
    using free [OF assms, of s] ret_inj by (fastforce simp: er_defs)
  then show ?thesis
    using True ffc_below [OF limit, of "used s"] by simp
next
  case False
  then show ?thesis
    using full [OF assms, of s] ffc_below [OF limit, of "used s"] by auto
qed

text \<open>A new identifier is in range, was not in use, is in use afterwards, and no other identifier
  changes its status.\<close>

lemma fresh_id:
  assumes "ok p" "fst (acre p s) \<noteq> ret E_NOID"
  obtains n where "n < limit" "fst (acre p s) = ret (int n + 1)" "\<not> bit (used s) n"
    "\<And>m. bit (used (snd (acre p s))) m \<longleftrightarrow> bit (used s) m \<or> m = n"
proof -
  have room: "0 \<le> ffc (used s)" "ffc (used s) < int limit"
    using full [OF assms(1), of s] assms(2) by force+
  show ?thesis
  proof (rule that [of "nat (ffc (used s))"])
    show "\<And>m. bit (used (snd (acre p s))) m \<longleftrightarrow> bit (used s) m \<or> m = nat (ffc (used s))"
      using free [OF assms(1) room] ffc_free [OF room(1)] by auto
  qed (use free [OF assms(1) room] ffc_free [OF room(1)] room in auto)
qed

text \<open>Two creations in a row give two identifiers.\<close>

lemma ids_differ:
  assumes "ok p" "ok q" "acre p s = (ret v, s')" "acre q s' = (ret w, s'')" "v \<noteq> E_NOID" "w \<noteq> E_NOID"
  shows "v \<noteq> w"
proof -
  have "fst (acre p s) \<noteq> ret E_NOID" "fst (acre q s') \<noteq> ret E_NOID"
    using assms ret_inj by auto
  then obtain n m where "ret v = ret (int n + 1)" "bit (used s') n" "ret w = ret (int m + 1)" "\<not> bit (used s') m"
    using fresh_id [OF assms(1), of s] fresh_id [OF assms(2), of s'] assms(3,4) by (metis fst_conv snd_conv)
  then show ?thesis
    using ret_inj by fastforce
qed

end

end
