(* ===== verification/Linked_Lists.thy ===== *)
theory Linked_Lists
  imports Obelisk_Prelude
begin

text \<open>
  The intrusive doubly linked lists of the kernel (\<open>core/include/linked_list.h\<close>) and the FIFO
  queues built on them (\<open>core/include/queue.h\<close>). A node is an address of type \<open>'n\<close>; a
  store maps every node to its \<open>linked_list_t\<close> fields, so that the pointer updates and their
  aliasing are those of the code. \<open>queue_rep\<close> and \<open>list_rep\<close> relate a store to the
  list of nodes it holds, and every operation is shown to refine the list operation it stands for.
  The locale \<open>fifo\<close> is the contract a client of the queue relies on.
\<close>

record ('n, 'o) linked_list_t =
  ll_prev :: "'n option"
  ll_next :: "'n option"
  ll_this :: "'o option"

record 'n queue_t =
  head :: "'n option"
  tail :: "'n option"

type_synonym ('n, 'o) store = "'n \<Rightarrow> ('n, 'o) linked_list_t"

text \<open>Field assignments through a pointer: \<open>p->next = v\<close>, \<open>p->prev = v\<close>.\<close>

definition set_next :: "'n \<Rightarrow> 'n option \<Rightarrow> ('n, 'o) store \<Rightarrow> ('n, 'o) store" where
  "set_next p v st = st(p := (st p)\<lparr>ll_next := v\<rparr>)"

definition set_prev :: "'n \<Rightarrow> 'n option \<Rightarrow> ('n, 'o) store \<Rightarrow> ('n, 'o) store" where
  "set_prev p v st = st(p := (st p)\<lparr>ll_prev := v\<rparr>)"

definition set_this :: "'n \<Rightarrow> 'o option \<Rightarrow> ('n, 'o) store \<Rightarrow> ('n, 'o) store" where
  "set_this p v st = st(p := (st p)\<lparr>ll_this := v\<rparr>)"

text \<open>\<open>if (q) q->f = v;\<close>\<close>

definition when_ptr :: "'n option \<Rightarrow> ('n \<Rightarrow> 's \<Rightarrow> 's) \<Rightarrow> 's \<Rightarrow> 's" where
  "when_ptr q f s = (case q of None \<Rightarrow> s | Some p \<Rightarrow> f p s)"

section \<open>linked\_list.h\<close>

definition init_linked_list :: "'n option" where
  "init_linked_list = None"

definition insert_linked_list ::
  "'n option \<Rightarrow> 'n \<Rightarrow> ('n, 'o) store \<Rightarrow> 'n option \<times> ('n, 'o) store" where
  "insert_linked_list h p st =
     (let st = when_ptr h (\<lambda>q. set_prev q (Some p)) st;
          st = set_next p h st
      in (Some p, st))"

definition remove_linked_list ::
  "'n option \<Rightarrow> 'n \<Rightarrow> ('n, 'o) store \<Rightarrow> 'n option \<times> ('n, 'o) store" where
  "remove_linked_list h p st =
     (let st = when_ptr (ll_next (st p)) (\<lambda>q. set_prev q (ll_prev (st p))) st;
          st = when_ptr (ll_prev (st p)) (\<lambda>q. set_next q (ll_next (st p))) st;
          h = (if h = Some p then ll_next (st p) else h);
          st = set_prev p None (set_next p None st)
      in (h, st))"

definition remove_head_linked_list ::
  "'n option \<Rightarrow> ('n, 'o) store \<Rightarrow> 'o option \<times> 'n option \<times> ('n, 'o) store" where
  "remove_head_linked_list h st =
     (let p = h;
          h = (case h of None \<Rightarrow> None | Some q \<Rightarrow> ll_next (st q));
          st = when_ptr h (\<lambda>q. set_prev q None) st
      in case p of
           None \<Rightarrow> (None, h, st)
         | Some q \<Rightarrow>
             (let st = set_prev q None (set_next q None st) in (ll_this (st q), h, st)))"

section \<open>queue.h\<close>

definition queue_init :: "'n queue_t" where
  "queue_init = \<lparr>head = None, tail = None\<rparr>"

definition queue_is_empty :: "'n queue_t \<Rightarrow> bool" where
  "queue_is_empty sq \<longleftrightarrow> head sq = None"

definition queue_insert ::
  "'n queue_t \<Rightarrow> 'n \<Rightarrow> ('n, 'o) store \<Rightarrow> 'n queue_t \<times> ('n, 'o) store" where
  "queue_insert sq p st =
     (let st = when_ptr (tail sq) (\<lambda>q. set_next q (Some p)) st;
          st = set_prev p (tail sq) st;
          sq = sq\<lparr>tail := Some p\<rparr>;
          sq = (if head sq = None then sq\<lparr>head := Some p\<rparr> else sq)
      in (sq, st))"

text \<open>\<open>queue_insert_sort\<close> has the body of \<open>queue_insert\<close>: it appends, and nothing is sorted.\<close>

definition queue_insert_sort ::
  "'n queue_t \<Rightarrow> 'n \<Rightarrow> ('n, 'o) store \<Rightarrow> 'n queue_t \<times> ('n, 'o) store" where
  "queue_insert_sort sq p st =
     (let st = when_ptr (tail sq) (\<lambda>q. set_next q (Some p)) st;
          st = set_prev p (tail sq) st;
          sq = sq\<lparr>tail := Some p\<rparr>;
          sq = (if head sq = None then sq\<lparr>head := Some p\<rparr> else sq)
      in (sq, st))"

definition queue_get_head :: "'n queue_t \<Rightarrow> ('n, 'o) store \<Rightarrow> 'o option" where
  "queue_get_head sq st = (case head sq of None \<Rightarrow> None | Some p \<Rightarrow> ll_this (st p))"

definition queue_extract ::
  "'n queue_t \<Rightarrow> ('n, 'o) store \<Rightarrow> 'o option \<times> 'n queue_t \<times> ('n, 'o) store" where
  "queue_extract sq st =
     (let p = head sq;
          sq = (case head sq of None \<Rightarrow> sq | Some q \<Rightarrow> sq\<lparr>head := ll_next (st q)\<rparr>)
      in case head sq of
           Some q \<Rightarrow>
             (let st = set_prev q None st
              in case p of
                   None \<Rightarrow> (None, sq, st)
                 | Some p \<Rightarrow>
                     (let st = set_prev p None (set_next p None st) in (ll_this (st p), sq, st)))
         | None \<Rightarrow>
             (let sq = sq\<lparr>tail := None\<rparr>
              in case p of
                   None \<Rightarrow> (None, sq, st)
                 | Some p \<Rightarrow>
                     (let st = set_prev p None (set_next p None st) in (ll_this (st p), sq, st))))"

definition queue_remove ::
  "'n queue_t \<Rightarrow> 'n \<Rightarrow> ('n, 'o) store \<Rightarrow> 'n queue_t \<times> ('n, 'o) store" where
  "queue_remove sq p st =
     (let st = when_ptr (ll_next (st p)) (\<lambda>q. set_prev q (ll_prev (st p))) st;
          st = when_ptr (ll_prev (st p)) (\<lambda>q. set_next q (ll_next (st p))) st;
          sq = (if head sq = Some p then sq\<lparr>head := ll_next (st p)\<rparr> else sq);
          sq = (if tail sq = Some p then sq\<lparr>tail := ll_prev (st p)\<rparr> else sq);
          st = set_prev p None (set_next p None st)
      in (sq, st))"

section \<open>Field update laws\<close>

lemma set_next_apply [simp]:
  "ll_next (set_next p v st q) = (if q = p then v else ll_next (st q))"
  "ll_prev (set_next p v st q) = ll_prev (st q)"
  "ll_this (set_next p v st q) = ll_this (st q)"
  by (simp_all add: set_next_def)

lemma set_prev_apply [simp]:
  "ll_prev (set_prev p v st q) = (if q = p then v else ll_prev (st q))"
  "ll_next (set_prev p v st q) = ll_next (st q)"
  "ll_this (set_prev p v st q) = ll_this (st q)"
  by (simp_all add: set_prev_def)

lemma set_this_apply [simp]:
  "ll_this (set_this p v st q) = (if q = p then v else ll_this (st q))"
  "ll_next (set_this p v st q) = ll_next (st q)"
  "ll_prev (set_this p v st q) = ll_prev (st q)"
  by (simp_all add: set_this_def)

lemma when_ptr_simps [simp]:
  "when_ptr None f s = s" "when_ptr (Some p) f s = f p s"
  by (simp_all add: when_ptr_def)

section \<open>Doubly linked segments\<close>

text \<open>\<open>dseg st a xs b\<close>: the nodes \<open>xs\<close> are linked both ways in the store, entered from
  \<open>a\<close> and left to \<open>b\<close>.\<close>

fun dseg :: "('n, 'o) store \<Rightarrow> 'n option \<Rightarrow> 'n list \<Rightarrow> 'n option \<Rightarrow> bool" where
  "dseg st a [] b \<longleftrightarrow> True"
| "dseg st a (x # xs) b \<longleftrightarrow>
     ll_prev (st x) = a \<and>
     ll_next (st x) = (if xs = [] then b else first_of xs) \<and>
     dseg st (Some x) xs b"

definition queue_rep :: "('n, 'o) store \<Rightarrow> 'n queue_t \<Rightarrow> 'n list \<Rightarrow> bool" where
  "queue_rep st sq xs \<longleftrightarrow>
     distinct xs \<and> head sq = first_of xs \<and> tail sq = last_of xs \<and> dseg st None xs None"

definition list_rep :: "('n, 'o) store \<Rightarrow> 'n option \<Rightarrow> 'n list \<Rightarrow> bool" where
  "list_rep st h xs \<longleftrightarrow> distinct xs \<and> h = first_of xs \<and> dseg st None xs None"

text \<open>A node that is in no list has both links cleared.\<close>

definition isolated :: "('n, 'o) store \<Rightarrow> 'n \<Rightarrow> bool" where
  "isolated st p \<longleftrightarrow> ll_next (st p) = None \<and> ll_prev (st p) = None"

lemma dseg_append:
  "dseg st a (xs @ ys) b \<longleftrightarrow>
     dseg st a xs (if ys = [] then b else first_of ys) \<and>
     dseg st (if xs = [] then a else last_of xs) ys b"
  by (induction xs arbitrary: a) (auto simp: last_of_Cons first_of_append)

lemma dseg_cong:
  assumes "\<And>x. x \<in> set xs \<Longrightarrow> ll_prev (st' x) = ll_prev (st x) \<and> ll_next (st' x) = ll_next (st x)"
  shows "dseg st' a xs b = dseg st a xs b"
  using assms by (induction xs arbitrary: a) auto

lemma dseg_set_next_other [simp]: "p \<notin> set xs \<Longrightarrow> dseg (set_next p v st) a xs b = dseg st a xs b"
  by (rule dseg_cong) auto

lemma dseg_set_prev_other [simp]: "p \<notin> set xs \<Longrightarrow> dseg (set_prev p v st) a xs b = dseg st a xs b"
  by (rule dseg_cong) auto

lemma dseg_set_this [simp]: "dseg (set_this p v st) a xs b = dseg st a xs b"
  by (rule dseg_cong) auto

lemma queue_rep_cong:
  assumes "\<And>x. x \<in> set xs \<Longrightarrow> ll_prev (st' x) = ll_prev (st x) \<and> ll_next (st' x) = ll_next (st x)"
  shows "queue_rep st' sq xs = queue_rep st sq xs"
  by (auto simp: queue_rep_def dseg_cong [OF assms])

lemma list_rep_cong:
  assumes "\<And>x. x \<in> set xs \<Longrightarrow> ll_prev (st' x) = ll_prev (st x) \<and> ll_next (st' x) = ll_next (st x)"
  shows "list_rep st' h xs = list_rep st h xs"
  by (auto simp: list_rep_def dseg_cong [OF assms])

lemma queue_rep_unique:
  assumes "queue_rep st sq xs" "queue_rep st sq ys"
  shows "xs = ys"
proof -
  have "dseg st a xs None \<Longrightarrow> dseg st a ys None \<Longrightarrow> first_of xs = first_of ys \<Longrightarrow> xs = ys"
    for a xs ys
  proof (induction xs arbitrary: ys a)
    case Nil
    then show ?case by simp
  next
    case (Cons x xs)
    then obtain zs where ys: "ys = x # zs"
      using first_of_SomeD by (metis first_of_simps(2))
    have "first_of xs = ll_next (st x)" "first_of zs = ll_next (st x)"
      using Cons.prems(1,2) ys by (auto split: if_splits)
    then show ?case
      using Cons.IH [of "Some x" zs] Cons.prems ys by simp
  qed
  then show ?thesis
    using assms unfolding queue_rep_def by metis
qed

section \<open>queue\_insert\<close>

lemma queue_insert_rep:
  assumes "queue_rep st sq xs" "p \<notin> set xs" "ll_next (st p) = None"
    and "queue_insert sq p st = (sq', st')"
  shows "queue_rep st' sq' (xs @ [p])"
proof (cases xs rule: rev_cases)
  case Nil
  then show ?thesis
    using assms by (auto simp: queue_rep_def queue_insert_def Let_def)
next
  case (snoc ys y)
  then show ?thesis
    using assms
    by (auto simp: queue_rep_def queue_insert_def Let_def dseg_append first_of_append
        split: if_splits)
qed

lemma queue_insert_other:
  assumes "queue_rep st sq xs" "q \<notin> set xs" "q \<noteq> p" "queue_insert sq p st = (sq', st')"
  shows "st' q = st q"
  using assms by (cases xs rule: rev_cases)
    (auto simp: queue_rep_def queue_insert_def Let_def set_next_def set_prev_def)

lemma queue_insert_this:
  "queue_insert sq p st = (sq', st') \<Longrightarrow> ll_this (st' q) = ll_this (st q)"
  by (cases "tail sq") (auto simp: queue_insert_def Let_def)

section \<open>queue\_extract\<close>

lemma queue_extract_empty:
  assumes "queue_rep st sq []"
  shows "queue_extract sq st = (None, sq, st)"
  using assms by (cases sq) (auto simp: queue_rep_def queue_extract_def Let_def)

lemma queue_extract_rep:
  assumes "queue_rep st sq (x # xs)" "queue_extract sq st = (t, sq', st')"
  shows "t = ll_this (st x) \<and> queue_rep st' sq' xs \<and> isolated st' x"
proof (cases xs)
  case Nil
  then show ?thesis
    using assms by (auto simp: queue_rep_def queue_extract_def Let_def isolated_def)
next
  case (Cons y ys)
  then show ?thesis
    using assms
    by (auto simp: queue_rep_def queue_extract_def Let_def isolated_def)
qed

lemma queue_extract_other:
  assumes "queue_rep st sq xs" "q \<notin> set xs" "queue_extract sq st = (t, sq', st')"
  shows "st' q = st q"
proof (cases xs)
  case Nil
  then show ?thesis
    using assms queue_extract_empty [of st sq] by simp
next
  case (Cons y ys)
  then show ?thesis
    using assms by (cases ys) (auto simp: queue_rep_def queue_extract_def Let_def
        set_next_def set_prev_def)
qed

lemma queue_extract_this:
  "queue_extract sq st = (t, sq', st') \<Longrightarrow> ll_this (st' q) = ll_this (st q)"
  by (auto simp: queue_extract_def Let_def split: option.splits)

section \<open>Removal from the middle\<close>

lemma unlink_rep:
  assumes seg: "dseg st None (as @ p # bs) None" "distinct (as @ p # bs)"
    and st1: "st1 = when_ptr (ll_next (st p)) (\<lambda>q. set_prev q (ll_prev (st p))) st"
    and st2: "st2 = when_ptr (ll_prev (st1 p)) (\<lambda>q. set_next q (ll_next (st1 p))) st1"
  shows "dseg (set_prev p None (set_next p None st2)) None (as @ bs) None"
    and "ll_next (st2 p) = first_of bs" "ll_prev (st2 p) = last_of as"
proof -
  have n: "ll_next (st p) = first_of bs" and pr: "ll_prev (st p) = last_of as"
    using seg(1) by (auto simp: dseg_append split: if_splits)
  have p: "p \<notin> set as" "p \<notin> set bs"
    using seg(2) by auto
  have st1p: "ll_next (st1 p) = first_of bs" "ll_prev (st1 p) = last_of as"
    using st1 n pr p by (cases bs; auto)+
  then show "ll_next (st2 p) = first_of bs" "ll_prev (st2 p) = last_of as"
    using st2 p by (cases as rule: rev_cases; auto)+
  have "dseg st2 None (as @ bs) None"
    using seg st1 st2 st1p n pr p
    by (cases as rule: rev_cases; cases bs) (auto simp: dseg_append)
  then show "dseg (set_prev p None (set_next p None st2)) None (as @ bs) None"
    using p by simp
qed

lemma queue_remove_rep:
  assumes "queue_rep st sq (as @ p # bs)" "queue_remove sq p st = (sq', st')"
  shows "queue_rep st' sq' (as @ bs) \<and> isolated st' p"
proof -
  define st1 where "st1 = when_ptr (ll_next (st p)) (\<lambda>q. set_prev q (ll_prev (st p))) st"
  define st2 where "st2 = when_ptr (ll_prev (st1 p)) (\<lambda>q. set_next q (ll_next (st1 p))) st1"
  have rep: "dseg st None (as @ p # bs) None" "distinct (as @ p # bs)"
    "head sq = first_of (as @ p # bs)" "tail sq = last_of (as @ p # bs)"
    using assms(1) by (auto simp: queue_rep_def)
  note u = unlink_rep [OF rep(1,2) st1_def st2_def]
  have st': "st' = set_prev p None (set_next p None st2)"
    using assms(2) by (simp add: queue_remove_def Let_def flip: st1_def st2_def)
  have "head sq' = first_of (as @ bs)"
    using assms(2) rep(2,3) u(2)
    by (cases as) (auto simp: queue_remove_def Let_def first_of_append simp flip: st1_def st2_def
        split: if_splits)
  moreover have "tail sq' = last_of (as @ bs)"
    using assms(2) rep(2,4) u(3)
    by (cases bs rule: rev_cases)
      (auto simp: queue_remove_def Let_def last_of_append last_of_Cons simp flip: st1_def st2_def
        split: if_splits)
  ultimately show ?thesis
    using u(1) st' rep(2) by (auto simp: queue_rep_def isolated_def)
qed

lemma unlink_other:
  assumes "dseg st None xs None" "p \<in> set xs" "q \<notin> set xs"
    and "st1 = when_ptr (ll_next (st p)) (\<lambda>q. set_prev q (ll_prev (st p))) st"
    and "st2 = when_ptr (ll_prev (st1 p)) (\<lambda>q. set_next q (ll_next (st1 p))) st1"
  shows "set_prev p None (set_next p None st2) q = st q"
proof -
  obtain as bs where xs: "xs = as @ p # bs"
    using assms(2) by (auto simp: in_set_conv_decomp)
  have n: "ll_next (st p) = first_of bs" and pr: "ll_prev (st p) = last_of as"
    using assms(1) xs by (auto simp: dseg_append split: if_splits)
  have "ll_prev (st1 p) = last_of as \<or> ll_prev (st1 p) = Some p"
    using assms(4) n pr by (cases bs) (auto simp: last_of_def)
  then show ?thesis
    using assms(3-5) xs n pr
    by (cases bs; cases as rule: rev_cases) (auto simp: set_next_def set_prev_def last_of_def)
qed

lemma queue_remove_other:
  assumes "queue_rep st sq xs" "p \<in> set xs" "q \<notin> set xs" "queue_remove sq p st = (sq', st')"
  shows "st' q = st q"
  using assms unlink_other [of st xs p q, OF _ _ _ refl refl]
  by (auto simp: queue_rep_def queue_remove_def Let_def)

lemma queue_remove_this:
  "queue_remove sq p st = (sq', st') \<Longrightarrow> ll_this (st' q) = ll_this (st q)"
  by (auto simp: queue_remove_def Let_def when_ptr_def split: option.splits)

text \<open>Removing a node that is in no list changes nothing.\<close>

lemma set_links_isolated [simp]:
  "isolated st p \<Longrightarrow> set_next p None st = st" "isolated st p \<Longrightarrow> set_prev p None st = st"
  by (auto simp: isolated_def set_next_def set_prev_def)

lemma queue_remove_absent:
  assumes "queue_rep st sq xs" "p \<notin> set xs" "isolated st p"
  shows "queue_remove sq p st = (sq, st)"
proof -
  have "head sq \<noteq> Some p" "tail sq \<noteq> Some p"
    using assms(1,2) by (auto simp: queue_rep_def dest: first_of_in last_of_in)
  then show ?thesis
    using assms(3) by (simp add: queue_remove_def Let_def) (simp add: isolated_def)
qed

section \<open>Plain lists\<close>

lemma insert_linked_list_rep:
  assumes "list_rep st h xs" "p \<notin> set xs" "ll_prev (st p) = None"
    and "insert_linked_list h p st = (h', st')"
  shows "list_rep st' h' (p # xs)"
  using assms by (cases xs) (auto simp: list_rep_def insert_linked_list_def Let_def)

lemma remove_linked_list_rep:
  assumes "list_rep st h (as @ p # bs)" "remove_linked_list h p st = (h', st')"
  shows "list_rep st' h' (as @ bs) \<and> isolated st' p"
proof -
  define st1 where "st1 = when_ptr (ll_next (st p)) (\<lambda>q. set_prev q (ll_prev (st p))) st"
  define st2 where "st2 = when_ptr (ll_prev (st1 p)) (\<lambda>q. set_next q (ll_next (st1 p))) st1"
  have rep: "dseg st None (as @ p # bs) None" "distinct (as @ p # bs)"
    "h = first_of (as @ p # bs)"
    using assms(1) by (auto simp: list_rep_def)
  note u = unlink_rep [OF rep(1,2) st1_def st2_def]
  have st': "st' = set_prev p None (set_next p None st2)"
    using assms(2) by (simp add: remove_linked_list_def Let_def flip: st1_def st2_def)
  have "h' = first_of (as @ bs)"
    using assms(2) rep(2,3) u(2)
    by (cases as) (auto simp: remove_linked_list_def Let_def first_of_append
        simp flip: st1_def st2_def split: if_splits)
  then show ?thesis
    using u(1) st' rep(2) by (auto simp: list_rep_def isolated_def)
qed

lemma remove_linked_list_other:
  assumes "list_rep st h xs" "p \<in> set xs" "q \<notin> set xs" "remove_linked_list h p st = (h', st')"
  shows "st' q = st q"
  using assms unlink_other [of st xs p q, OF _ _ _ refl refl]
  by (auto simp: list_rep_def remove_linked_list_def Let_def)

lemma remove_linked_list_this:
  "remove_linked_list h p st = (h', st') \<Longrightarrow> ll_this (st' q) = ll_this (st q)"
  by (auto simp: remove_linked_list_def Let_def when_ptr_def split: option.splits)

lemma remove_linked_list_absent:
  assumes "list_rep st h xs" "p \<notin> set xs" "isolated st p"
  shows "remove_linked_list h p st = (h, st)"
proof -
  have "h \<noteq> Some p"
    using assms(1,2) by (auto simp: list_rep_def dest: first_of_in)
  then show ?thesis
    using assms(3) by (simp add: remove_linked_list_def Let_def) (simp add: isolated_def)
qed

section \<open>The queue contract\<close>

text \<open>Running a list of insertions, and a number of extractions, of a queue interface.\<close>

primrec ins_all :: "('q \<Rightarrow> 'n \<Rightarrow> 's \<Rightarrow> 'q \<times> 's) \<Rightarrow> 'n list \<Rightarrow> 'q \<Rightarrow> 's \<Rightarrow> 'q \<times> 's" where
  "ins_all ins [] q s = (q, s)"
| "ins_all ins (p # ps) q s = (case ins q p s of (q', s') \<Rightarrow> ins_all ins ps q' s')"

primrec ext_many ::
  "('q \<Rightarrow> 's \<Rightarrow> 'o option \<times> 'q \<times> 's) \<Rightarrow> nat \<Rightarrow> 'q \<Rightarrow> 's \<Rightarrow> 'o option list \<times> 'q \<times> 's" where
  "ext_many ext 0 q s = ([], q, s)"
| "ext_many ext (Suc n) q s =
     (case ext q s of (t, q', s') \<Rightarrow>
        case ext_many ext n q' s' of (ts, q'', s'') \<Rightarrow> (t # ts, q'', s''))"

locale fifo =
  fixes rep :: "'s \<Rightarrow> 'q \<Rightarrow> 'n list \<Rightarrow> bool"
    and free :: "'s \<Rightarrow> 'n \<Rightarrow> bool"
    and owner :: "'s \<Rightarrow> 'n \<Rightarrow> 'o option"
    and ins :: "'q \<Rightarrow> 'n \<Rightarrow> 's \<Rightarrow> 'q \<times> 's"
    and ext :: "'q \<Rightarrow> 's \<Rightarrow> 'o option \<times> 'q \<times> 's"
  assumes ins_rep: "rep s q xs \<Longrightarrow> p \<notin> set xs \<Longrightarrow> free s p \<Longrightarrow> ins q p s = (q', s') \<Longrightarrow>
      rep s' q' (xs @ [p])"
    and ins_free: "rep s q xs \<Longrightarrow> x \<notin> set xs \<Longrightarrow> x \<noteq> p \<Longrightarrow> free s x \<Longrightarrow> ins q p s = (q', s') \<Longrightarrow>
      free s' x"
    and ins_owner: "ins q p s = (q', s') \<Longrightarrow> owner s' x = owner s x"
    and ext_rep: "rep s q (x # xs) \<Longrightarrow> ext q s = (t, q', s') \<Longrightarrow>
      t = owner s x \<and> rep s' q' xs \<and> free s' x"
    and ext_owner: "ext q s = (t, q', s') \<Longrightarrow> owner s' x = owner s x"
    and ext_empty: "rep s q [] \<Longrightarrow> ext q s = (None, q, s)"
begin

lemma ins_all_rep:
  assumes "rep s q xs" "distinct (xs @ ps)" "\<forall>p \<in> set ps. free s p" "ins_all ins ps q s = (q', s')"
  shows "rep s' q' (xs @ ps) \<and> (\<forall>x. owner s' x = owner s x)"
  using assms
proof (induction ps arbitrary: xs q s)
  case Nil
  then show ?case by simp
next
  case (Cons p ps)
  obtain q1 s1 where 1: "ins q p s = (q1, s1)"
    by fastforce
  have "rep s1 q1 (xs @ [p])"
    using ins_rep [OF Cons.prems(1) _ _ 1] Cons.prems(2,3) by simp
  moreover have "\<forall>x \<in> set ps. free s1 x"
    using ins_free [OF Cons.prems(1) _ _ _ 1] Cons.prems(2,3) by auto
  ultimately have "rep s' q' ((xs @ [p]) @ ps) \<and> (\<forall>x. owner s' x = owner s1 x)"
    using Cons.IH [of s1 q1 "xs @ [p]"] Cons.prems(2,4) 1 by auto
  then show ?case
    using ins_owner [OF 1] by simp
qed

lemma ext_many_rep:
  assumes "rep s q (xs @ ys)" "ext_many ext (length xs) q s = (ts, q', s')"
  shows "ts = map (owner s) xs \<and> rep s' q' ys"
  using assms
proof (induction xs arbitrary: q s ts)
  case Nil
  then show ?case by simp
next
  case (Cons x xs)
  obtain t q1 s1 where 1: "ext q s = (t, q1, s1)"
    by (metis prod_cases3)
  obtain us where us: "ext_many ext (length xs) q1 s1 = (us, q', s')" "ts = t # us"
    using Cons.prems(2) 1 by (auto split: prod.splits)
  have "t = owner s x" "rep s1 q1 (xs @ ys)"
    using ext_rep [of s q x "xs @ ys", OF _ 1] Cons.prems(1) by auto
  moreover have "us = map (owner s1) xs \<and> rep s' q' ys"
    using Cons.IH [OF _ us(1)] \<open>rep s1 q1 (xs @ ys)\<close> by simp
  ultimately show ?case
    using us(2) ext_owner [OF 1] by simp
qed

text \<open>First in, first out: what is put in comes out in the same order, and the queue is back to
  what it held before.\<close>

lemma fifo_order:
  assumes "rep s q []" "distinct ps" "\<forall>p \<in> set ps. free s p"
    and "ins_all ins ps q s = (q1, s1)" "ext_many ext (length ps) q1 s1 = (ts, q2, s2)"
  shows "ts = map (owner s) ps \<and> rep s2 q2 []"
proof -
  have "rep s1 q1 ps" and own: "\<And>x. owner s1 x = owner s x"
    using ins_all_rep [OF assms(1) _ assms(3,4)] assms(2) by auto
  then have "ts = map (owner s1) ps \<and> rep s2 q2 []"
    using ext_many_rep [of s1 q1 ps "[]", OF _ assms(5)] by simp
  then show ?thesis
    using own by simp
qed

end

interpretation queue: fifo queue_rep isolated "\<lambda>st p. ll_this (st p)" queue_insert queue_extract
proof unfold_locales
  fix s :: "('n, 'o) store" and q :: "'n queue_t" and xs p q' s'
  assume "queue_rep s q xs" "p \<notin> set xs" "isolated s p" "queue_insert q p s = (q', s')"
  then show "queue_rep s' q' (xs @ [p])"
    by (auto simp: isolated_def intro: queue_insert_rep)
next
  fix s :: "('n, 'o) store" and q :: "'n queue_t" and xs x p q' s'
  assume "queue_rep s q xs" "x \<notin> set xs" "x \<noteq> p" "isolated s x" "queue_insert q p s = (q', s')"
  then show "isolated s' x"
    using queue_insert_other [of s q xs x p q' s'] by (simp add: isolated_def)
qed (simp_all add: queue_insert_this queue_extract_this queue_extract_rep queue_extract_empty)

end
