(* ===== verification/Queue_Families.thy ===== *)
theory Queue_Families
  imports Linked_Lists
begin

text \<open>
  Several queues over the nodes that one field embeds in a kind of object: the 32 ready queues over
  the \<open>rdyque\<close> nodes of the tasks, the wait queues of all synchronisation objects over their
  \<open>synque\<close> nodes, the message queues over the heads of the messages. An object is in at most one
  queue of the family and its node is unlinked when it is in none. The locale \<open>embedded_node\<close>
  carries the refinement of the queue operations to this view; its one law is that different
  objects embed different nodes.
\<close>

definition family_rep ::
  "('a \<Rightarrow> 'n) \<Rightarrow> ('n, 'o) store \<Rightarrow> ('k \<Rightarrow> 'n queue_t) \<Rightarrow> ('k \<Rightarrow> 'a list) \<Rightarrow> bool" where
  "family_rep nd st qs Q \<longleftrightarrow>
     (\<forall>k. queue_rep st (qs k) (map nd (Q k))) \<and>
     (\<forall>k j. k \<noteq> j \<longrightarrow> set (Q k) \<inter> set (Q j) = {}) \<and>
     (\<forall>x. (\<forall>k. x \<notin> set (Q k)) \<longrightarrow> isolated st (nd x))"

lemma family_rep_queue: "family_rep nd st qs Q \<Longrightarrow> queue_rep st (qs k) (map nd (Q k))"
  by (simp add: family_rep_def)

lemma family_rep_disjoint: "family_rep nd st qs Q \<Longrightarrow> x \<in> set (Q k) \<Longrightarrow> x \<in> set (Q j) \<Longrightarrow> j = k"
  unfolding family_rep_def by blast

lemma family_rep_isolated: "family_rep nd st qs Q \<Longrightarrow> \<forall>k. x \<notin> set (Q k) \<Longrightarrow> isolated st (nd x)"
  by (simp add: family_rep_def)

lemma family_rep_distinct: "family_rep nd st qs Q \<Longrightarrow> distinct (Q k)"
  using family_rep_queue [of nd st qs Q k] by (auto simp: queue_rep_def distinct_map)

lemma family_rep_empty_iff: "family_rep nd st qs Q \<Longrightarrow> head (qs k) = None \<longleftrightarrow> Q k = []"
  using family_rep_queue [of nd st qs Q k] by (auto simp: queue_rep_def)

lemma family_rep_head:
  "family_rep nd st qs Q \<Longrightarrow> queue_get_head (qs k) st =
     (case Q k of [] \<Rightarrow> None | x # _ \<Rightarrow> ll_this (st (nd x)))"
  using family_rep_queue [of nd st qs Q k]
  by (cases "Q k") (auto simp: queue_rep_def queue_get_head_def)

text \<open>Only the links of the family's own nodes matter.\<close>

lemma family_rep_cong:
  assumes "\<And>x. ll_prev (st' (nd x)) = ll_prev (st (nd x)) \<and> ll_next (st' (nd x)) = ll_next (st (nd x))"
  shows "family_rep nd st' qs Q = family_rep nd st qs Q"
proof -
  have "queue_rep st' (qs k) (map nd (Q k)) = queue_rep st (qs k) (map nd (Q k))" for k
    by (rule queue_rep_cong) (auto simp: assms)
  then show ?thesis
    by (simp add: family_rep_def isolated_def assms)
qed

locale embedded_node =
  fixes nd :: "'a \<Rightarrow> 'n"
  assumes inj_nd: "inj nd"
begin

lemma nd_eq [simp]: "nd x = nd y \<longleftrightarrow> x = y"
  using inj_nd by (simp add: inj_eq)

lemma nd_mem [simp]: "nd x \<in> nd ` A \<longleftrightarrow> x \<in> A"
  using inj_nd by (simp add: inj_image_mem_iff)

text \<open>A change of queue \<open>k\<close> alone: the new store agrees with the old one outside the nodes of
  the queue before and after, the new queue holds \<open>ys\<close>, and a dropped node is unlinked.\<close>

lemma family_update:
  assumes "family_rep nd st qs Q"
    and "queue_rep st' q' (map nd ys)"
    and "\<And>n. n \<notin> nd ` (set (Q k) \<union> set ys) \<Longrightarrow> st' n = st n"
    and "\<And>x. x \<in> set (Q k) \<Longrightarrow> x \<notin> set ys \<Longrightarrow> isolated st' (nd x)"
    and "\<And>x j. x \<in> set ys \<Longrightarrow> x \<in> set (Q j) \<Longrightarrow> j = k"
  shows "family_rep nd st' (qs(k := q')) (Q(k := ys))"
proof -
  have same: "st' (nd x) = st (nd x)" if "x \<notin> set (Q k)" "x \<notin> set ys" for x
    using assms(3) [of "nd x"] that by (auto simp: image_iff)
  have "queue_rep st' (qs j) (map nd (Q j))" if "j \<noteq> k" for j
  proof -
    have "x \<notin> set (Q k) \<and> x \<notin> set ys" if "x \<in> set (Q j)" for x
      using assms(5) that \<open>j \<noteq> k\<close> family_rep_disjoint [OF assms(1)] by blast
    then have "queue_rep st' (qs j) (map nd (Q j)) = queue_rep st (qs j) (map nd (Q j))"
      by (intro queue_rep_cong) (auto simp: same)
    then show ?thesis
      using family_rep_queue [OF assms(1)] by simp
  qed
  moreover have "isolated st' (nd x)" if "\<forall>j. x \<notin> set ((Q(k := ys)) j)" for x
  proof (cases "x \<in> set (Q k)")
    case True
    then show ?thesis
      using assms(4) that by (metis fun_upd_same)
  next
    case False
    then have "\<forall>j. x \<notin> set (Q j)" "x \<notin> set ys"
      using that by (metis fun_upd_other, metis fun_upd_same)
    then show ?thesis
      using family_rep_isolated [OF assms(1)] same [OF False] by (simp add: isolated_def)
  qed
  moreover have "set ((Q(k := ys)) i) \<inter> set ((Q(k := ys)) j) = {}" if "i \<noteq> j" for i j
    using assms(5) that family_rep_disjoint [OF assms(1)] by (auto split: if_splits)
  ultimately show ?thesis
    using assms(2) by (simp add: family_rep_def)
qed

lemma family_insert:
  assumes "family_rep nd st qs Q" "\<forall>j. x \<notin> set (Q j)" "r = queue_insert (qs k) (nd x) st"
  shows "family_rep nd (snd r) (qs(k := fst r)) (Q(k := Q k @ [x]))"
proof (rule family_update [OF assms(1)])
  have rep: "queue_rep st (qs k) (map nd (Q k))"
    using family_rep_queue [OF assms(1)] .
  have "isolated st (nd x)"
    using family_rep_isolated [OF assms(1)] assms(2) by blast
  then show "queue_rep (snd r) (fst r) (map nd (Q k @ [x]))"
    using queue_insert_rep [OF rep, of "nd x" "fst r" "snd r"] assms(2,3)
    by (auto simp: isolated_def)
  show "snd r n = st n" if "n \<notin> nd ` (set (Q k) \<union> set (Q k @ [x]))" for n
    using queue_insert_other [OF rep, of n "nd x" "fst r" "snd r"] that assms(3) by auto
  show "j = k" if "y \<in> set (Q k @ [x])" "y \<in> set (Q j)" for y j
    using that assms(2) family_rep_disjoint [OF assms(1)] by auto
qed auto

lemma family_remove:
  assumes "family_rep nd st qs Q" "x \<in> set (Q k)" "r = queue_remove (qs k) (nd x) st"
  shows "family_rep nd (snd r) (qs(k := fst r)) (Q(k := remove1 x (Q k)))"
proof (rule family_update [OF assms(1)])
  obtain as bs where ab: "Q k = as @ x # bs" "x \<notin> set as"
    using split_list_first [OF assms(2)] by auto
  then have rm: "remove1 x (Q k) = as @ bs"
    by (simp add: remove1_append)
  have rep: "queue_rep st (qs k) (map nd (Q k))"
    using family_rep_queue [OF assms(1)] .
  then have q: "queue_rep (snd r) (fst r) (map nd as @ map nd bs) \<and> isolated (snd r) (nd x)"
    using queue_remove_rep [of st "qs k" "map nd as" "nd x" "map nd bs" "fst r" "snd r"] ab(1)
      assms(3) by simp
  then show "queue_rep (snd r) (fst r) (map nd (remove1 x (Q k)))"
    using rm by simp
  show "snd r n = st n" if "n \<notin> nd ` (set (Q k) \<union> set (remove1 x (Q k)))" for n
    using queue_remove_other [OF rep, of "nd x" n "fst r" "snd r"] that assms(2,3) by auto
  show "isolated (snd r) (nd y)" if "y \<in> set (Q k)" "y \<notin> set (remove1 x (Q k))" for y
    using that q ab rm by auto
  show "j = k" if "y \<in> set (remove1 x (Q k))" "y \<in> set (Q j)" for y j
    using that family_rep_disjoint [OF assms(1)] by (meson notin_set_remove1)
qed

lemma family_extract:
  assumes "family_rep nd st qs Q" "Q k = x # xs" "r = queue_extract (qs k) st"
  shows "family_rep nd (snd (snd r)) (qs(k := fst (snd r))) (Q(k := xs))"
    and "fst r = ll_this (st (nd x))"
proof -
  have rep: "queue_rep st (qs k) (map nd (x # xs))"
    using family_rep_queue [OF assms(1), of k] assms(2) by simp
  then have q: "fst r = ll_this (st (nd x)) \<and> queue_rep (snd (snd r)) (fst (snd r)) (map nd xs) \<and>
      isolated (snd (snd r)) (nd x)"
    using queue_extract_rep [of st "qs k" "nd x" "map nd xs" "fst r" "fst (snd r)" "snd (snd r)"]
      assms(3) by simp
  then show "fst r = ll_this (st (nd x))"
    by simp
  show "family_rep nd (snd (snd r)) (qs(k := fst (snd r))) (Q(k := xs))"
  proof (rule family_update [OF assms(1)])
    show "snd (snd r) n = st n" if "n \<notin> nd ` (set (Q k) \<union> set xs)" for n
      using queue_extract_other [OF rep, of n "fst r" "fst (snd r)" "snd (snd r)"] that assms(2,3)
      by auto
    show "j = k" if "y \<in> set xs" "y \<in> set (Q j)" for y j
      using that assms(2) family_rep_disjoint [OF assms(1), of y k j] by simp
  qed (use q assms(2) in auto)
qed

lemma family_extract_empty:
  assumes "family_rep nd st qs Q" "Q k = []"
  shows "queue_extract (qs k) st = (None, qs k, st)"
  using family_rep_queue [OF assms(1), of k] assms(2) by (simp add: queue_extract_empty)

text \<open>The operations leave the nodes outside the family alone.\<close>

lemma family_insert_frame:
  assumes "family_rep nd st qs Q" "n \<notin> range nd"
  shows "snd (queue_insert (qs k) (nd x) st) n = st n"
  using queue_insert_other [OF family_rep_queue [OF assms(1)], of n k "nd x"] assms(2)
  by (auto simp: prod_eq_iff)

lemma family_remove_frame:
  assumes "family_rep nd st qs Q" "x \<in> set (Q k)" "n \<notin> range nd"
  shows "snd (queue_remove (qs k) (nd x) st) n = st n"
  using queue_remove_other [OF family_rep_queue [OF assms(1)], of "nd x" k n] assms(2,3)
  by (auto simp: prod_eq_iff)

lemma family_extract_frame:
  assumes "family_rep nd st qs Q" "n \<notin> range nd"
  shows "snd (snd (queue_extract (qs k) st)) n = st n"
  using queue_extract_other [OF family_rep_queue [OF assms(1)], of n k] assms(2)
  by (auto simp: prod_eq_iff)

end

end
