(* ===== verification/Kernel_State.thy ===== *)
theory Kernel_State
  imports Bitmaps Queue_Families
begin

text \<open>
  The kernel's data: the configuration (\<open>autoconf.h\<close>), the objects of the header files
  (\<open>task.h\<close>, \<open>semaphore.h\<close>, \<open>event.h\<close>, \<open>mailbox.h\<close>, \<open>mempool.h\<close>), and one
  record with the static variables of the files under \<open>core/kernel/port\<close>. A pointer into a
  static pool is the index of its element. The list nodes embedded in the objects live in one store
  \<open>nodes\<close>, indexed by the object and the field that holds the node. Pointers that come from user
  level are 32-bit words into the word-addressed memory \<open>kmem\<close>.

  The kernel stack of a task holds the point where it will continue. \<open>kctx\<close> records it:
  \<open>Calling k\<close> before a call of \<open>scheduler()\<close> with \<open>k\<close> left to do,
  \<open>Resuming k\<close> inside or after that call, \<open>None\<close> at user level. Interrupts are off between
  \<open>__hw_cli\<close> and \<open>__hw_sti\<close>, so such a section is one step of the model.
\<close>

section \<open>Configuration\<close>

definition CONFIG_MAX_TASKS :: nat where [cfg_defs]: "CONFIG_MAX_TASKS = 3"
definition CONFIG_MAX_SEM :: nat where [cfg_defs]: "CONFIG_MAX_SEM = 4"
definition CONFIG_MAX_EVENT :: nat where [cfg_defs]: "CONFIG_MAX_EVENT = 2"
definition CONFIG_MAX_MAILBOX :: nat where [cfg_defs]: "CONFIG_MAX_MAILBOX = 4"
definition CONFIG_MAX_MAILBOX_MSG :: nat where [cfg_defs]: "CONFIG_MAX_MAILBOX_MSG = 128"
definition CONFIG_MAX_FMPOOL :: nat where [cfg_defs]: "CONFIG_MAX_FMPOOL = 3"
definition CONFIG_SYSLOG_SIZE :: nat where [cfg_defs]: "CONFIG_SYSLOG_SIZE = 256"

definition MAX_TASKS :: nat where [cfg_defs]: "MAX_TASKS = CONFIG_MAX_TASKS + 2"
definition PRIORITY_LEVELS :: nat where [cfg_defs]: "PRIORITY_LEVELS = 32"
definition MIN_TASK_PRIORITY :: nat where [cfg_defs]: "MIN_TASK_PRIORITY = PRIORITY_LEVELS - 1"
definition MAX_TASK_PRIORITY :: nat where [cfg_defs]: "MAX_TASK_PRIORITY = 0"
definition TSK_KERNEL :: u32 where [cfg_defs]: "TSK_KERNEL = 2"
definition TSK_SELF :: int where [cfg_defs]: "TSK_SELF = 0"
definition TSK_NONE :: int where [cfg_defs]: "TSK_NONE = 0"
definition TMO_POL :: u32 where [cfg_defs]: "TMO_POL = -1"
definition TMO_FEVR :: u32 where [cfg_defs]: "TMO_FEVR = 0"

section \<open>Task states and causes of wait\<close>

named_theorems stat_defs \<open>bit patterns of task states, wait causes and attributes\<close>

definition TTS_RUN :: u32 where [stat_defs]: "TTS_RUN = 0x01"
definition TTS_RDY :: u32 where [stat_defs]: "TTS_RDY = 0x02"
definition TTS_WAI :: u32 where [stat_defs]: "TTS_WAI = 0x04"
definition TTS_DMT :: u32 where [stat_defs]: "TTS_DMT = 0x10"
definition TTW_SLP :: u32 where [stat_defs]: "TTW_SLP = 0x0001"
definition TTW_FLG :: u32 where [stat_defs]: "TTW_FLG = 0x0010"
definition TTW_SEM :: u32 where [stat_defs]: "TTW_SEM = 0x0020"
definition TTW_MBX :: u32 where [stat_defs]: "TTW_MBX = 0x0040"
definition TTW_MPF :: u32 where [stat_defs]: "TTW_MPF = 0x2000"
definition TA_WMUL :: u32 where [stat_defs]: "TA_WMUL = 0x02"
definition TA_CLR :: u32 where [stat_defs]: "TA_CLR = 0x04"
definition TWF_ORW :: u32 where [stat_defs]: "TWF_ORW = 0x01"

section \<open>Objects\<close>

datatype node = Rdy nat | Syn nat | Slp nat | ActSem nat | ActFlg nat | MsgQ u32

datatype obj = Tsk nat | Sem nat | Flg nat | Msg u32

type_synonym nodes_t = "(node, obj) store"

record task_t =
  tskid :: int
  exinf :: u32
  tskatr :: u32
  tskbpri :: nat
  tskpri :: nat
  tskstat :: u32
  wobjid :: int
  tskwait :: u32
  wuptim :: u64
  wflgptn :: u32
  wflgatr :: u32
  actcnt :: int
  wupcnt :: int
  suscnt :: int
  extdat :: u32
  task_fn :: u32
  stksz :: int
  stk :: u32

definition task_zero :: task_t where
  "task_zero = \<lparr>tskid = 0, exinf = 0, tskatr = 0, tskbpri = 0, tskpri = 0, tskstat = 0, wobjid = 0,
     tskwait = 0, wuptim = 0, wflgptn = 0, wflgatr = 0, actcnt = 0, wupcnt = 0, suscnt = 0,
     extdat = 0, task_fn = 0, stksz = 0, stk = 0\<rparr>"

record semaphore_t =
  sematr :: int
  semcnt :: int
  maxsem :: int
  semque :: "node queue_t"

definition sem_zero :: semaphore_t where
  "sem_zero = \<lparr>sematr = 0, semcnt = 0, maxsem = 0, semque = queue_init\<rparr>"

record eventflag_t =
  flgatr :: u32
  flgptn :: u32
  flgque :: "node queue_t"

definition flg_zero :: eventflag_t where
  "flg_zero = \<lparr>flgatr = 0, flgptn = 0, flgque = queue_init\<rparr>"

record mailbox_t =
  mbxatr :: u32
  maxmpri :: u32
  mbxque :: "node queue_t"
  msgque :: "node queue_t"

definition mbx_zero :: mailbox_t where
  "mbx_zero = \<lparr>mbxatr = 0, maxmpri = 0, mbxque = queue_init, msgque = queue_init\<rparr>"

record mpfpool_t =
  mpfatr :: u32
  blkcnt :: u32
  blksz :: u32
  mpf :: u32
  mpfque :: "node queue_t"

definition mpf_zero :: mpfpool_t where
  "mpf_zero = \<lparr>mpfatr = 0, blkcnt = 0, blksz = 0, mpf = 0, mpfque = queue_init\<rparr>"

record log_entry_t =
  le_time :: u32
  le_event :: "16 word"
  le_arg1 :: "16 word"
  le_arg2 :: "16 word"
  le_arg3 :: "16 word"

definition log_zero :: log_entry_t where
  "log_zero = \<lparr>le_time = 0, le_event = 0, le_arg1 = 0, le_arg2 = 0, le_arg3 = 0\<rparr>"

definition node_zero :: "(node, obj) linked_list_t" where
  "node_zero = \<lparr>ll_prev = None, ll_next = None, ll_this = None\<rparr>"

section \<open>Continuations\<close>

datatype kcont =
    K_start
  | K_idle
  | K_user
  | K_ret int
  | K_ext
  | K_wai_sem int
  | K_twai_sem int
  | K_wai_flg int
  | K_rcv_mbx int u32
  | K_trcv_mbx int u32 u32
  | K_get_mpf int u32

datatype kpoint = Calling kcont | Resuming kcont

text \<open>How the part of a system call up to its call of \<open>scheduler()\<close> ends: it has returned, it
  goes on to call \<open>scheduler()\<close>, it has no result (\<open>Fault\<close>: it follows a null pointer, or a
  list traversal does not end), it polls in a loop, or it runs off the end of a function that should
  return a value.\<close>

datatype outcome = Ret int | Sched kcont | Fault | Spin | NoValue

section \<open>The kernel state\<close>

record kernel =
  nodes :: nodes_t
  task_pool :: "nat \<Rightarrow> task_t"
  taskbmap :: bitmap_t
  prioqueue :: "nat \<Rightarrow> node queue_t"
  priobmap :: bitmap_t
  timeout_queue :: "node option"
  current_task :: nat
  idle_task :: nat
  dispatching :: bool
  start_idle :: u64
  end_idle :: u64
  tot_idle :: u64
  cycles :: u64
  int_nest_count :: u32
  need_resched :: u32
  system_time :: u64
  system_log :: "nat \<Rightarrow> log_entry_t"
  log_index :: nat
  sem_pool :: "nat \<Rightarrow> semaphore_t"
  sembmap :: bitmap_t
  active_sem :: "node option"
  flg_pool :: "nat \<Rightarrow> eventflag_t"
  flgbmap :: bitmap_t
  active_flg :: "node option"
  mbx_pool :: "nat \<Rightarrow> mailbox_t"
  mbxbmap :: bitmap_t
  msg_pool :: u32
  mpf_pool :: "nat \<Rightarrow> mpfpool_t"
  mpfbmap :: bitmap_t
  kmem :: "u32 \<Rightarrow> u32"
  kctx :: "nat \<Rightarrow> kpoint option"

definition upd_task :: "nat \<Rightarrow> (task_t \<Rightarrow> task_t) \<Rightarrow> kernel \<Rightarrow> kernel" where
  "upd_task t f s = s\<lparr>task_pool := (task_pool s)(t := f (task_pool s t))\<rparr>"

definition set_stat :: "nat \<Rightarrow> u32 \<Rightarrow> kernel \<Rightarrow> kernel" where
  "set_stat t v = upd_task t (tskstat_update (\<lambda>_. v))"

definition set_wobjid :: "nat \<Rightarrow> int \<Rightarrow> kernel \<Rightarrow> kernel" where
  "set_wobjid t v = upd_task t (wobjid_update (\<lambda>_. v))"

text \<open>A \<open>void *\<close> of a list node read as a task pointer; \<open>NULL\<close> is \<open>None\<close>.\<close>

definition as_task :: "obj option \<Rightarrow> nat option" where
  "as_task v = (case v of Some (Tsk t) \<Rightarrow> Some t | _ \<Rightarrow> None)"

definition as_msg :: "obj option \<Rightarrow> u32 option" where
  "as_msg v = (case v of Some (Msg m) \<Rightarrow> Some m | _ \<Rightarrow> None)"

section \<open>The system log\<close>

definition init_syslog :: "kernel \<Rightarrow> kernel" where
  "init_syslog s = s\<lparr>system_log := (\<lambda>_. log_zero), log_index := 0\<rparr>"

definition write_log :: "int \<Rightarrow> int \<Rightarrow> int \<Rightarrow> kernel \<Rightarrow> kernel" where
  "write_log event arg1 arg2 s =
     (let e = system_log s (log_index s);
          e = e\<lparr>le_time := ucast (system_time s), le_event := word_of_int event,
                le_arg1 := word_of_int arg1, le_arg2 := word_of_int arg2\<rparr>
      in s\<lparr>system_log := (system_log s)(log_index s := e),
           log_index := (log_index s + 1) mod CONFIG_SYSLOG_SIZE\<rparr>)"

section \<open>Frames\<close>

lemma write_log_frame [simp, kernel_frame]:
  "nodes (write_log e a b s) = nodes s"
  "task_pool (write_log e a b s) = task_pool s"
  "taskbmap (write_log e a b s) = taskbmap s"
  "prioqueue (write_log e a b s) = prioqueue s"
  "priobmap (write_log e a b s) = priobmap s"
  "timeout_queue (write_log e a b s) = timeout_queue s"
  "current_task (write_log e a b s) = current_task s"
  "idle_task (write_log e a b s) = idle_task s"
  "dispatching (write_log e a b s) = dispatching s"
  "start_idle (write_log e a b s) = start_idle s"
  "end_idle (write_log e a b s) = end_idle s"
  "tot_idle (write_log e a b s) = tot_idle s"
  "cycles (write_log e a b s) = cycles s"
  "int_nest_count (write_log e a b s) = int_nest_count s"
  "need_resched (write_log e a b s) = need_resched s"
  "system_time (write_log e a b s) = system_time s"
  "sem_pool (write_log e a b s) = sem_pool s"
  "sembmap (write_log e a b s) = sembmap s"
  "active_sem (write_log e a b s) = active_sem s"
  "flg_pool (write_log e a b s) = flg_pool s"
  "flgbmap (write_log e a b s) = flgbmap s"
  "active_flg (write_log e a b s) = active_flg s"
  "mbx_pool (write_log e a b s) = mbx_pool s"
  "mbxbmap (write_log e a b s) = mbxbmap s"
  "msg_pool (write_log e a b s) = msg_pool s"
  "mpf_pool (write_log e a b s) = mpf_pool s"
  "mpfbmap (write_log e a b s) = mpfbmap s"
  "kmem (write_log e a b s) = kmem s"
  "kctx (write_log e a b s) = kctx s"
  by (simp_all add: write_log_def Let_def)

lemma upd_task_frame [simp, kernel_frame]:
  "nodes (upd_task t f s) = nodes s"
  "taskbmap (upd_task t f s) = taskbmap s"
  "prioqueue (upd_task t f s) = prioqueue s"
  "priobmap (upd_task t f s) = priobmap s"
  "timeout_queue (upd_task t f s) = timeout_queue s"
  "current_task (upd_task t f s) = current_task s"
  "idle_task (upd_task t f s) = idle_task s"
  "dispatching (upd_task t f s) = dispatching s"
  "start_idle (upd_task t f s) = start_idle s"
  "end_idle (upd_task t f s) = end_idle s"
  "tot_idle (upd_task t f s) = tot_idle s"
  "cycles (upd_task t f s) = cycles s"
  "int_nest_count (upd_task t f s) = int_nest_count s"
  "need_resched (upd_task t f s) = need_resched s"
  "system_time (upd_task t f s) = system_time s"
  "system_log (upd_task t f s) = system_log s"
  "log_index (upd_task t f s) = log_index s"
  "sem_pool (upd_task t f s) = sem_pool s"
  "sembmap (upd_task t f s) = sembmap s"
  "active_sem (upd_task t f s) = active_sem s"
  "flg_pool (upd_task t f s) = flg_pool s"
  "flgbmap (upd_task t f s) = flgbmap s"
  "active_flg (upd_task t f s) = active_flg s"
  "mbx_pool (upd_task t f s) = mbx_pool s"
  "mbxbmap (upd_task t f s) = mbxbmap s"
  "msg_pool (upd_task t f s) = msg_pool s"
  "mpf_pool (upd_task t f s) = mpf_pool s"
  "mpfbmap (upd_task t f s) = mpfbmap s"
  "kmem (upd_task t f s) = kmem s"
  "kctx (upd_task t f s) = kctx s"
  by (simp_all add: upd_task_def)

lemma task_pool_upd_task [simp]:
  "task_pool (upd_task t f s) u = (if u = t then f (task_pool s t) else task_pool s u)"
  by (simp add: upd_task_def)

declare set_stat_def [simp] set_wobjid_def [simp]

lemma as_task_simps [simp]: "as_task None = None" "as_task (Some (Tsk t)) = Some t"
  by (simp_all add: as_task_def)

lemma as_msg_simps [simp]: "as_msg None = None" "as_msg (Some (Msg m)) = Some m"
  by (simp_all add: as_msg_def)

section \<open>The queues as families of lists\<close>

interpretation rdyq: embedded_node Rdy
  by unfold_locales (simp add: inj_def)

interpretation synq: embedded_node Syn
  by unfold_locales (simp add: inj_def)

interpretation slpq: embedded_node Slp
  by unfold_locales (simp add: inj_def)

interpretation msgq: embedded_node MsgQ
  by unfold_locales (simp add: inj_def)

lemma node_classes [simp]:
  "Syn x \<notin> range Rdy" "Slp x \<notin> range Rdy" "MsgQ m \<notin> range Rdy" "ActSem x \<notin> range Rdy" "ActFlg x \<notin> range Rdy"
  "Rdy x \<notin> range Syn" "Slp x \<notin> range Syn" "MsgQ m \<notin> range Syn" "ActSem x \<notin> range Syn" "ActFlg x \<notin> range Syn"
  "Rdy x \<notin> range Slp" "Syn x \<notin> range Slp" "MsgQ m \<notin> range Slp" "ActSem x \<notin> range Slp" "ActFlg x \<notin> range Slp"
  "Rdy x \<notin> range MsgQ" "Syn x \<notin> range MsgQ" "Slp x \<notin> range MsgQ" "ActSem x \<notin> range MsgQ" "ActFlg x \<notin> range MsgQ"
  by auto

text \<open>The wait queue of a synchronisation object, by its index in its pool.\<close>

datatype wq = WSem nat | WFlg nat | WMbx nat | WMpf nat

definition wqueue :: "kernel \<Rightarrow> wq \<Rightarrow> node queue_t" where
  "wqueue s w = (case w of
     WSem i \<Rightarrow> semque (sem_pool s i) | WFlg i \<Rightarrow> flgque (flg_pool s i)
   | WMbx i \<Rightarrow> mbxque (mbx_pool s i) | WMpf i \<Rightarrow> mpfque (mpf_pool s i))"

lemma wqueue_simps [simp]:
  "wqueue s (WSem i) = semque (sem_pool s i)" "wqueue s (WFlg i) = flgque (flg_pool s i)"
  "wqueue s (WMbx i) = mbxque (mbx_pool s i)" "wqueue s (WMpf i) = mpfque (mpf_pool s i)"
  by (simp_all add: wqueue_def)

text \<open>Two stores that link a node the same way.\<close>

definition same_links :: "nodes_t \<Rightarrow> nodes_t \<Rightarrow> node \<Rightarrow> bool" where
  "same_links st' st n \<longleftrightarrow> ll_prev (st' n) = ll_prev (st n) \<and> ll_next (st' n) = ll_next (st n)"

lemma same_links_eq [simp]: "st' n = st n \<Longrightarrow> same_links st' st n"
  by (simp add: same_links_def)

text \<open>\<open>rq_rep s Q\<close>: the ready queue holds, at priority \<open>i\<close>, the tasks \<open>Q i\<close> in order,
  and the bitmap marks the priorities in use. \<open>wq_rep s W\<close>: the wait queue \<open>w\<close> holds the
  tasks \<open>W w\<close>. \<open>tq_rep s T\<close>: the timeout queue holds the tasks \<open>T\<close>, sorted by
  wake-up time.\<close>

definition rq_rep :: "kernel \<Rightarrow> (nat \<Rightarrow> nat list) \<Rightarrow> bool" where
  "rq_rep s Q \<longleftrightarrow>
     family_rep Rdy (nodes s) (prioqueue s) Q \<and>
     (\<forall>i < PRIORITY_LEVELS. bit (priobmap s) i \<longleftrightarrow> Q i \<noteq> [])"

definition wq_rep :: "kernel \<Rightarrow> (wq \<Rightarrow> nat list) \<Rightarrow> bool" where
  "wq_rep s W \<longleftrightarrow> family_rep Syn (nodes s) (wqueue s) W"

definition tq_rep :: "kernel \<Rightarrow> nat list \<Rightarrow> bool" where
  "tq_rep s T \<longleftrightarrow>
     list_rep (nodes s) (timeout_queue s) (map Slp T) \<and>
     (\<forall>t. t \<notin> set T \<longrightarrow> isolated (nodes s) (Slp t)) \<and>
     sorted (map (\<lambda>t. wuptim (task_pool s t)) T)"

lemma rq_rep_cong:
  assumes "\<And>t. same_links (nodes s') (nodes s) (Rdy t)" "prioqueue s' = prioqueue s" "priobmap s' = priobmap s"
  shows "rq_rep s' Q = rq_rep s Q"
  using assms(2,3) family_rep_cong [of "nodes s'" Rdy "nodes s" "prioqueue s" Q] assms(1)
  by (simp add: rq_rep_def same_links_def)

lemma wq_rep_cong:
  assumes "\<And>t. same_links (nodes s') (nodes s) (Syn t)" "wqueue s' = wqueue s"
  shows "wq_rep s' W = wq_rep s W"
  using assms(2) family_rep_cong [of "nodes s'" Syn "nodes s" "wqueue s" W] assms(1)
  by (simp add: wq_rep_def same_links_def)

lemma tq_rep_cong:
  assumes "\<And>t. same_links (nodes s') (nodes s) (Slp t)" "timeout_queue s' = timeout_queue s"
    and "\<And>t. t \<in> set T \<Longrightarrow> wuptim (task_pool s' t) = wuptim (task_pool s t)"
  shows "tq_rep s' T = tq_rep s T"
proof -
  have "list_rep (nodes s') (timeout_queue s') (map Slp T) = list_rep (nodes s) (timeout_queue s) (map Slp T)"
    unfolding assms(2) by (rule list_rep_cong) (use assms(1) in \<open>auto simp: same_links_def\<close>)
  moreover have "isolated (nodes s') (Slp t) = isolated (nodes s) (Slp t)" for t
    using assms(1) by (simp add: isolated_def same_links_def)
  moreover have "map (\<lambda>t. wuptim (task_pool s' t)) T = map (\<lambda>t. wuptim (task_pool s t)) T"
    using assms(3) by simp
  ultimately show ?thesis
    by (simp add: tq_rep_def cong: map_cong)
qed

end
