(* ===== verification/Sched.thy ===== *)
theory Sched
  imports Kernel_State
begin

text \<open>
  The scheduler (\<open>core/kernel/port/sched.c\<close>) and the kernel clock
  (\<open>core/kernel/port/time.c\<close>): the ready queue with one FIFO queue per priority and its
  bitmap, the timeout queue sorted by wake-up time, \<open>scheduler()\<close> itself, and the timer
  interrupt. A loop of the code is \<open>while_option\<close>; a function with such a loop returns
  \<open>None\<close> when it does not terminate or follows a null pointer.
\<close>

definition TFN_SCHEDULER :: int where "TFN_SCHEDULER = -0x01"
definition TFN_RQ_INSERT :: int where "TFN_RQ_INSERT = -0x02"
definition TFN_RQ_REMOVE :: int where "TFN_RQ_REMOVE = -0x03"
definition TFN_RQ_RELOCATE :: int where "TFN_RQ_RELOCATE = -0x04"

section \<open>The ready queue\<close>

definition rq_init :: "kernel \<Rightarrow> kernel" where
  "rq_init s =
     s\<lparr>prioqueue := (\<lambda>_. queue_init),
       priobmap := clearbitmap\<rparr>"

text \<open>The two steps the ready queue operations are made of: linking a task at the tail of priority
  \<open>i\<close> and unlinking it from there, each with the bitmap kept in step.\<close>

definition rq_link :: "nat \<Rightarrow> nat \<Rightarrow> kernel \<Rightarrow> kernel" where
  "rq_link tsk i s =
     (let r = queue_insert (prioqueue s i) (Rdy tsk) (nodes s)
      in s\<lparr>prioqueue := (prioqueue s)(i := fst r), nodes := snd r, priobmap := setbit (priobmap s) i\<rparr>)"

definition rq_unlink :: "nat \<Rightarrow> nat \<Rightarrow> kernel \<Rightarrow> kernel" where
  "rq_unlink tsk i s =
     (let r = queue_remove (prioqueue s i) (Rdy tsk) (nodes s)
      in s\<lparr>prioqueue := (prioqueue s)(i := fst r), nodes := snd r,
           priobmap := (if head (fst r) = None then clearbit (priobmap s) i else priobmap s)\<rparr>)"

definition rq_insert :: "nat \<Rightarrow> kernel \<Rightarrow> kernel" where
  "rq_insert tsk s =
     write_log TFN_RQ_INSERT (tskid (task_pool s tsk)) (uint (tskstat (task_pool s tsk)))
       (rq_link tsk (tskpri (task_pool s tsk)) s)"

definition rq_get_head :: "kernel \<Rightarrow> nat option" where
  "rq_get_head s =
     (if priobmap s = 0 then None
      else as_task (queue_get_head (prioqueue s (nat (ffs (priobmap s)))) (nodes s)))"

definition rq_remove :: "nat \<Rightarrow> kernel \<Rightarrow> kernel" where
  "rq_remove tsk s =
     write_log TFN_RQ_REMOVE (tskid (task_pool s tsk)) (uint (tskstat (task_pool s tsk)))
       (rq_unlink tsk (tskpri (task_pool s tsk)) s)"

definition rq_relocate :: "nat \<Rightarrow> nat \<Rightarrow> kernel \<Rightarrow> kernel" where
  "rq_relocate tsk newpri s =
     (let s = rq_unlink tsk (tskpri (task_pool s tsk)) s;
          s = upd_task tsk (tskpri_update (\<lambda>_. newpri)) s;
          s = rq_link tsk newpri s
      in write_log TFN_RQ_RELOCATE (tskid (task_pool s tsk)) (int newpri) s)"

section \<open>The timeout queue\<close>

text \<open>The search loop of \<open>tq_insert\<close> over \<open>l\<close> and \<open>t\<close>: it goes on while \<open>l\<close> is a
  task due before \<open>w\<close>.\<close>

definition tq_ahead :: "u64 \<Rightarrow> kernel \<Rightarrow> node option \<times> nat \<Rightarrow> bool" where
  "tq_ahead w s = (\<lambda>(l, t). case l of
     None \<Rightarrow> False
   | Some n \<Rightarrow> (case as_task (ll_this (nodes s n)) of
       None \<Rightarrow> False | Some t' \<Rightarrow> \<not> w \<le> wuptim (task_pool s t')))"

definition tq_advance :: "kernel \<Rightarrow> node option \<times> nat \<Rightarrow> node option \<times> nat" where
  "tq_advance s = (\<lambda>(l, t). case l of
     None \<Rightarrow> (l, t)
   | Some n \<Rightarrow> (case as_task (ll_this (nodes s n)) of
       None \<Rightarrow> (l, t) | Some t' \<Rightarrow> (ll_next (nodes s n), t')))"

definition tq_insert :: "nat \<Rightarrow> u32 \<Rightarrow> kernel \<Rightarrow> kernel option" where
  "tq_insert tsk tmout s =
     (let s = upd_task tsk (wuptim_update (\<lambda>_. ucast tmout + system_time s)) s;
          w = wuptim (task_pool s tsk);
          n = Slp tsk
      in case timeout_queue s of
           None \<Rightarrow>
             Some (s\<lparr>nodes := set_prev n None (set_next n None (nodes s)), timeout_queue := Some n\<rparr>)
         | Some h \<Rightarrow>
             (case as_task (ll_this (nodes s h)) of
                None \<Rightarrow> None
              | Some t \<Rightarrow>
                  if w \<le> wuptim (task_pool s t) then
                    Some (s\<lparr>nodes := set_prev h (Some n) (set_prev n None (set_next n (Some h) (nodes s))),
                            timeout_queue := Some n\<rparr>)
                  else
                    (case while_option (tq_ahead w s) (tq_advance s) (ll_next (nodes s h), t) of
                       None \<Rightarrow> None
                     | Some (Some l, _) \<Rightarrow>
                         (case (as_task (ll_this (nodes s l)), ll_prev (nodes s l)) of
                            (Some _, Some p) \<Rightarrow>
                              Some (s\<lparr>nodes := set_prev l (Some n) (set_next p (Some n)
                                       (set_prev n (Some p) (set_next n (Some l) (nodes s))))\<rparr>)
                          | _ \<Rightarrow> None)
                     | Some (None, t) \<Rightarrow>
                         Some (s\<lparr>nodes := set_next (Slp t) (Some n)
                                   (set_prev n (Some (Slp t)) (set_next n None (nodes s)))\<rparr>))))"

text \<open>One round of the loop of \<open>tq_wakeup\<close>: the task at the head, when it is due.\<close>

definition tq_due :: "kernel \<Rightarrow> nat option" where
  "tq_due s =
     (case timeout_queue s of
        None \<Rightarrow> None
      | Some h \<Rightarrow> (case as_task (ll_this (nodes s h)) of
          None \<Rightarrow> None
        | Some t \<Rightarrow> if wuptim (task_pool s t) \<le> system_time s then Some t else None))"

text \<open>The head of the queue has no task: the code follows the null pointer. The loop then has no
  result.\<close>

definition tq_null :: "kernel \<Rightarrow> bool" where
  "tq_null s =
     (case timeout_queue s of None \<Rightarrow> False | Some h \<Rightarrow> as_task (ll_this (nodes s h)) = None)"

definition tq_remove :: "nat \<Rightarrow> kernel \<Rightarrow> kernel" where
  "tq_remove tsk s =
     (let r = remove_linked_list (timeout_queue s) (Slp tsk) (nodes s)
      in s\<lparr>timeout_queue := fst r, nodes := snd r\<rparr>)"

definition tq_wake_one :: "nat \<Rightarrow> kernel \<Rightarrow> kernel" where
  "tq_wake_one tsk s =
     (let s = tq_remove tsk s;
          s = rq_insert tsk s
      in set_wobjid tsk E_TMOUT s)"

definition tq_wakeup :: "kernel \<Rightarrow> kernel option" where
  "tq_wakeup s =
     while_option (\<lambda>s. tq_null s \<or> tq_due s \<noteq> None)
       (\<lambda>s. case tq_due s of None \<Rightarrow> s | Some t \<Rightarrow> tq_wake_one t s) s"

section \<open>scheduler()\<close>

text \<open>\<open>context_switch\<close> of \<open>entry.S\<close> saves the caller on its kernel stack, which
  \<open>kctx\<close> already records, and makes the new task current.\<close>

definition context_switch :: "nat \<Rightarrow> kernel \<Rightarrow> kernel" where
  "context_switch new_tsk s = s\<lparr>current_task := new_tsk\<rparr>"

text \<open>The body of \<open>if (new_tsk != current_task)\<close>.\<close>

definition switch_task :: "nat \<Rightarrow> kernel \<Rightarrow> kernel" where
  "switch_task new_tsk s =
     (let cur = current_task s;
          s = s\<lparr>end_idle := (if cur = idle_task s then cycles s else end_idle s),
                tot_idle := (if cur = idle_task s then tot_idle s + (cycles s - start_idle s)
                             else tot_idle s)\<rparr>;
          s = (if tskstat (task_pool s cur) = TTS_RUN then set_stat cur TTS_RDY s else s);
          s = set_stat new_tsk TTS_RUN s;
          s = write_log TFN_SCHEDULER (tskid (task_pool s cur)) (tskid (task_pool s new_tsk)) s;
          s = s\<lparr>need_resched := 0\<rparr>
      in context_switch new_tsk s)"

definition scheduler :: "kernel \<Rightarrow> kernel" where
  "scheduler s =
     (if 0 < int_nest_count s then s\<lparr>need_resched := 1\<rparr>
      else if \<not> dispatching s then s
      else
        let new_tsk = (case rq_get_head s of None \<Rightarrow> idle_task s | Some t \<Rightarrow> t);
            s = s\<lparr>start_idle := (if rq_get_head s = None then cycles s else start_idle s)\<rparr>
        in if new_tsk \<noteq> current_task s then switch_task new_tsk s else s)"

definition dis_dsp_sys :: "kernel \<Rightarrow> outcome \<times> kernel" where
  "dis_dsp_sys s = (Ret E_OK, s\<lparr>dispatching := False\<rparr>)"

definition ena_dsp_sys :: "kernel \<Rightarrow> outcome \<times> kernel" where
  "ena_dsp_sys s = (Ret E_OK, s\<lparr>dispatching := True\<rparr>)"

definition sns_dsp_sys :: "kernel \<Rightarrow> outcome \<times> kernel" where
  "sns_dsp_sys s = (Ret (if dispatching s then 0 else 1), s)"

definition init_sched :: "kernel \<Rightarrow> kernel" where
  "init_sched s =
     s\<lparr>prioqueue := (\<lambda>_. queue_init), priobmap := 0,
       timeout_queue := None, dispatching := False\<rparr>"

section \<open>time.c\<close>

definition get_system_time :: "kernel \<Rightarrow> u64" where
  "get_system_time s = system_time s"

definition evt_tmr_isr :: "kernel \<Rightarrow> kernel option" where
  "evt_tmr_isr s =
     (let s = s\<lparr>system_time := system_time s + 1\<rparr>;
          s = (if system_time s = 500 then s\<lparr>tot_idle := 0\<rparr> else s)
      in tq_wakeup s)"

definition get_tim_sys :: "u32 \<Rightarrow> kernel \<Rightarrow> outcome \<times> kernel" where
  "get_tim_sys pk_tim s =
     (if pk_tim = 0 then (Ret E_PAR, s)
      else if pk_tim AND 0x3 \<noteq> 0 then (Ret E_PAR, s)
      else (Ret E_OK, s\<lparr>kmem := (kmem s)(pk_tim := ucast (system_time s),
                                       pk_tim + 4 := ucast (drop_bit 32 (system_time s)))\<rparr>))"

definition init_time :: "kernel \<Rightarrow> kernel" where
  "init_time s = s\<lparr>system_time := 0\<rparr>"

section \<open>Ready queue: frames\<close>

text \<open>The ready queue operations leave everything but the ready queue and the log alone. The
  \<open>this\<close> pointers never change, and neither do the nodes outside \<open>rdyque\<close>.\<close>

lemma rq_link_frame [simp, kernel_frame]:
  "task_pool (rq_link t i s) = task_pool s"
  "taskbmap (rq_link t i s) = taskbmap s"
  "timeout_queue (rq_link t i s) = timeout_queue s"
  "current_task (rq_link t i s) = current_task s"
  "idle_task (rq_link t i s) = idle_task s"
  "dispatching (rq_link t i s) = dispatching s"
  "start_idle (rq_link t i s) = start_idle s"
  "end_idle (rq_link t i s) = end_idle s"
  "tot_idle (rq_link t i s) = tot_idle s"
  "cycles (rq_link t i s) = cycles s"
  "int_nest_count (rq_link t i s) = int_nest_count s"
  "need_resched (rq_link t i s) = need_resched s"
  "system_time (rq_link t i s) = system_time s"
  "system_log (rq_link t i s) = system_log s"
  "log_index (rq_link t i s) = log_index s"
  "sem_pool (rq_link t i s) = sem_pool s"
  "sembmap (rq_link t i s) = sembmap s"
  "active_sem (rq_link t i s) = active_sem s"
  "flg_pool (rq_link t i s) = flg_pool s"
  "flgbmap (rq_link t i s) = flgbmap s"
  "active_flg (rq_link t i s) = active_flg s"
  "mbx_pool (rq_link t i s) = mbx_pool s"
  "mbxbmap (rq_link t i s) = mbxbmap s"
  "msg_pool (rq_link t i s) = msg_pool s"
  "mpf_pool (rq_link t i s) = mpf_pool s"
  "mpfbmap (rq_link t i s) = mpfbmap s"
  "kmem (rq_link t i s) = kmem s"
  "kctx (rq_link t i s) = kctx s"
  by (simp_all add: rq_link_def Let_def)

lemma rq_unlink_frame [simp, kernel_frame]:
  "task_pool (rq_unlink t i s) = task_pool s"
  "taskbmap (rq_unlink t i s) = taskbmap s"
  "timeout_queue (rq_unlink t i s) = timeout_queue s"
  "current_task (rq_unlink t i s) = current_task s"
  "idle_task (rq_unlink t i s) = idle_task s"
  "dispatching (rq_unlink t i s) = dispatching s"
  "start_idle (rq_unlink t i s) = start_idle s"
  "end_idle (rq_unlink t i s) = end_idle s"
  "tot_idle (rq_unlink t i s) = tot_idle s"
  "cycles (rq_unlink t i s) = cycles s"
  "int_nest_count (rq_unlink t i s) = int_nest_count s"
  "need_resched (rq_unlink t i s) = need_resched s"
  "system_time (rq_unlink t i s) = system_time s"
  "system_log (rq_unlink t i s) = system_log s"
  "log_index (rq_unlink t i s) = log_index s"
  "sem_pool (rq_unlink t i s) = sem_pool s"
  "sembmap (rq_unlink t i s) = sembmap s"
  "active_sem (rq_unlink t i s) = active_sem s"
  "flg_pool (rq_unlink t i s) = flg_pool s"
  "flgbmap (rq_unlink t i s) = flgbmap s"
  "active_flg (rq_unlink t i s) = active_flg s"
  "mbx_pool (rq_unlink t i s) = mbx_pool s"
  "mbxbmap (rq_unlink t i s) = mbxbmap s"
  "msg_pool (rq_unlink t i s) = msg_pool s"
  "mpf_pool (rq_unlink t i s) = mpf_pool s"
  "mpfbmap (rq_unlink t i s) = mpfbmap s"
  "kmem (rq_unlink t i s) = kmem s"
  "kctx (rq_unlink t i s) = kctx s"
  by (simp_all add: rq_unlink_def Let_def)

lemma rq_insert_frame [simp, kernel_frame]:
  "task_pool (rq_insert t s) = task_pool s"
  "taskbmap (rq_insert t s) = taskbmap s"
  "timeout_queue (rq_insert t s) = timeout_queue s"
  "current_task (rq_insert t s) = current_task s"
  "idle_task (rq_insert t s) = idle_task s"
  "dispatching (rq_insert t s) = dispatching s"
  "start_idle (rq_insert t s) = start_idle s"
  "end_idle (rq_insert t s) = end_idle s"
  "tot_idle (rq_insert t s) = tot_idle s"
  "cycles (rq_insert t s) = cycles s"
  "int_nest_count (rq_insert t s) = int_nest_count s"
  "need_resched (rq_insert t s) = need_resched s"
  "system_time (rq_insert t s) = system_time s"
  "sem_pool (rq_insert t s) = sem_pool s"
  "sembmap (rq_insert t s) = sembmap s"
  "active_sem (rq_insert t s) = active_sem s"
  "flg_pool (rq_insert t s) = flg_pool s"
  "flgbmap (rq_insert t s) = flgbmap s"
  "active_flg (rq_insert t s) = active_flg s"
  "mbx_pool (rq_insert t s) = mbx_pool s"
  "mbxbmap (rq_insert t s) = mbxbmap s"
  "msg_pool (rq_insert t s) = msg_pool s"
  "mpf_pool (rq_insert t s) = mpf_pool s"
  "mpfbmap (rq_insert t s) = mpfbmap s"
  "kmem (rq_insert t s) = kmem s"
  "kctx (rq_insert t s) = kctx s"
  by (simp_all add: rq_insert_def)

lemma rq_remove_frame [simp, kernel_frame]:
  "task_pool (rq_remove t s) = task_pool s"
  "taskbmap (rq_remove t s) = taskbmap s"
  "timeout_queue (rq_remove t s) = timeout_queue s"
  "current_task (rq_remove t s) = current_task s"
  "idle_task (rq_remove t s) = idle_task s"
  "dispatching (rq_remove t s) = dispatching s"
  "start_idle (rq_remove t s) = start_idle s"
  "end_idle (rq_remove t s) = end_idle s"
  "tot_idle (rq_remove t s) = tot_idle s"
  "cycles (rq_remove t s) = cycles s"
  "int_nest_count (rq_remove t s) = int_nest_count s"
  "need_resched (rq_remove t s) = need_resched s"
  "system_time (rq_remove t s) = system_time s"
  "sem_pool (rq_remove t s) = sem_pool s"
  "sembmap (rq_remove t s) = sembmap s"
  "active_sem (rq_remove t s) = active_sem s"
  "flg_pool (rq_remove t s) = flg_pool s"
  "flgbmap (rq_remove t s) = flgbmap s"
  "active_flg (rq_remove t s) = active_flg s"
  "mbx_pool (rq_remove t s) = mbx_pool s"
  "mbxbmap (rq_remove t s) = mbxbmap s"
  "msg_pool (rq_remove t s) = msg_pool s"
  "mpf_pool (rq_remove t s) = mpf_pool s"
  "mpfbmap (rq_remove t s) = mpfbmap s"
  "kmem (rq_remove t s) = kmem s"
  "kctx (rq_remove t s) = kctx s"
  by (simp_all add: rq_remove_def)

lemma rq_relocate_frame [simp, kernel_frame]:
  "taskbmap (rq_relocate t p s) = taskbmap s"
  "timeout_queue (rq_relocate t p s) = timeout_queue s"
  "current_task (rq_relocate t p s) = current_task s"
  "idle_task (rq_relocate t p s) = idle_task s"
  "dispatching (rq_relocate t p s) = dispatching s"
  "start_idle (rq_relocate t p s) = start_idle s"
  "end_idle (rq_relocate t p s) = end_idle s"
  "tot_idle (rq_relocate t p s) = tot_idle s"
  "cycles (rq_relocate t p s) = cycles s"
  "int_nest_count (rq_relocate t p s) = int_nest_count s"
  "need_resched (rq_relocate t p s) = need_resched s"
  "system_time (rq_relocate t p s) = system_time s"
  "sem_pool (rq_relocate t p s) = sem_pool s"
  "sembmap (rq_relocate t p s) = sembmap s"
  "active_sem (rq_relocate t p s) = active_sem s"
  "flg_pool (rq_relocate t p s) = flg_pool s"
  "flgbmap (rq_relocate t p s) = flgbmap s"
  "active_flg (rq_relocate t p s) = active_flg s"
  "mbx_pool (rq_relocate t p s) = mbx_pool s"
  "mbxbmap (rq_relocate t p s) = mbxbmap s"
  "msg_pool (rq_relocate t p s) = msg_pool s"
  "mpf_pool (rq_relocate t p s) = mpf_pool s"
  "mpfbmap (rq_relocate t p s) = mpfbmap s"
  "kmem (rq_relocate t p s) = kmem s"
  "kctx (rq_relocate t p s) = kctx s"
  by (simp_all add: rq_relocate_def Let_def)

lemma tq_remove_frame [simp, kernel_frame]:
  "task_pool (tq_remove t s) = task_pool s"
  "taskbmap (tq_remove t s) = taskbmap s"
  "prioqueue (tq_remove t s) = prioqueue s"
  "priobmap (tq_remove t s) = priobmap s"
  "current_task (tq_remove t s) = current_task s"
  "idle_task (tq_remove t s) = idle_task s"
  "dispatching (tq_remove t s) = dispatching s"
  "start_idle (tq_remove t s) = start_idle s"
  "end_idle (tq_remove t s) = end_idle s"
  "tot_idle (tq_remove t s) = tot_idle s"
  "cycles (tq_remove t s) = cycles s"
  "int_nest_count (tq_remove t s) = int_nest_count s"
  "need_resched (tq_remove t s) = need_resched s"
  "system_time (tq_remove t s) = system_time s"
  "system_log (tq_remove t s) = system_log s"
  "log_index (tq_remove t s) = log_index s"
  "sem_pool (tq_remove t s) = sem_pool s"
  "sembmap (tq_remove t s) = sembmap s"
  "active_sem (tq_remove t s) = active_sem s"
  "flg_pool (tq_remove t s) = flg_pool s"
  "flgbmap (tq_remove t s) = flgbmap s"
  "active_flg (tq_remove t s) = active_flg s"
  "mbx_pool (tq_remove t s) = mbx_pool s"
  "mbxbmap (tq_remove t s) = mbxbmap s"
  "msg_pool (tq_remove t s) = msg_pool s"
  "mpf_pool (tq_remove t s) = mpf_pool s"
  "mpfbmap (tq_remove t s) = mpfbmap s"
  "kmem (tq_remove t s) = kmem s"
  "kctx (tq_remove t s) = kctx s"
  by (simp_all add: tq_remove_def Let_def)

lemma task_pool_rq_relocate [simp]:
  "task_pool (rq_relocate t p s) u =
     (if u = t then (task_pool s t)\<lparr>tskpri := p\<rparr> else task_pool s u)"
  by (simp add: rq_relocate_def Let_def)

lemma rq_link_this [simp]: "ll_this (nodes (rq_link t i s) n) = ll_this (nodes s n)"
  by (simp add: rq_link_def Let_def queue_insert_this [OF prod.collapse [symmetric]])

lemma rq_unlink_this [simp]: "ll_this (nodes (rq_unlink t i s) n) = ll_this (nodes s n)"
  by (simp add: rq_unlink_def Let_def queue_remove_this [OF prod.collapse [symmetric]])

lemma rq_ops_this [simp]:
  "ll_this (nodes (rq_insert t s) n) = ll_this (nodes s n)"
  "ll_this (nodes (rq_remove t s) n) = ll_this (nodes s n)"
  "ll_this (nodes (rq_relocate t p s) n) = ll_this (nodes s n)"
  by (simp_all add: rq_insert_def rq_remove_def rq_relocate_def Let_def)

lemma tq_remove_this [simp]: "ll_this (nodes (tq_remove t s) n) = ll_this (nodes s n)"
  by (simp add: tq_remove_def Let_def remove_linked_list_this [OF prod.collapse [symmetric]])

section \<open>Ready queue: refinement\<close>

lemma rq_rep_family: "rq_rep s Q \<Longrightarrow> family_rep Rdy (nodes s) (prioqueue s) Q"
  by (simp add: rq_rep_def)

lemma rq_rep_bit: "rq_rep s Q \<Longrightarrow> i < PRIORITY_LEVELS \<Longrightarrow> bit (priobmap s) i \<longleftrightarrow> Q i \<noteq> []"
  by (simp add: rq_rep_def)

lemma rq_rep_frame [simp]:
  "rq_rep (write_log e a b s) Q = rq_rep s Q"
  "rq_rep (upd_task t f s) Q = rq_rep s Q"
  by (rule rq_rep_cong; simp)+

lemma rq_link_nodes:
  assumes "rq_rep s Q" "n \<notin> range Rdy"
  shows "nodes (rq_link t i s) n = nodes s n"
  using rdyq.family_insert_frame [OF rq_rep_family [OF assms(1)] assms(2)]
  by (simp add: rq_link_def Let_def)

lemma rq_unlink_nodes:
  assumes "rq_rep s Q" "t \<in> set (Q i)" "n \<notin> range Rdy"
  shows "nodes (rq_unlink t i s) n = nodes s n"
  using rdyq.family_remove_frame [OF rq_rep_family [OF assms(1)] assms(2,3)]
  by (simp add: rq_unlink_def Let_def)

lemma rq_link_rep:
  assumes "rq_rep s Q" "\<forall>j. t \<notin> set (Q j)" "i < PRIORITY_LEVELS"
  shows "rq_rep (rq_link t i s) (Q(i := Q i @ [t]))"
  using rdyq.family_insert [OF rq_rep_family [OF assms(1)] assms(2) refl, of i]
    rq_rep_bit [OF assms(1)] assms(3)
  by (auto simp: rq_rep_def rq_link_def Let_def cfg_defs)

lemma rq_unlink_rep:
  assumes "rq_rep s Q" "t \<in> set (Q i)"
  shows "rq_rep (rq_unlink t i s) (Q(i := remove1 t (Q i)))"
proof -
  define r where "r = queue_remove (prioqueue s i) (Rdy t) (nodes s)"
  have fam: "family_rep Rdy (snd r) ((prioqueue s)(i := fst r)) (Q(i := remove1 t (Q i)))"
    using rdyq.family_remove [OF rq_rep_family [OF assms(1)] assms(2) refl] by (simp add: r_def)
  then have "head (fst r) = None \<longleftrightarrow> remove1 t (Q i) = []"
    using family_rep_empty_iff [OF fam, of i] by simp
  moreover have "Q i \<noteq> []"
    using assms(2) by auto
  ultimately show ?thesis
    using fam rq_rep_bit [OF assms(1)]
    by (simp add: rq_rep_def rq_unlink_def Let_def flip: r_def)
qed

lemma rq_insert_nodes:
  "rq_rep s Q \<Longrightarrow> n \<notin> range Rdy \<Longrightarrow> nodes (rq_insert t s) n = nodes s n"
  by (simp add: rq_insert_def rq_link_nodes)

lemma rq_remove_nodes:
  "rq_rep s Q \<Longrightarrow> t \<in> set (Q (tskpri (task_pool s t))) \<Longrightarrow> n \<notin> range Rdy \<Longrightarrow>
     nodes (rq_remove t s) n = nodes s n"
  by (simp add: rq_remove_def rq_unlink_nodes)

lemma rq_insert_rep:
  assumes "rq_rep s Q" "\<forall>i. t \<notin> set (Q i)" "p = tskpri (task_pool s t)" "p < PRIORITY_LEVELS"
  shows "rq_rep (rq_insert t s) (Q(p := Q p @ [t]))"
  using rq_link_rep [OF assms(1,2,4)] assms(3) by (simp add: rq_insert_def)

lemma rq_remove_rep:
  assumes "rq_rep s Q" "p = tskpri (task_pool s t)" "t \<in> set (Q p)"
  shows "rq_rep (rq_remove t s) (Q(p := remove1 t (Q p)))"
  using rq_unlink_rep [OF assms(1,3)] assms(2) by (simp add: rq_remove_def)

lemma rq_unlinked:
  assumes "rq_rep s Q" "t \<in> set (Q i)"
  shows "t \<notin> set ((Q(i := remove1 t (Q i))) j)"
proof (cases "j = i")
  case True
  then show ?thesis
    using family_rep_distinct [OF rq_rep_family [OF assms(1)], of i] by simp
next
  case False
  then show ?thesis
    using family_rep_disjoint [OF rq_rep_family [OF assms(1)] assms(2), of j] by auto
qed

lemma rq_relocate_rep:
  assumes "rq_rep s Q" "i = tskpri (task_pool s t)" "t \<in> set (Q i)" "p < PRIORITY_LEVELS"
  shows "rq_rep (rq_relocate t p s)
           ((Q(i := remove1 t (Q i)))(p := (Q(i := remove1 t (Q i))) p @ [t]))"
  using rq_link_rep [of "upd_task t (tskpri_update (\<lambda>_. p)) (rq_unlink t i s)"
      "Q(i := remove1 t (Q i))" t p]
    rq_unlink_rep [OF assms(1,3)] rq_unlinked [OF assms(1,3)] assms(2,4)
  by (simp add: rq_relocate_def Let_def)

lemma rq_relocate_nodes:
  assumes "rq_rep s Q" "t \<in> set (Q (tskpri (task_pool s t)))" "n \<notin> range Rdy"
  shows "nodes (rq_relocate t p s) n = nodes s n"
  using rq_link_nodes [of "upd_task t (tskpri_update (\<lambda>_. p)) (rq_unlink t (tskpri (task_pool s t)) s)"
      "Q(tskpri (task_pool s t) := remove1 t (Q (tskpri (task_pool s t))))" n t p]
    rq_unlink_rep [OF assms(1,2)] rq_unlink_nodes [OF assms] assms(3)
  by (simp add: rq_relocate_def Let_def)

section \<open>The choice of the scheduler\<close>

text \<open>What the ready queue promises: the first task of the highest priority, the one with the least
  number, that has any.\<close>

definition highest_ready :: "(nat \<Rightarrow> nat list) \<Rightarrow> nat option" where
  "highest_ready Q = (case find (\<lambda>i. Q i \<noteq> []) [0..<PRIORITY_LEVELS] of
     None \<Rightarrow> None | Some i \<Rightarrow> Some (hd (Q i)))"

lemma find_upt_least:
  assumes "P n" "n < m" "\<And>k. k < n \<Longrightarrow> \<not> P k"
  shows "find P [0..<m] = Some n"
proof -
  have "[0..<m] = [0..<n] @ n # [Suc n..<m]"
    using assms(2) by (metis le_add1 le_add_same_cancel1 less_imp_le upt_add_eq_append upt_conv_Cons
        add_diff_inverse_nat not_less)
  moreover have "find P [0..<n] = None"
    using assms(3) by (simp add: find_None_iff)
  moreover have "find P (xs @ ys) = (case find P xs of None \<Rightarrow> find P ys | Some x \<Rightarrow> Some x)" for xs ys
    by (induction xs) auto
  ultimately show ?thesis
    using assms(1) by simp
qed

lemma highest_ready_Some:
  assumes "highest_ready Q = Some t"
  obtains i where "i < PRIORITY_LEVELS" "Q i \<noteq> []" "t = hd (Q i)" "\<And>j. j < i \<Longrightarrow> Q j = []"
proof -
  obtain i where i: "find (\<lambda>i. Q i \<noteq> []) [0..<PRIORITY_LEVELS] = Some i" "t = hd (Q i)"
    using assms by (auto simp: highest_ready_def split: option.splits)
  then have "i < PRIORITY_LEVELS" "Q i \<noteq> []" "\<And>j. j < i \<Longrightarrow> Q j = []"
    by (auto simp: find_Some_iff)
  then show ?thesis
    using that i(2) by blast
qed

lemma highest_ready_None: "highest_ready Q = None \<longleftrightarrow> (\<forall>i < PRIORITY_LEVELS. Q i = [])"
proof -
  have "highest_ready Q = None \<longleftrightarrow> find (\<lambda>i. Q i \<noteq> []) [0..<PRIORITY_LEVELS] = None"
    by (simp add: highest_ready_def split: option.splits)
  then show ?thesis
    by (auto simp: find_None_iff)
qed

lemma rq_get_head_rep:
  assumes "rq_rep s Q" "\<And>i t. t \<in> set (Q i) \<Longrightarrow> ll_this (nodes s (Rdy t)) = Some (Tsk t)"
  shows "rq_get_head s = highest_ready Q"
proof (cases "priobmap s = 0")
  case True
  then have "\<forall>i < PRIORITY_LEVELS. Q i = []"
    using rq_rep_bit [OF assms(1)] by simp
  then show ?thesis
    using True by (simp add: rq_get_head_def highest_ready_None [THEN iffD2])
next
  case False
  then obtain n where n: "ffs (priobmap s) = int n" "n < 32" "least_bit (priobmap s) n"
    by (rule ffs_spec)
  have ne: "Q n \<noteq> []" and low: "\<And>m. m < n \<Longrightarrow> Q m = []"
    using n rq_rep_bit [OF assms(1)] by (auto simp: least_bit_def cfg_defs)
  then have "find (\<lambda>i. Q i \<noteq> []) [0..<PRIORITY_LEVELS] = Some n"
    using n(2) by (intro find_upt_least) (auto simp: cfg_defs)
  then have "highest_ready Q = Some (hd (Q n))"
    by (simp add: highest_ready_def)
  moreover have "rq_get_head s = Some (hd (Q n))"
    using False n(1) ne family_rep_head [OF rq_rep_family [OF assms(1)], of n]
      assms(2) [of "hd (Q n)" n]
    by (auto simp: rq_get_head_def split: list.splits)
  ultimately show ?thesis
    by simp
qed

lemma switch_task_frame [simp, kernel_frame]:
  "nodes (switch_task new s) = nodes s"
  "taskbmap (switch_task new s) = taskbmap s"
  "prioqueue (switch_task new s) = prioqueue s"
  "priobmap (switch_task new s) = priobmap s"
  "timeout_queue (switch_task new s) = timeout_queue s"
  "idle_task (switch_task new s) = idle_task s"
  "dispatching (switch_task new s) = dispatching s"
  "start_idle (switch_task new s) = start_idle s"
  "cycles (switch_task new s) = cycles s"
  "int_nest_count (switch_task new s) = int_nest_count s"
  "system_time (switch_task new s) = system_time s"
  "sem_pool (switch_task new s) = sem_pool s"
  "sembmap (switch_task new s) = sembmap s"
  "active_sem (switch_task new s) = active_sem s"
  "flg_pool (switch_task new s) = flg_pool s"
  "flgbmap (switch_task new s) = flgbmap s"
  "active_flg (switch_task new s) = active_flg s"
  "mbx_pool (switch_task new s) = mbx_pool s"
  "mbxbmap (switch_task new s) = mbxbmap s"
  "msg_pool (switch_task new s) = msg_pool s"
  "mpf_pool (switch_task new s) = mpf_pool s"
  "mpfbmap (switch_task new s) = mpfbmap s"
  "kmem (switch_task new s) = kmem s"
  "kctx (switch_task new s) = kctx s"
  by (simp_all add: switch_task_def context_switch_def Let_def)

lemma scheduler_frame [simp, kernel_frame]:
  "nodes (scheduler s) = nodes s"
  "taskbmap (scheduler s) = taskbmap s"
  "prioqueue (scheduler s) = prioqueue s"
  "priobmap (scheduler s) = priobmap s"
  "timeout_queue (scheduler s) = timeout_queue s"
  "idle_task (scheduler s) = idle_task s"
  "dispatching (scheduler s) = dispatching s"
  "cycles (scheduler s) = cycles s"
  "int_nest_count (scheduler s) = int_nest_count s"
  "system_time (scheduler s) = system_time s"
  "sem_pool (scheduler s) = sem_pool s"
  "sembmap (scheduler s) = sembmap s"
  "active_sem (scheduler s) = active_sem s"
  "flg_pool (scheduler s) = flg_pool s"
  "flgbmap (scheduler s) = flgbmap s"
  "active_flg (scheduler s) = active_flg s"
  "mbx_pool (scheduler s) = mbx_pool s"
  "mbxbmap (scheduler s) = mbxbmap s"
  "msg_pool (scheduler s) = msg_pool s"
  "mpf_pool (scheduler s) = mpf_pool s"
  "mpfbmap (scheduler s) = mpfbmap s"
  "kmem (scheduler s) = kmem s"
  "kctx (scheduler s) = kctx s"
  by (simp_all add: scheduler_def Let_def)

lemma switch_task_current [simp]: "current_task (switch_task new s) = new"
  by (simp add: switch_task_def context_switch_def Let_def)

lemma switch_task_pool:
  "task_pool (switch_task new s) t =
     (if t = new then (task_pool s t)\<lparr>tskstat := TTS_RUN\<rparr>
      else if t = current_task s \<and> tskstat (task_pool s t) = TTS_RUN
        then (task_pool s t)\<lparr>tskstat := TTS_RDY\<rparr>
      else task_pool s t)"
  by (auto simp: switch_task_def context_switch_def Let_def)

text \<open>\<open>scheduler()\<close> outside interrupt handlers and with dispatching enabled: which task runs
  next, and the task states it leaves.\<close>

lemma scheduler_current:
  assumes "int_nest_count s = 0" "dispatching s"
  shows "current_task (scheduler s) = (case rq_get_head s of None \<Rightarrow> idle_task s | Some t \<Rightarrow> t)"
  using assms by (simp add: scheduler_def Let_def)

lemma scheduler_pool:
  assumes "int_nest_count s = 0" "dispatching s" "new = current_task (scheduler s)"
  shows "task_pool (scheduler s) t =
     (if new = current_task s then task_pool s t
      else if t = new then (task_pool s t)\<lparr>tskstat := TTS_RUN\<rparr>
      else if t = current_task s \<and> tskstat (task_pool s t) = TTS_RUN
        then (task_pool s t)\<lparr>tskstat := TTS_RDY\<rparr>
      else task_pool s t)"
proof (cases "new = current_task s")
  case True
  then have "task_pool (scheduler s) = task_pool s"
    using assms scheduler_current [OF assms(1,2)] by (simp add: scheduler_def Let_def)
  then show ?thesis using True by simp
next
  case False
  then have "task_pool (scheduler s) =
      task_pool (switch_task new (s\<lparr>start_idle := if rq_get_head s = None then cycles s else start_idle s\<rparr>))"
    using assms scheduler_current [OF assms(1,2)] by (simp add: scheduler_def Let_def)
  then show ?thesis using False by (auto simp: switch_task_pool)
qed

section \<open>Timeout queue: refinement\<close>

lemma tq_rep_list: "tq_rep s T \<Longrightarrow> list_rep (nodes s) (timeout_queue s) (map Slp T)"
  by (simp add: tq_rep_def)

lemma tq_rep_distinct: "tq_rep s T \<Longrightarrow> distinct T"
  using tq_rep_list [of s T] by (simp add: list_rep_def distinct_map)

lemma tq_rep_frame [simp]:
  "tq_rep (write_log e a b s) T = tq_rep s T"
  by (rule tq_rep_cong; simp)

lemma tq_due_rep:
  assumes "tq_rep s T" "\<And>t. t \<in> set T \<Longrightarrow> ll_this (nodes s (Slp t)) = Some (Tsk t)"
  shows "tq_due s = (case T of [] \<Rightarrow> None
     | t # _ \<Rightarrow> if wuptim (task_pool s t) \<le> system_time s then Some t else None)"
  using tq_rep_list [OF assms(1)] assms(2) by (cases T) (auto simp: tq_due_def list_rep_def)

lemma tq_null_rep:
  assumes "tq_rep s T" "\<And>t. t \<in> set T \<Longrightarrow> ll_this (nodes s (Slp t)) = Some (Tsk t)"
  shows "\<not> tq_null s"
  using tq_rep_list [OF assms(1)] assms(2) by (cases T) (auto simp: tq_null_def list_rep_def)

lemma tq_remove_rep:
  assumes "tq_rep s T" "t \<in> set T"
  shows "tq_rep (tq_remove t s) (remove1 t T)"
    and "n \<notin> range Slp \<Longrightarrow> nodes (tq_remove t s) n = nodes s n"
proof -
  obtain as bs where ab: "T = as @ t # bs" "t \<notin> set as"
    using split_list_first [OF assms(2)] by auto
  define r where "r = remove_linked_list (timeout_queue s) (Slp t) (nodes s)"
  have other: "snd r n = nodes s n" if "n \<notin> Slp ` set T" for n
    using remove_linked_list_other [OF tq_rep_list [OF assms(1)], of "Slp t" n "fst r" "snd r"]
      that assms(2) by (auto simp: r_def)
  have rep: "list_rep (snd r) (fst r) (map Slp (as @ bs)) \<and> isolated (snd r) (Slp t)"
    using remove_linked_list_rep [of "nodes s" "timeout_queue s" "map Slp as" "Slp t" "map Slp bs"
        "fst r" "snd r"] tq_rep_list [OF assms(1)] ab(1) by (simp add: r_def)
  have iso: "isolated (snd r) (Slp u)" if "u \<notin> set (as @ bs)" for u
  proof (cases "u = t")
    case False
    then have "Slp u \<notin> Slp ` set T"
      using that ab(1) by auto
    then show ?thesis
      using assms(1) other [of "Slp u"] by (auto simp: tq_rep_def isolated_def)
  qed (use rep in simp)
  show "nodes (tq_remove t s) n = nodes s n" if "n \<notin> range Slp"
    using other that by (auto simp: tq_remove_def Let_def r_def)
  show "tq_rep (tq_remove t s) (remove1 t T)"
    using rep iso assms(1) ab
    by (auto simp: tq_rep_def tq_remove_def Let_def remove1_append sorted_append simp flip: r_def)
qed

text \<open>The search of \<open>tq_insert\<close> stops at the first task that is not due earlier.\<close>

lemma tq_search:
  assumes "dseg (nodes s) a (map Slp xs) None"
    and "\<And>u. u \<in> set xs \<Longrightarrow> ll_this (nodes s (Slp u)) = Some (Tsk u)"
  shows "while_option (tq_ahead w s) (tq_advance s) (first_of (map Slp xs), t) =
    Some (first_of (map Slp (dropWhile (\<lambda>u. wuptim (task_pool s u) < w) xs)),
          last (t # takeWhile (\<lambda>u. wuptim (task_pool s u) < w) xs))"
  using assms
proof (induction xs arbitrary: a t)
  case Nil
  then show ?case
    by (simp add: while_option_unfold tq_ahead_def)
next
  case (Cons u xs)
  have nx: "ll_next (nodes s (Slp u)) = first_of (map Slp xs)"
    using Cons.prems(1) by (auto split: if_splits)
  show ?case
  proof (cases "wuptim (task_pool s u) < w")
    case True
    have "tq_ahead w s (Some (Slp u), t)"
      "tq_advance s (Some (Slp u), t) = (first_of (map Slp xs), u)"
      using True Cons.prems(2) nx by (auto simp: tq_ahead_def tq_advance_def)
    then show ?thesis
      using True Cons.IH [of "Some (Slp u)" u] Cons.prems by (simp add: while_option_unfold)
  next
    case False
    then have "\<not> tq_ahead w s (Some (Slp u), t)"
      using Cons.prems(2) by (auto simp: tq_ahead_def)
    then show ?thesis
      using False by (simp add: while_option_unfold)
  qed
qed

text \<open>Linking a node between the two parts of a list, as the last two cases of \<open>tq_insert\<close> do.\<close>

lemma link_between:
  assumes "list_rep st h (as @ bs)" "as \<noteq> []" "n \<notin> set (as @ bs)"
    and "st' = (case first_of bs of None \<Rightarrow> id | Some l \<Rightarrow> set_prev l (Some n))
           (set_next (last as) (Some n) (set_prev n (Some (last as)) (set_next n (first_of bs) st)))"
  shows "list_rep st' h (as @ n # bs)"
proof -
  obtain as' p where as: "as = as' @ [p]"
    using assms(2) by (cases as rule: rev_cases) auto
  show ?thesis
    using assms(1,3,4) as
    by (cases bs) (auto simp: list_rep_def dseg_append first_of_append)
qed

lemma insort_key_split:
  "insort_key f x xs = takeWhile (\<lambda>y. f y < f x) xs @ x # dropWhile (\<lambda>y. f y < f x) xs"
  by (induction xs) (auto simp: not_le)

text \<open>\<open>tq_inserts s t s0 s' T\<close>: after the assignment of \<open>wuptim\<close>, which gives
  \<open>s0\<close>, the insertion has only changed links of \<open>slpque\<close> nodes and the head pointer, and the
  queue now holds the nodes of \<open>T\<close>.\<close>

definition tq_inserts :: "kernel \<Rightarrow> nat \<Rightarrow> kernel \<Rightarrow> kernel \<Rightarrow> nat list \<Rightarrow> bool" where
  "tq_inserts s t s0 s' T \<longleftrightarrow>
     s' = s0\<lparr>nodes := nodes s', timeout_queue := timeout_queue s'\<rparr> \<and>
     list_rep (nodes s') (timeout_queue s') (map Slp T) \<and>
     (\<forall>n. n \<notin> Slp ` insert t (set T) \<longrightarrow> nodes s' n = nodes s n) \<and>
     (\<forall>n. ll_this (nodes s' n) = ll_this (nodes s n))"

lemma tq_inserts_eq:
  assumes "tq_inserts s t s0 s' T"
  obtains st h where "s' = s0\<lparr>nodes := st, timeout_queue := h\<rparr>"
  using assms unfolding tq_inserts_def by blast

lemma tq_insert_front:
  assumes rep: "list_rep (nodes s) (timeout_queue s) (map Slp T)" and t: "t \<notin> set T"
    and own: "\<And>u. u \<in> set T \<Longrightarrow> ll_this (nodes s (Slp u)) = Some (Tsk u)"
    and s0: "s0 = upd_task t (wuptim_update (\<lambda>_. ucast tmout + system_time s)) s"
    and front: "T = [] \<or> wuptim (task_pool s0 t) \<le> wuptim (task_pool s0 (hd T))"
  shows "\<exists>s'. tq_insert t tmout s = Some s' \<and> tq_inserts s t s0 s' (t # T)"
proof (cases T)
  case Nil
  let ?st = "set_prev (Slp t) None (set_next (Slp t) None (nodes s))"
  have "tq_insert t tmout s = Some (s0\<lparr>nodes := ?st, timeout_queue := Some (Slp t)\<rparr>)"
    using rep Nil s0 by (simp add: tq_insert_def Let_def list_rep_def)
  then show ?thesis
    using Nil by (auto simp: tq_inserts_def list_rep_def set_prev_def set_next_def)
next
  case (Cons h R)
  let ?st = "set_prev (Slp h) (Some (Slp t)) (set_prev (Slp t) None (set_next (Slp t) (Some (Slp h)) (nodes s)))"
  have "timeout_queue s = Some (Slp h)" "ll_this (nodes s (Slp h)) = Some (Tsk h)"
    using rep own Cons by (auto simp: list_rep_def)
  then have ins: "tq_insert t tmout s = Some (s0\<lparr>nodes := ?st, timeout_queue := Some (Slp t)\<rparr>)"
    using front Cons s0 by (simp add: tq_insert_def Let_def)
  have "list_rep ?st (Some (Slp t)) (map Slp (t # T))"
    using Cons rep t by (auto simp: list_rep_def)
  then show ?thesis
    using ins Cons by (auto simp: tq_inserts_def)
qed

lemma tq_insert_body:
  assumes rep: "list_rep (nodes s) (timeout_queue s) (map Slp T)" and t: "t \<notin> set T"
    and own: "\<And>u. u \<in> set T \<Longrightarrow> ll_this (nodes s (Slp u)) = Some (Tsk u)"
    and s0: "s0 = upd_task t (wuptim_update (\<lambda>_. ucast tmout + system_time s)) s"
    and T: "T = h # R" and later: "wuptim (task_pool s0 h) < w" and w: "w = wuptim (task_pool s0 t)"
    and as_eq: "as = h # takeWhile (\<lambda>u. wuptim (task_pool s0 u) < w) R"
    and bs_eq: "bs = dropWhile (\<lambda>u. wuptim (task_pool s0 u) < w) R"
  shows "\<exists>s'. tq_insert t tmout s = Some s' \<and> tq_inserts s t s0 s' (as @ t # bs)"
proof -
  let ?st = "(case first_of (map Slp bs) of None \<Rightarrow> id | Some l \<Rightarrow> set_prev l (Some (Slp t)))
    (set_next (Slp (last as)) (Some (Slp t)) (set_prev (Slp t) (Some (Slp (last as)))
      (set_next (Slp t) (first_of (map Slp bs)) (nodes s))))"
  have split: "T = as @ bs" and lst: "last (map Slp as) = Slp (last as)" "last as \<in> set T" "as \<noteq> []"
    using T by (simp_all add: as_eq bs_eq last_map) (metis last_in_set set_takeWhileD)
  have h: "timeout_queue s = Some (Slp h)" "ll_this (nodes s (Slp h)) = Some (Tsk h)"
      "ll_next (nodes s (Slp h)) = first_of (map Slp R)" "dseg (nodes s0) (Some (Slp h)) (map Slp R) None"
    using rep own T s0 by (auto simp: list_rep_def split: if_splits)
  have "while_option (tq_ahead w s0) (tq_advance s0) (first_of (map Slp R), h) =
      Some (first_of (map Slp bs), last as)"
    unfolding as_eq bs_eq by (rule tq_search [OF h(4)]) (use own T s0 in auto)
  moreover have "ll_prev (nodes s (Slp b)) = Some (Slp (last as))" "ll_this (nodes s (Slp b)) = Some (Tsk b)"
    if "bs = b # bs'" for b bs'
    using rep split lst own that by (auto simp: list_rep_def dseg_append last_of_def)
  ultimately have ins: "tq_insert t tmout s = Some (s0\<lparr>nodes := ?st, timeout_queue := timeout_queue s\<rparr>)"
    using later h w s0 by (cases bs) (simp_all add: tq_insert_def Let_def)
  have "list_rep ?st (timeout_queue s) (map Slp (as @ t # bs))"
    using link_between [of "nodes s" "timeout_queue s" "map Slp as" "map Slp bs" "Slp t" ?st]
      rep split t lst by auto
  moreover have "?st n = nodes s n" if "n \<notin> Slp ` (insert t (set T))" for n
    using that lst(2) split by (cases bs) (auto simp: set_prev_def set_next_def)
  moreover have "ll_this (?st n) = ll_this (nodes s n)" for n
    by (cases bs) auto
  ultimately show ?thesis
    using ins split by (auto simp: tq_inserts_def)
qed

text \<open>\<open>tq_insert\<close> is insertion into a list sorted by wake-up time, before the tasks with the
  same time.\<close>

lemma tq_insert_rep:
  assumes "tq_rep s T" "t \<notin> set T"
    and own: "\<And>u. u \<in> set T \<Longrightarrow> ll_this (nodes s (Slp u)) = Some (Tsk u)"
    and s0: "s0 = upd_task t (wuptim_update (\<lambda>_. ucast tmout + system_time s)) s"
    and T': "T' = insort_key (\<lambda>u. wuptim (task_pool s0 u)) t T"
  shows "\<exists>s'. tq_insert t tmout s = Some s' \<and> tq_inserts s t s0 s' T' \<and> tq_rep s' T'"
proof -
  let ?f = "\<lambda>u. wuptim (task_pool s0 u)"
  have "map ?f T = map (\<lambda>t. wuptim (task_pool s t)) T"
    using assms(2) s0 by auto
  then have "sorted (map ?f T)"
    using assms(1) by (simp only: tq_rep_def)
  then have sorted: "sorted (map ?f T')"
    using T' by (simp add: sorted_insort_key)
  note facts = tq_rep_list [OF assms(1)] assms(2) own s0
  have "\<exists>s'. tq_insert t tmout s = Some s' \<and> tq_inserts s t s0 s' T'"
  proof (cases "T = [] \<or> ?f t \<le> ?f (hd T)")
    case True
    then show ?thesis
      using tq_insert_front [OF facts] T' by (cases T) auto
  next
    case False
    then show ?thesis
      using tq_insert_body [OF facts _ _ refl refl refl, of "hd T" "tl T"] T'
      by (cases T) (auto simp: insort_key_split not_le)
  qed
  moreover have "tq_rep s' T'" if ins: "tq_inserts s t s0 s' T'" for s'
  proof -
    have "isolated (nodes s') (Slp u)" if "u \<notin> set T'" for u
      using that ins assms(1) T' by (auto simp: tq_inserts_def tq_rep_def isolated_def set_insort_key)
    moreover have "task_pool s' = task_pool s0"
      by (rule tq_inserts_eq [OF ins]) simp
    ultimately show ?thesis
      using ins sorted by (simp add: tq_rep_def tq_inserts_def)
  qed
  ultimately show ?thesis
    by blast
qed

section \<open>Waking the tasks whose time has come\<close>

text \<open>\<open>tq_wakeup\<close> ends, because every round takes a task off the queue, and what every round
  keeps holds at the end.\<close>

lemma tq_wakeup_ends:
  assumes "P s T"
    and due: "\<And>s T. P s T \<Longrightarrow> tq_due s = (case T of [] \<Rightarrow> None
      | t # _ \<Rightarrow> if wuptim (task_pool s t) \<le> system_time s then Some t else None)"
    and null: "\<And>s T. P s T \<Longrightarrow> \<not> tq_null s"
    and step: "\<And>s t T. P s (t # T) \<Longrightarrow> wuptim (task_pool s t) \<le> system_time s \<Longrightarrow> P (tq_wake_one t s) T"
  shows "\<exists>s' T'. tq_wakeup s = Some s' \<and> P s' T' \<and> tq_due s' = None"
  using assms(1)
proof (induction T arbitrary: s)
  case Nil
  then show ?case
    using due [OF Nil] null [OF Nil] by (auto simp: tq_wakeup_def while_option_unfold)
next
  case (Cons t T)
  show ?case
  proof (cases "wuptim (task_pool s t) \<le> system_time s")
    case True
    then have "tq_wakeup s = tq_wakeup (tq_wake_one t s)"
      using due [OF Cons.prems] by (simp add: tq_wakeup_def while_option_unfold [of _ _ s])
    then show ?thesis
      using Cons.IH [OF step [OF Cons.prems True]] by simp
  next
    case False
    then show ?thesis
      using due [OF Cons.prems] null [OF Cons.prems] Cons.prems by (auto simp: tq_wakeup_def while_option_unfold)
  qed
qed

lemma tq_wake_one_pool [simp]:
  "task_pool (tq_wake_one t s) u =
     (if u = t then (task_pool s t)\<lparr>wobjid := E_TMOUT\<rparr> else task_pool s u)"
  by (simp add: tq_wake_one_def Let_def)

lemma tq_wake_one_this [simp]: "ll_this (nodes (tq_wake_one t s) n) = ll_this (nodes s n)"
  by (simp add: tq_wake_one_def Let_def)

lemma tq_remove_rq_rep:
  assumes "tq_rep s T" "t \<in> set T"
  shows "rq_rep (tq_remove t s) Q = rq_rep s Q"
  using tq_remove_rep(2) [OF assms] by (intro rq_rep_cong) auto

lemma tq_wake_one_rep:
  assumes "tq_rep s (t # T)" "rq_rep s Q" "\<forall>i. t \<notin> set (Q i)"
    and p: "p = tskpri (task_pool s t)" "p < PRIORITY_LEVELS"
  shows "tq_rep (tq_wake_one t s) T" "rq_rep (tq_wake_one t s) (Q(p := Q p @ [t]))"
    and "n \<notin> range Rdy \<Longrightarrow> n \<notin> range Slp \<Longrightarrow> nodes (tq_wake_one t s) n = nodes s n"
proof -
  have rq: "rq_rep (tq_remove t s) Q"
    using tq_remove_rq_rep [OF assms(1)] assms(2) by simp
  then show "rq_rep (tq_wake_one t s) (Q(p := Q p @ [t]))"
    using rq_insert_rep [OF rq assms(3), of p] p by (simp add: tq_wake_one_def Let_def)
  show "nodes (tq_wake_one t s) n = nodes s n" if "n \<notin> range Rdy" "n \<notin> range Slp"
    using that rq_insert_nodes [OF rq, of n t] tq_remove_rep(2) [OF assms(1), of t n]
    by (simp add: tq_wake_one_def Let_def)
  have "tq_rep (tq_wake_one t s) T = tq_rep (tq_remove t s) T"
    using rq_insert_nodes [OF rq] by (intro tq_rep_cong) (auto simp: tq_wake_one_def Let_def)
  then show "tq_rep (tq_wake_one t s) T"
    using tq_remove_rep(1) [OF assms(1), of t] by simp
qed

lemma tq_wake_one_frame [simp, kernel_frame]:
  "system_time (tq_wake_one t s) = system_time s" "current_task (tq_wake_one t s) = current_task s"
  "idle_task (tq_wake_one t s) = idle_task s" "taskbmap (tq_wake_one t s) = taskbmap s"
  "sem_pool (tq_wake_one t s) = sem_pool s" "flg_pool (tq_wake_one t s) = flg_pool s"
  "mbx_pool (tq_wake_one t s) = mbx_pool s" "mpf_pool (tq_wake_one t s) = mpf_pool s"
  "sembmap (tq_wake_one t s) = sembmap s" "flgbmap (tq_wake_one t s) = flgbmap s"
  "mbxbmap (tq_wake_one t s) = mbxbmap s" "mpfbmap (tq_wake_one t s) = mpfbmap s"
  "dispatching (tq_wake_one t s) = dispatching s" "int_nest_count (tq_wake_one t s) = int_nest_count s"
  "active_sem (tq_wake_one t s) = active_sem s" "active_flg (tq_wake_one t s) = active_flg s"
  "kctx (tq_wake_one t s) = kctx s" "kmem (tq_wake_one t s) = kmem s"
  by (simp_all add: tq_wake_one_def Let_def)

lemma tq_rep_later:
  assumes "tq_rep s (t # T)" "system_time s < wuptim (task_pool s t)" "u \<in> set (t # T)"
  shows "system_time s < wuptim (task_pool s u)"
  using assms by (auto simp: tq_rep_def intro: less_le_trans)

text \<open>How far the waking of the due tasks of \<open>T\<close> has come in \<open>u\<close>: \<open>R\<close> is left, the
  tasks before it are at the tails of the ready queues of their priorities.\<close>

definition tq_woken :: "kernel \<Rightarrow> (nat \<Rightarrow> nat list) \<Rightarrow> nat list \<Rightarrow> kernel \<Rightarrow> nat list \<Rightarrow> bool" where
  "tq_woken s Q T u R \<longleftrightarrow> (\<exists>D. T = D @ R \<and>
     (\<forall>t \<in> set D. wuptim (task_pool s t) \<le> system_time s) \<and> tq_rep u R \<and>
     rq_rep u (\<lambda>i. Q i @ filter (\<lambda>t. tskpri (task_pool s t) = i) D) \<and>
     system_time u = system_time s \<and> (\<forall>n. ll_this (nodes u n) = ll_this (nodes s n)) \<and>
     (\<forall>t. tskpri (task_pool u t) = tskpri (task_pool s t) \<and>
          wuptim (task_pool u t) = wuptim (task_pool s t)))"

definition tq_ready :: "kernel \<Rightarrow> (nat \<Rightarrow> nat list) \<Rightarrow> nat list \<Rightarrow> bool" where
  "tq_ready s Q T \<longleftrightarrow> (\<forall>t \<in> set T. ll_this (nodes s (Slp t)) = Some (Tsk t) \<and>
     tskpri (task_pool s t) < PRIORITY_LEVELS \<and> (\<forall>i. t \<notin> set (Q i)))"

lemma tq_woken_due:
  assumes "tq_ready s Q T" "tq_woken s Q T u R"
  shows "tq_due u = (case R of [] \<Rightarrow> None
    | t # _ \<Rightarrow> if wuptim (task_pool u t) \<le> system_time u then Some t else None)"
  using assms by (intro tq_due_rep) (auto simp: tq_woken_def tq_ready_def)

lemma tq_woken_null: "tq_ready s Q T \<Longrightarrow> tq_woken s Q T u R \<Longrightarrow> \<not> tq_null u"
  by (rule tq_null_rep) (auto simp: tq_woken_def tq_ready_def)

lemma tq_woken_step:
  assumes T: "tq_ready s Q T" "distinct T" and u: "tq_woken s Q T u (t # R)"
    and due: "wuptim (task_pool u t) \<le> system_time u"
  shows "tq_woken s Q T (tq_wake_one t u) R"
proof -
  let ?Q = "\<lambda>D i. Q i @ filter (\<lambda>t. tskpri (task_pool s t) = i) D"
  let ?p = "tskpri (task_pool u t)"
  obtain D where D: "T = D @ t # R" "\<forall>t \<in> set D. wuptim (task_pool s t) \<le> system_time s"
      "tq_rep u (t # R)" "rq_rep u (?Q D)"
    and eq: "\<And>t. tskpri (task_pool u t) = tskpri (task_pool s t)"
    using u by (auto simp: tq_woken_def)
  have "\<forall>i. t \<notin> set (?Q D i)" "?p < PRIORITY_LEVELS"
    using T D(1) eq by (auto simp: tq_ready_def)
  then have "rq_rep (tq_wake_one t u) ((?Q D)(?p := ?Q D ?p @ [t]))" "tq_rep (tq_wake_one t u) R"
    using tq_wake_one_rep [OF D(3,4) _ refl] by auto
  moreover have "(?Q D)(?p := ?Q D ?p @ [t]) = ?Q (D @ [t])"
    using eq by auto
  ultimately show ?thesis
    using u due D unfolding tq_woken_def by (intro exI [of _ "D @ [t]"]) auto
qed

text \<open>The tick moves the tasks that are due, in the order of their wake-up times, to the tails of the
  ready queues of their priorities, and leaves the others.\<close>

lemma tq_wakeup_rep:
  assumes "tq_rep s T" "rq_rep s Q" and T: "tq_ready s Q T"
    and due: "due = (\<lambda>t. wuptim (task_pool s t) \<le> system_time s)"
  shows "\<exists>s'. tq_wakeup s = Some s' \<and> tq_rep s' (filter (\<lambda>t. \<not> due t) T) \<and>
    rq_rep s' (\<lambda>i. Q i @ filter (\<lambda>t. tskpri (task_pool s t) = i) (filter due T))"
proof -
  have "tq_woken s Q T s T"
    using assms(1,2) by (auto simp: tq_woken_def)
  then obtain s' R where s': "tq_wakeup s = Some s'" "tq_woken s Q T s' R" "tq_due s' = None"
    using tq_wakeup_ends [of "tq_woken s Q T" s T] tq_woken_due [OF T] tq_woken_null [OF T]
      tq_woken_step [OF T tq_rep_distinct [OF assms(1)]] by blast
  then obtain D where D: "T = D @ R" "\<forall>t \<in> set D. due t" "tq_rep s' R"
      "rq_rep s' (\<lambda>i. Q i @ filter (\<lambda>t. tskpri (task_pool s t) = i) D)"
    by (auto simp: tq_woken_def due)
  have "\<not> due t" if "t \<in> set R" for t
    using that s'(2,3) tq_woken_due [OF T s'(2)] tq_rep_later [of s' "hd R" "tl R" t] D(3)
    by (cases R) (auto simp: tq_woken_def due not_le split: if_splits)
  then have "filter (\<lambda>t. \<not> due t) T = R" "filter due T = D"
    using D(1,2) by (auto simp: filter_empty_conv)
  then show ?thesis
    using s'(1) D(3,4) by auto
qed

end
