(* ===== verification/Tasks.thy ===== *)
theory Tasks
  imports Sched
begin

text \<open>
  Task management (\<open>core/kernel/port/task.c\<close>) and the initial kernel stack of a task
  (\<open>core/kernel/blackfin/stack.c\<close>): every system call of the file, as a function that gives how
  the call ends and the kernel state it leaves. Identifiers start at 1; the pool index is one less.
\<close>

definition TFN_CRE_TSK :: int where "TFN_CRE_TSK = -0x05"
definition TFN_DEL_TSK :: int where "TFN_DEL_TSK = -0x06"
definition TFN_ACT_TSK :: int where "TFN_ACT_TSK = -0x07"
definition TFN_CAN_ACT :: int where "TFN_CAN_ACT = -0x08"
definition TFN_EXT_TSK :: int where "TFN_EXT_TSK = -0x0a"
definition TFN_EXD_TSK :: int where "TFN_EXD_TSK = -0x0b"
definition TFN_CHG_PRI :: int where "TFN_CHG_PRI = -0x0d"
definition TFN_SLP_TSK :: int where "TFN_SLP_TSK = -0x11"
definition TFN_TSLP_TSK :: int where "TFN_TSLP_TSK = -0x12"
definition TFN_CAN_WUP :: int where "TFN_CAN_WUP = -0x14"
definition TFN_ACRE_TSK :: int where "TFN_ACRE_TSK = -0xc1"

record T_CTSK =
  ct_exinf :: u32
  ct_tskatr :: u32
  ct_task :: u32
  ct_itskpri :: u32
  ct_stksz :: int
  ct_stk :: u32
  ct_extdat :: u32

section \<open>Pool and initial tasks\<close>

text \<open>\<open>init_stack\<close>: the first frame of the kernel stack continues in \<open>startup_fn\<close>. The
  allocation of that stack by \<open>malloc_ex\<close> is not part of the model.\<close>

definition init_stack :: "nat \<Rightarrow> kernel \<Rightarrow> kernel" where
  "init_stack t s =
     (let s = (if exinf (task_pool s t) AND TSK_KERNEL \<noteq> 0 then s
               else upd_task t (\<lambda>x. x\<lparr>stk := stk x + word_of_int (stksz x) - 4\<rparr>) s)
      in s\<lparr>kctx := (kctx s)(t \<mapsto> Resuming K_start)\<rparr>)"

definition set_task_nodes :: "nat \<Rightarrow> kernel \<Rightarrow> kernel" where
  "set_task_nodes t s =
     s\<lparr>nodes := set_this (Rdy t) (Some (Tsk t)) (set_this (Syn t) (Some (Tsk t))
                 (set_this (Slp t) (Some (Tsk t)) (nodes s)))\<rparr>"

definition clear_task_nodes :: "nat \<Rightarrow> kernel \<Rightarrow> kernel" where
  "clear_task_nodes t s =
     s\<lparr>nodes := (nodes s)(Rdy t := node_zero, Syn t := node_zero, Slp t := node_zero)\<rparr>"

definition create_main_task :: "u32 \<Rightarrow> u32 \<Rightarrow> int \<Rightarrow> kernel \<Rightarrow> kernel" where
  "create_main_task main user_stack user_stack_size s =
     (let i = nat (ffc (taskbmap s));
          s = s\<lparr>taskbmap := setbit (taskbmap s) i\<rparr>;
          s = upd_task i (\<lambda>x. x\<lparr>tskpri := MAX_TASK_PRIORITY, tskid := int i + 1, task_fn := main,
                               tskstat := TTS_RDY, stk := user_stack, stksz := user_stack_size,
                               exinf := 0\<rparr>) s;
          s = set_task_nodes i s;
          s = init_stack i s
      in rq_insert i s)"

definition create_idle_task :: "kernel \<Rightarrow> kernel" where
  "create_idle_task s =
     (let i = nat (ffc (taskbmap s));
          s = s\<lparr>idle_task := i, taskbmap := setbit (taskbmap s) i\<rparr>;
          s = upd_task i (\<lambda>x. x\<lparr>tskpri := MIN_TASK_PRIORITY, tskid := int i + 1,
                               exinf := TSK_KERNEL\<rparr>) s
      in s\<lparr>current_task := i\<rparr>)"

definition init_task_pool :: "kernel \<Rightarrow> kernel" where
  "init_task_pool s =
     s\<lparr>taskbmap := clearbitmap, task_pool := (\<lambda>_. task_zero),
       nodes := (\<lambda>n. case n of Rdy _ \<Rightarrow> node_zero | Syn _ \<Rightarrow> node_zero | Slp _ \<Rightarrow> node_zero
                     | _ \<Rightarrow> nodes s n)\<rparr>"

definition get_task_by_id :: "int \<Rightarrow> kernel \<Rightarrow> nat option" where
  "get_task_by_id tid s =
     (if tid < 1 \<or> tid > int MAX_TASKS then None
      else let idx = nat (tid - 1)
           in if \<not> isbitset (taskbmap s) idx then None else Some idx)"

section \<open>Creation and deletion\<close>

definition fill_task :: "nat \<Rightarrow> T_CTSK \<Rightarrow> kernel \<Rightarrow> kernel" where
  "fill_task idx c s =
     (let s = clear_task_nodes idx (upd_task idx (\<lambda>_. task_zero) s);
          s = upd_task idx (\<lambda>x. x\<lparr>tskatr := ct_tskatr c, exinf := ct_exinf c, task_fn := ct_task c,
                extdat := ct_extdat c, tskstat := TTS_DMT, tskpri := unat (ct_itskpri c),
                tskid := int idx + 1, stksz := ct_stksz c, stk := ct_stk c\<rparr>) s;
          s = set_task_nodes idx s;
          s = init_stack idx s
      in s\<lparr>taskbmap := setbit (taskbmap s) idx\<rparr>)"

definition acre_tsk_sys :: "T_CTSK option \<Rightarrow> kernel \<Rightarrow> outcome \<times> kernel" where
  "acre_tsk_sys pk_ctsk s =
     (case pk_ctsk of
        None \<Rightarrow> (Ret E_PAR, s)
      | Some c \<Rightarrow>
          if ct_task c = 0 \<or> ct_stksz c < 0 \<or> ct_stk c = 0 \<or> ct_itskpri c > of_nat MIN_TASK_PRIORITY
          then (Ret E_PAR, s)
          else
            let idx = ffc (taskbmap s); tid = idx + 1
            in if tid < 1 \<or> tid > int MAX_TASKS then (Ret E_NOID, s)
               else (Ret tid, write_log TFN_ACRE_TSK tid 0 (fill_task (nat idx) c s)))"

definition cre_tsk_sys :: "int \<Rightarrow> T_CTSK option \<Rightarrow> kernel \<Rightarrow> outcome \<times> kernel" where
  "cre_tsk_sys tid pk_ctsk s =
     (if tid < 1 \<or> tid > int MAX_TASKS then (Ret E_ID, s)
      else case pk_ctsk of
        None \<Rightarrow> (Ret E_PAR, s)
      | Some c \<Rightarrow>
          if ct_task c = 0 \<or> ct_stksz c < 0 \<or> ct_itskpri c > of_nat MIN_TASK_PRIORITY
          then (Ret E_PAR, s)
          else
            let idx = nat (tid - 1)
            in if isbitset (taskbmap s) idx then (Ret E_OBJ, s)
               else (Ret E_OK, write_log TFN_CRE_TSK tid E_OK (fill_task idx c s)))"

definition del_tsk_sys :: "int \<Rightarrow> kernel \<Rightarrow> outcome \<times> kernel" where
  "del_tsk_sys tid s =
     (if tid < 1 \<or> tid > int MAX_TASKS then (Ret E_ID, s)
      else
        let idx = nat (tid - 1)
        in if \<not> isbitset (taskbmap s) idx then (Ret E_NOEXS, s)
           else if tskstat (task_pool s idx) \<noteq> TTS_DMT then (Ret E_OBJ, s)
           else (Ret E_OK, write_log TFN_DEL_TSK tid E_OK (s\<lparr>taskbmap := clearbit (taskbmap s) idx\<rparr>)))"

section \<open>Activation, termination, priority\<close>

text \<open>The selection of the target task that the calls share: \<open>TSK_SELF\<close> is the caller, any
  other identifier must be in use.\<close>

definition pick_task :: "int \<Rightarrow> kernel \<Rightarrow> nat option" where
  "pick_task tid s =
     (if tid = TSK_SELF then Some (current_task s)
      else if \<not> isbitset (taskbmap s) (nat (tid - 1)) then None
      else Some (nat (tid - 1)))"

definition act_tsk_sys :: "int \<Rightarrow> kernel \<Rightarrow> outcome \<times> kernel" where
  "act_tsk_sys tid s =
     (if tid < 1 \<or> tid > int MAX_TASKS then (Ret E_ID, s)
      else case pick_task tid s of
        None \<Rightarrow> (Ret E_NOEXS, s)
      | Some tsk \<Rightarrow>
          let s = write_log TFN_ACT_TSK tid (actcnt (task_pool s tsk)) s;
              s = (if tskstat (task_pool s tsk) = TTS_DMT
                   then set_stat tsk TTS_RDY (rq_insert tsk s)
                   else upd_task tsk (\<lambda>x. x\<lparr>actcnt := sint32 (actcnt x + 1)\<rparr>) s)
          in (Sched (K_ret E_OK), s))"

definition can_act_sys :: "int \<Rightarrow> kernel \<Rightarrow> outcome \<times> kernel" where
  "can_act_sys tid s =
     (if tid < 1 \<or> tid > int MAX_TASKS then (Ret E_ID, s)
      else case pick_task tid s of
        None \<Rightarrow> (Ret E_NOEXS, s)
      | Some tsk \<Rightarrow>
          let cnt = actcnt (task_pool s tsk);
              s = upd_task tsk (actcnt_update (\<lambda>_. 0)) s
          in (Ret cnt, write_log TFN_CAN_ACT tid cnt s))"

definition can_wup_sys :: "int \<Rightarrow> kernel \<Rightarrow> outcome \<times> kernel" where
  "can_wup_sys tid s =
     (if tid < 1 \<or> tid > int MAX_TASKS then (Ret E_ID, s)
      else case pick_task tid s of
        None \<Rightarrow> (Ret E_NOEXS, s)
      | Some tsk \<Rightarrow>
          let cnt = wupcnt (task_pool s tsk);
              s = upd_task tsk (wupcnt_update (\<lambda>_. 0)) s
          in (Ret cnt, write_log TFN_CAN_WUP tid cnt s))"

definition chg_pri_sys :: "int \<Rightarrow> u32 \<Rightarrow> kernel \<Rightarrow> outcome \<times> kernel" where
  "chg_pri_sys tid pri s =
     (if tid < 1 \<or> tid > int MAX_TASKS then (Ret E_ID, s)
      else if pri > of_nat MIN_TASK_PRIORITY then (Ret E_PAR, s)
      else case pick_task tid s of
        None \<Rightarrow> (Ret E_NOEXS, s)
      | Some tsk \<Rightarrow>
          let s = write_log TFN_CHG_PRI tid (uint pri) s;
              s = (if tskstat (task_pool s tsk) = TTS_RDY
                   then upd_task tsk (tskpri_update (\<lambda>_. unat pri)) (rq_relocate tsk (unat pri) s)
                   else s)
          in (Sched (K_ret E_OK), s))"

definition ext_tsk_sys :: "kernel \<Rightarrow> outcome \<times> kernel" where
  "ext_tsk_sys s =
     (let t = current_task s;
          s = set_stat t TTS_DMT (rq_remove t s)
      in (Sched K_ext, write_log TFN_EXT_TSK (tskid (task_pool s t)) 0 s))"

definition exd_tsk_sys :: "kernel \<Rightarrow> outcome \<times> kernel" where
  "exd_tsk_sys s =
     (let t = current_task s;
          s = set_stat t TTS_DMT (rq_remove t s);
          s = s\<lparr>taskbmap := clearbit (taskbmap s) (nat (tskid (task_pool s t) - 1))\<rparr>
      in (Sched K_ext, write_log TFN_EXD_TSK (tskid (task_pool s t)) 0 s))"

definition get_pri_sys :: "int \<Rightarrow> u32 \<Rightarrow> kernel \<Rightarrow> outcome \<times> kernel" where
  "get_pri_sys tid p_tskpri s =
     (if tid < 1 \<or> tid > int MAX_TASKS then (Ret E_ID, s)
      else if p_tskpri = 0 \<or> p_tskpri AND 0x3 \<noteq> 0 then (Ret E_PAR, s)
      else case pick_task tid s of
        None \<Rightarrow> (Ret E_NOEXS, s)
      | Some tsk \<Rightarrow>
          if tskstat (task_pool s tsk) = TTS_DMT then (Ret E_OBJ, s)
          else (Ret E_OK, s\<lparr>kmem := (kmem s)(p_tskpri := of_nat (tskpri (task_pool s tsk)))\<rparr>))"

section \<open>Sleeping and release\<close>

definition slp_tsk_sys :: "kernel \<Rightarrow> outcome \<times> kernel" where
  "slp_tsk_sys s =
     (let t = current_task s;
          s = write_log TFN_SLP_TSK (tskid (task_pool s t)) 0 s;
          s = upd_task t (\<lambda>x. x\<lparr>tskstat := TTS_WAI, tskwait := TTW_SLP\<rparr>) s
      in (Sched (K_ret E_OK), rq_remove t s))"

definition tslp_tsk_sys :: "u32 \<Rightarrow> kernel \<Rightarrow> outcome \<times> kernel" where
  "tslp_tsk_sys tmout s =
     (if tmout = TMO_FEVR then slp_tsk_sys s
      else if tmout = TMO_POL then
        (if wupcnt (task_pool s (current_task s)) > 0 then (Ret E_OK, s) else (Spin, s))
      else if tmout < 1 then (Ret E_PAR, s)
      else
        let t = current_task s
        in case tq_insert t tmout s of
             None \<Rightarrow> (Fault, s)
           | Some s \<Rightarrow>
               let s = write_log TFN_TSLP_TSK (tskid (task_pool s t)) (uint tmout) s;
                   s = upd_task t (\<lambda>x. x\<lparr>tskstat := TTS_WAI, tskwait := TTW_SLP\<rparr>) s
               in (Sched (K_ret E_OK), rq_remove t s))"

definition wup_tsk_sys :: "int \<Rightarrow> kernel \<Rightarrow> outcome \<times> kernel" where
  "wup_tsk_sys tid s = (Ret E_OK, s)"

definition sus_tsk_sys :: "int \<Rightarrow> kernel \<Rightarrow> outcome \<times> kernel" where
  "sus_tsk_sys tid s = (NoValue, s)"

definition rel_wai_sys :: "int \<Rightarrow> kernel \<Rightarrow> outcome \<times> kernel" where
  "rel_wai_sys tid s =
     (if tid < 1 \<or> tid > int MAX_TASKS then (Ret E_ID, s)
      else if tid = TSK_SELF then (Ret E_OBJ, s)
      else
        let idx = nat (tid - 1)
        in if \<not> isbitset (taskbmap s) idx then (Ret E_NOEXS, s)
           else if tskstat (task_pool s idx) AND TTS_WAI = 0 then (Ret E_OBJ, s)
           else
             let s = set_stat idx (tskstat (task_pool s idx) AND NOT TTS_WAI) s;
                 s = (if tskstat (task_pool s idx) = 0
                      then set_stat idx TTS_RDY (rq_insert idx s) else s)
             in (Sched (K_ret E_OK), s))"

definition ter_tsk_sys :: "int \<Rightarrow> kernel \<Rightarrow> outcome \<times> kernel" where
  "ter_tsk_sys tid s =
     (if tid < 1 \<or> tid > int MAX_TASKS then (Ret E_ID, s)
      else if tid = TSK_SELF then (Ret E_ILUSE, s)
      else
        let idx = nat (tid - 1)
        in if \<not> isbitset (taskbmap s) idx then (Ret E_NOEXS, s)
           else if tskstat (task_pool s idx) = TTS_DMT then (Ret E_OBJ, s)
           else (NoValue, s))"

section \<open>Reference calls\<close>

text \<open>The guard reads \<open>!pk_rtsk == TSK_SELF\<close>, that is \<open>(!pk_rtsk) == 0\<close>: it holds for every
  pointer that is not null. The stores that follow go through the null pointer.\<close>

definition ref_tsk_sys :: "int \<Rightarrow> u32 \<Rightarrow> kernel \<Rightarrow> outcome \<times> kernel" where
  "ref_tsk_sys tid pk_rtsk s =
     (if tid < 1 \<or> tid > int MAX_TASKS then (Ret E_ID, s)
      else if (if pk_rtsk = 0 then 1 else 0) = TSK_SELF then (Ret E_PAR, s)
      else case pick_task tid s of
        None \<Rightarrow> (Ret E_NOEXS, s)
      | Some tsk \<Rightarrow> (Fault, s))"

definition ref_tst_sys :: "int \<Rightarrow> u32 \<Rightarrow> kernel \<Rightarrow> outcome \<times> kernel" where
  "ref_tst_sys tid pk_rtst s =
     (if tid < 1 \<or> tid > int MAX_TASKS then (Ret E_ID, s)
      else if (if pk_rtst = 0 then 1 else 0) = TSK_SELF then (Ret E_PAR, s)
      else case pick_task tid s of
        None \<Rightarrow> (Ret E_NOEXS, s)
      | Some tsk \<Rightarrow> (Fault, s))"

section \<open>Identifiers\<close>

interpretation tsk_ids: id_allocator taskbmap MAX_TASKS
  "\<lambda>p. case p of None \<Rightarrow> False | Some c \<Rightarrow> ct_task c \<noteq> 0 \<and> 0 \<le> ct_stksz c \<and> ct_stk c \<noteq> 0 \<and>
     ct_itskpri c \<le> of_nat MIN_TASK_PRIORITY"
  acre_tsk_sys Ret
  by unfold_locales
    (auto simp: acre_tsk_sys_def fill_task_def upd_task_def write_log_def clear_task_nodes_def set_task_nodes_def
      init_stack_def Let_def cfg_defs not_less split: option.splits)

end
