(* ===== verification/Semaphores.thy ===== *)
theory Semaphores
  imports Tasks
begin

text \<open>
  Counting semaphores (\<open>core/kernel/port/semaphore.c\<close>). A waiting call is split at its call of
  \<open>scheduler()\<close>: the first part ends in \<open>Sched k\<close>, the part after it is the function named
  \<open>..._resume\<close>, which the machine runs when the task continues at \<open>k\<close>.
\<close>

definition TFN_CRE_SEM :: int where "TFN_CRE_SEM = -0x21"
definition TFN_DEL_SEM :: int where "TFN_DEL_SEM = -0x22"
definition TFN_SIG_SEM :: int where "TFN_SIG_SEM = -0x23"
definition TFN_WAI_SEM :: int where "TFN_WAI_SEM = -0x25"
definition TFN_TWAI_SEM :: int where "TFN_TWAI_SEM = -0x27"
definition TFN_ACRE_SEM :: int where "TFN_ACRE_SEM = -0xc2"

record T_CSEM =
  cs_sematr :: int
  cs_isemcnt :: int
  cs_maxsem :: int

definition upd_sem :: "nat \<Rightarrow> (semaphore_t \<Rightarrow> semaphore_t) \<Rightarrow> kernel \<Rightarrow> kernel" where
  "upd_sem i f s = s\<lparr>sem_pool := (sem_pool s)(i := f (sem_pool s i))\<rparr>"

definition init_sem_pool :: "kernel \<Rightarrow> kernel" where
  "init_sem_pool s =
     s\<lparr>active_sem := None, sembmap := clearbitmap, sem_pool := (\<lambda>_. sem_zero),
       nodes := (\<lambda>n. case n of ActSem _ \<Rightarrow> node_zero | _ \<Rightarrow> nodes s n)\<rparr>"

section \<open>Creation and deletion\<close>

text \<open>The assignments \<open>acre_sem_sys\<close> and \<open>cre_sem_sys\<close> share, from the \<open>memset\<close> to
  the insertion into the list of active semaphores; \<open>tfn\<close> is the code they log.\<close>

definition fill_sem :: "int \<Rightarrow> nat \<Rightarrow> T_CSEM \<Rightarrow> kernel \<Rightarrow> kernel" where
  "fill_sem tfn idx c s =
     (let s = upd_sem idx (\<lambda>_. sem_zero\<lparr>sematr := cs_sematr c, semcnt := cs_isemcnt c,
                                          maxsem := cs_maxsem c\<rparr>) s;
          s = s\<lparr>nodes := (nodes s)(ActSem idx := node_zero), sembmap := setbit (sembmap s) idx\<rparr>;
          s = write_log tfn (int idx + 1) E_OK s;
          s = s\<lparr>nodes := set_this (ActSem idx) (Some (Sem idx)) (nodes s)\<rparr>;
          r = insert_linked_list (active_sem s) (ActSem idx) (nodes s)
      in s\<lparr>active_sem := fst r, nodes := snd r\<rparr>)"

definition acre_sem_sys :: "T_CSEM option \<Rightarrow> kernel \<Rightarrow> outcome \<times> kernel" where
  "acre_sem_sys pk_csem s =
     (case pk_csem of
        None \<Rightarrow> (Ret E_PAR, s)
      | Some c \<Rightarrow>
          if cs_maxsem c < cs_isemcnt c \<or> cs_maxsem c = 0 then (Ret E_PAR, s)
          else
            let idx = ffc (sembmap s); semid = idx + 1
            in if semid < 1 \<or> semid > int CONFIG_MAX_SEM then (Ret E_NOID, s)
               else (Ret semid, fill_sem TFN_ACRE_SEM (nat idx) c s))"

definition cre_sem_sys :: "int \<Rightarrow> T_CSEM option \<Rightarrow> kernel \<Rightarrow> outcome \<times> kernel" where
  "cre_sem_sys semid pk_csem s =
     (if semid < 1 \<or> semid > int CONFIG_MAX_SEM then (Ret E_ID, s)
      else case pk_csem of
        None \<Rightarrow> (Ret E_PAR, s)
      | Some c \<Rightarrow>
          if cs_maxsem c < cs_isemcnt c \<or> cs_maxsem c = 0 then (Ret E_PAR, s)
          else
            let idx = nat (semid - 1)
            in if isbitset (sembmap s) idx then (Ret E_OBJ, s)
               else (Ret E_OK, fill_sem TFN_CRE_SEM idx c s))"

text \<open>\<open>queue_extract(&sem->semque)\<close>.\<close>

definition sem_extract :: "nat \<Rightarrow> kernel \<Rightarrow> nat option \<times> kernel" where
  "sem_extract idx s =
     (let r = queue_extract (semque (sem_pool s idx)) (nodes s)
      in (as_task (fst r),
          upd_sem idx (semque_update (\<lambda>_. fst (snd r))) s\<lparr>nodes := snd (snd r)\<rparr>))"

text \<open>The loop \<open>while (tsk = queue_extract(&sem->semque)) { ... }\<close>.\<close>

definition del_sem_loop :: "nat \<Rightarrow> kernel \<Rightarrow> kernel option" where
  "del_sem_loop idx s =
     drain (sem_extract idx) (\<lambda>t s. set_wobjid t E_DLT (rq_insert t s)) s"

definition del_sem_sys :: "int \<Rightarrow> kernel \<Rightarrow> outcome \<times> kernel" where
  "del_sem_sys semid s =
     (if semid < 1 \<or> semid > int CONFIG_MAX_SEM then (Ret E_ID, s)
      else
        let idx = nat (semid - 1)
        in if \<not> isbitset (sembmap s) idx then (Ret E_NOEXS, s)
           else
             case del_sem_loop idx (write_log TFN_DEL_SEM semid E_OK s) of
               None \<Rightarrow> (Fault, s)
             | Some s \<Rightarrow> (Ret E_OK, s\<lparr>sembmap := clearbit (sembmap s) idx\<rparr>))"

section \<open>Release and acquisition\<close>

definition sig_sem_sys :: "int \<Rightarrow> kernel \<Rightarrow> outcome \<times> kernel" where
  "sig_sem_sys semid s =
     (if semid < 1 \<or> semid > int CONFIG_MAX_SEM then (Ret E_ID, s)
      else
        let idx = nat (semid - 1)
        in if \<not> isbitset (sembmap s) idx then (Ret E_NOEXS, s)
           else if semcnt (sem_pool s idx) = maxsem (sem_pool s idx) then (Ret E_QOVR, s)
           else
             let (tsk, s) = sem_extract idx (write_log TFN_SIG_SEM semid E_OK s);
                 s = (case tsk of
                        Some t \<Rightarrow> rq_insert t (set_stat t TTS_RDY s)
                      | None \<Rightarrow> upd_sem idx (\<lambda>x. x\<lparr>semcnt := sint32 (semcnt x + 1)\<rparr>) s)
             in (Sched (K_ret E_OK), s))"

text \<open>Putting the caller on the wait queue of a semaphore, up to \<open>rq_remove(current_task)\<close>.\<close>

definition sem_enqueue :: "int \<Rightarrow> nat \<Rightarrow> int \<Rightarrow> kernel \<Rightarrow> kernel" where
  "sem_enqueue tfn idx semid s =
     (let t = current_task s;
          r = queue_insert (semque (sem_pool s idx)) (Syn t) (nodes s);
          s = upd_sem idx (semque_update (\<lambda>_. fst r)) s\<lparr>nodes := snd r\<rparr>;
          s = write_log tfn semid (uint TTS_WAI) s;
          s = upd_task t (\<lambda>x. x\<lparr>tskstat := TTS_WAI, tskwait := TTW_SEM, wobjid := semid\<rparr>) s
      in rq_remove t s)"

definition wai_sem_sys :: "int \<Rightarrow> kernel \<Rightarrow> outcome \<times> kernel" where
  "wai_sem_sys semid s =
     (if semid < 1 \<or> semid > int CONFIG_MAX_SEM then (Ret E_ID, s)
      else
        let idx = nat (semid - 1)
        in if \<not> isbitset (sembmap s) idx then (Ret E_NOEXS, s)
           else if semcnt (sem_pool s idx) \<ge> 1 then
             (Ret E_OK, write_log TFN_WAI_SEM semid E_OK
                (upd_sem idx (\<lambda>x. x\<lparr>semcnt := semcnt x - 1\<rparr>) s))
           else (Sched (K_wai_sem semid), sem_enqueue TFN_WAI_SEM idx semid s))"

definition wai_sem_resume :: "int \<Rightarrow> kernel \<Rightarrow> outcome \<times> kernel" where
  "wai_sem_resume semid s =
     (if wobjid (task_pool s (current_task s)) = E_DLT then (Ret E_DLT, s)
      else (Ret E_OK, write_log TFN_WAI_SEM semid E_OK s))"

definition twai_sem_sys :: "int \<Rightarrow> u32 \<Rightarrow> kernel \<Rightarrow> outcome \<times> kernel" where
  "twai_sem_sys semid tmout s =
     (if tmout = TMO_FEVR then wai_sem_sys semid s
      else if semid < 1 \<or> semid > int CONFIG_MAX_SEM then (Ret E_ID, s)
      else
        let idx = nat (semid - 1)
        in if \<not> isbitset (sembmap s) idx then (Ret E_NOEXS, s)
           else if semcnt (sem_pool s idx) \<ge> 1 then
             (Ret E_OK, write_log TFN_TWAI_SEM semid E_OK
                (upd_sem idx (\<lambda>x. x\<lparr>semcnt := semcnt x - 1\<rparr>) s))
           else
             case tq_insert (current_task s) tmout (sem_enqueue TFN_TWAI_SEM idx semid s) of
               None \<Rightarrow> (Fault, s)
             | Some s \<Rightarrow> (Sched (K_twai_sem semid), s))"

definition twai_sem_resume :: "int \<Rightarrow> kernel \<Rightarrow> outcome \<times> kernel" where
  "twai_sem_resume semid s =
     (let t = current_task s
      in if wobjid (task_pool s t) = E_DLT then (Ret E_DLT, s)
         else if wobjid (task_pool s t) = E_TMOUT then (Ret E_TMOUT, s)
         else (Ret E_OK, write_log TFN_TWAI_SEM semid E_OK (tq_remove t s)))"

section \<open>Identifiers\<close>

interpretation sem_ids: id_allocator sembmap CONFIG_MAX_SEM
  "\<lambda>p. case p of None \<Rightarrow> False | Some c \<Rightarrow> cs_isemcnt c \<le> cs_maxsem c \<and> cs_maxsem c \<noteq> 0"
  acre_sem_sys Ret
  by unfold_locales
    (auto simp: acre_sem_sys_def fill_sem_def upd_sem_def write_log_def Let_def cfg_defs not_less split: option.splits)

end
