(* ===== verification/Eventflags.thy ===== *)
theory Eventflags
  imports Tasks
begin

text \<open>
  Event flags (\<open>core/kernel/port/event.c\<close>): a 32-bit pattern, the tasks that wait for some or
  all bits of a pattern, and the walk of \<open>set_flg_sys\<close> along that queue.
\<close>

definition TFN_CRE_FLG :: int where "TFN_CRE_FLG = -0x29"
definition TFN_DEL_FLG :: int where "TFN_DEL_FLG = -0x2a"
definition TFN_SET_FLG :: int where "TFN_SET_FLG = -0x2b"
definition TFN_WAI_FLG :: int where "TFN_WAI_FLG = -0x2d"

record T_CFLG =
  cf_exinf :: u32
  cf_flgatr :: u32
  cf_iflgptn :: u32

definition upd_flg :: "nat \<Rightarrow> (eventflag_t \<Rightarrow> eventflag_t) \<Rightarrow> kernel \<Rightarrow> kernel" where
  "upd_flg i f s = s\<lparr>flg_pool := (flg_pool s)(i := f (flg_pool s i))\<rparr>"

definition init_flg_pool :: "kernel \<Rightarrow> kernel" where
  "init_flg_pool s =
     s\<lparr>active_flg := None, flgbmap := clearbitmap, flg_pool := (\<lambda>_. flg_zero),
       nodes := (\<lambda>n. case n of ActFlg _ \<Rightarrow> node_zero | _ \<Rightarrow> nodes s n)\<rparr>"

definition clr_flg_sys :: "int \<Rightarrow> u32 \<Rightarrow> kernel \<Rightarrow> outcome \<times> kernel" where
  "clr_flg_sys flgid clrptn s =
     (if clrptn = -1 then (Ret E_OK, s)
      else if flgid < 1 \<or> flgid > int CONFIG_MAX_EVENT then (Ret E_ID, s)
      else
        let idx = nat (flgid - 1)
        in if \<not> isbitset (flgbmap s) idx then (Ret E_NOEXS, s)
           else (Ret E_OK, upd_flg idx (\<lambda>x. x\<lparr>flgptn := flgptn x AND clrptn\<rparr>) s))"

text \<open>The assignments of \<open>cre_flg_sys\<close> from the \<open>memset\<close> to the list of active flags.\<close>

definition fill_flg :: "nat \<Rightarrow> T_CFLG \<Rightarrow> kernel \<Rightarrow> kernel" where
  "fill_flg idx c s =
     (let s = upd_flg idx (\<lambda>_. flg_zero\<lparr>flgatr := cf_flgatr c\<rparr>) s;
          s = s\<lparr>nodes := (nodes s)(ActFlg idx := node_zero), flgbmap := setbit (flgbmap s) idx\<rparr>;
          s = write_log TFN_CRE_FLG (int idx + 1) E_OK s;
          s = s\<lparr>nodes := set_this (ActFlg idx) (Some (Flg idx)) (nodes s)\<rparr>;
          r = insert_linked_list (active_flg s) (ActFlg idx) (nodes s)
      in s\<lparr>active_flg := fst r, nodes := snd r\<rparr>)"

definition cre_flg_sys :: "int \<Rightarrow> T_CFLG option \<Rightarrow> kernel \<Rightarrow> outcome \<times> kernel" where
  "cre_flg_sys flgid pk_cflg s =
     (if flgid < 1 \<or> flgid > int CONFIG_MAX_EVENT then (Ret E_ID, s)
      else case pk_cflg of
        None \<Rightarrow> (Ret E_PAR, s)
      | Some c \<Rightarrow>
          let idx = nat (flgid - 1)
          in if isbitset (flgbmap s) idx then (Ret E_OBJ, s)
             else (Ret E_OK, fill_flg idx c s))"

definition flg_extract :: "nat \<Rightarrow> kernel \<Rightarrow> nat option \<times> kernel" where
  "flg_extract idx s =
     (let r = queue_extract (flgque (flg_pool s idx)) (nodes s)
      in (as_task (fst r),
          upd_flg idx (flgque_update (\<lambda>_. fst (snd r))) s\<lparr>nodes := snd (snd r)\<rparr>))"

definition del_flg_loop :: "nat \<Rightarrow> kernel \<Rightarrow> kernel option" where
  "del_flg_loop idx s =
     drain (flg_extract idx) (\<lambda>t s. set_wobjid t E_DLT (rq_insert t (set_stat t TTS_RDY s))) s"

definition del_flg_sys :: "int \<Rightarrow> kernel \<Rightarrow> outcome \<times> kernel" where
  "del_flg_sys flgid s =
     (if flgid < 1 \<or> flgid > int CONFIG_MAX_EVENT then (Ret E_ID, s)
      else
        let idx = nat (flgid - 1)
        in if \<not> isbitset (flgbmap s) idx then (Ret E_NOEXS, s)
           else
             case del_flg_loop idx (write_log TFN_DEL_FLG flgid E_OK s) of
               None \<Rightarrow> (Fault, s)
             | Some s \<Rightarrow> (Sched (K_ret E_OK), s\<lparr>flgbmap := clearbit (flgbmap s) idx\<rparr>))"

section \<open>Setting a pattern\<close>

text \<open>The release condition of \<open>set_flg_sys\<close>.\<close>

definition flg_releases :: "u32 \<Rightarrow> task_t \<Rightarrow> bool" where
  "flg_releases ptn tsk \<longleftrightarrow>
     (let ptnmatch = wflgptn tsk AND ptn
      in ptnmatch \<noteq> 0 \<and>
         (wflgatr tsk AND TWF_ORW = 0 \<longrightarrow> ptnmatch = wflgptn tsk))"

definition flg_release :: "nat \<Rightarrow> nat \<Rightarrow> kernel \<Rightarrow> kernel" where
  "flg_release idx tsk s =
     (let r = queue_remove (flgque (flg_pool s idx)) (Syn tsk) (nodes s);
          s = upd_flg idx (flgque_update (\<lambda>_. fst r)) s\<lparr>nodes := snd r\<rparr>
      in rq_insert tsk (set_stat tsk TTS_RDY s))"

text \<open>The \<open>for\<close> loop over the wait queue. The state is the node \<open>slist\<close> and the kernel;
  \<open>None\<close> for \<open>slist\<close> ends the loop, as \<open>break\<close> does. After a release the step
  \<open>slist = slist->next\<close> reads the link that \<open>queue_remove\<close> has just cleared. A node whose
  \<open>this\<close> is null is followed in the code; the walk then has no result.\<close>

definition set_flg_step :: "nat \<Rightarrow> node option \<times> kernel \<Rightarrow> node option \<times> kernel" where
  "set_flg_step idx = (\<lambda>(slist, s). case slist of
     None \<Rightarrow> (None, s)
   | Some n \<Rightarrow>
       (case as_task (ll_this (nodes s n)) of
          None \<Rightarrow> (Some n, s)
        | Some tsk \<Rightarrow>
            if flg_releases (flgptn (flg_pool s idx)) (task_pool s tsk) then
              let s = flg_release idx tsk s
              in if flgatr (flg_pool s idx) AND TA_CLR \<noteq> 0 then
                   (None, upd_flg idx (flgptn_update (\<lambda>_. 0)) s)
                 else if flgatr (flg_pool s idx) AND TA_WMUL = 0 then (None, s)
                 else (ll_next (nodes s n), s)
            else (ll_next (nodes s n), s)))"

definition set_flg_loop :: "nat \<Rightarrow> kernel \<Rightarrow> kernel option" where
  "set_flg_loop idx s =
     map_option snd
       (while_option (\<lambda>(slist, s). slist \<noteq> None) (set_flg_step idx)
         (head (flgque (flg_pool s idx)), s))"

definition set_flg_sys :: "int \<Rightarrow> u32 \<Rightarrow> kernel \<Rightarrow> outcome \<times> kernel" where
  "set_flg_sys flgid setptn s =
     (if setptn = 0 then (Ret E_OK, s)
      else if flgid < 1 \<or> flgid > int CONFIG_MAX_EVENT then (Ret E_ID, s)
      else
        let idx = nat (flgid - 1)
        in if \<not> isbitset (flgbmap s) idx then (Ret E_NOEXS, s)
           else
             let s1 = upd_flg idx (\<lambda>x. x\<lparr>flgptn := flgptn x OR setptn\<rparr>) s;
                 s1 = write_log TFN_SET_FLG flgid E_OK s1
             in if queue_is_empty (flgque (flg_pool s1 idx)) then (Sched (K_ret E_OK), s1)
                else case set_flg_loop idx s1 of
                  None \<Rightarrow> (Fault, s)
                | Some s2 \<Rightarrow> (Sched (K_ret E_OK), s2))"

section \<open>Waiting for a pattern\<close>

definition wai_flg_match :: "u32 \<Rightarrow> u32 \<Rightarrow> u32 \<Rightarrow> u32" where
  "wai_flg_match waiptn wfmode ptn =
     (let ptnmatch = waiptn AND ptn
      in if ptnmatch \<noteq> 0 \<and> wfmode AND TWF_ORW = 0 \<and> ptnmatch \<noteq> waiptn then 0 else ptnmatch)"

definition wai_flg_sys :: "int \<Rightarrow> u32 \<Rightarrow> u32 \<Rightarrow> u32 \<Rightarrow> kernel \<Rightarrow> outcome \<times> kernel" where
  "wai_flg_sys flgid waiptn wfmode p_flgptn s =
     (if waiptn = 0 then (Ret E_PAR, s)
      else if wfmode > 1 then (Ret E_PAR, s)
      else if p_flgptn = 0 then (Ret E_PAR, s)
      else if flgid < 1 \<or> flgid > int CONFIG_MAX_EVENT then (Ret E_ID, s)
      else
        let idx = nat (flgid - 1)
        in if \<not> isbitset (flgbmap s) idx then (Ret E_NOEXS, s)
           else if flgatr (flg_pool s idx) AND TA_WMUL = 0 \<and>
                   \<not> queue_is_empty (flgque (flg_pool s idx)) then (Ret E_ILUSE, s)
           else if wai_flg_match waiptn wfmode (flgptn (flg_pool s idx)) \<noteq> 0 then
             let s = s\<lparr>kmem := (kmem s)(p_flgptn := flgptn (flg_pool s idx))\<rparr>;
                 s = (if flgatr (flg_pool s idx) AND TA_CLR \<noteq> 0
                      then upd_flg idx (flgptn_update (\<lambda>_. 0)) s else s)
             in (Ret E_OK, write_log TFN_WAI_FLG flgid E_OK s)
           else
             let t = current_task s;
                 s = upd_task t (wflgptn_update (\<lambda>_. waiptn)) s;
                 r = queue_insert (flgque (flg_pool s idx)) (Syn t) (nodes s);
                 s = upd_flg idx (flgque_update (\<lambda>_. fst r)) s\<lparr>nodes := snd r\<rparr>;
                 s = write_log TFN_WAI_FLG flgid (uint TTS_WAI) s;
                 s = upd_task t (\<lambda>x. x\<lparr>tskstat := TTS_WAI, tskwait := TTW_FLG\<rparr>) s
             in (Sched (K_wai_flg flgid), rq_remove t s))"

definition wai_flg_resume :: "int \<Rightarrow> kernel \<Rightarrow> outcome \<times> kernel" where
  "wai_flg_resume flgid s =
     (if wobjid (task_pool s (current_task s)) = E_DLT
      then (Ret E_DLT, write_log TFN_WAI_FLG flgid E_DLT s)
      else (Ret E_OK, write_log TFN_WAI_FLG flgid E_OK s))"

end
