(* ===== verification/Mpool.thy ===== *)
theory Mpool
  imports Obelisk_Prelude
begin

text \<open>
  The fixed-size block allocator (\<open>core/libc/mpool.c\<close>, \<open>core/include/mpool.h\<close>) on
  word-addressed memory. A pool is the address of a \<open>struct mpool\<close>: \<open>blksz\<close> at offset 0,
  \<open>blkcnt\<close> at 4, \<open>poolend\<close> at 8, \<open>free\<close> at 12, \<open>freeidx\<close> at 16 and the blocks
  from offset 20. \<open>freeidx\<close> has type \<open>struct mpool_block *\<close>, whose size is 4, so adding
  \<open>n\<close> to it moves the address by \<open>4 * n\<close>.
\<close>

type_synonym mem = "u32 \<Rightarrow> u32"

abbreviation (input) mp_blksz :: "u32 \<Rightarrow> u32" where "mp_blksz p \<equiv> p"
abbreviation (input) mp_blkcnt :: "u32 \<Rightarrow> u32" where "mp_blkcnt p \<equiv> p + 4"
abbreviation (input) mp_poolend :: "u32 \<Rightarrow> u32" where "mp_poolend p \<equiv> p + 8"
abbreviation (input) mp_free :: "u32 \<Rightarrow> u32" where "mp_free p \<equiv> p + 12"
abbreviation (input) mp_freeidx :: "u32 \<Rightarrow> u32" where "mp_freeidx p \<equiv> p + 16"
abbreviation (input) mp_base :: "u32 \<Rightarrow> u32" where "mp_base p \<equiv> p + 20"

definition mpfree :: "u32 \<Rightarrow> u32 \<Rightarrow> mem \<Rightarrow> mem" where
  "mpfree pool blk m =
     (let b = blk - 4;
          m = m(b := m (mp_free pool))
      in m(mp_free pool := b))"

definition mpalloc :: "u32 \<Rightarrow> mem \<Rightarrow> u32 \<times> mem" where
  "mpalloc pool m =
     (if m (mp_free pool) = 0 then
        if m (mp_freeidx pool) = m (mp_poolend pool) then (0, m)
        else
          let blk = m (mp_freeidx pool);
              m = m(mp_freeidx pool := m (mp_freeidx pool) + 4 * (m (mp_blksz pool) + 4));
              m = m(blk := 0)
          in (blk + 4, m)
      else
        let blk = m (mp_free pool);
            m = m(mp_free pool := m (m (mp_free pool)));
            m = m(blk := 0)
        in (blk + 4, m))"

definition init_pool :: "u32 \<Rightarrow> u32 \<Rightarrow> u32 \<Rightarrow> mem \<Rightarrow> mem" where
  "init_pool base blksz blkcnt m =
     (let m = m(mp_blksz base := blksz);
          m = m(mp_blkcnt base := blkcnt);
          m = m(mp_free base := 0);
          m = m(mp_freeidx base := mp_base base)
      in m(mp_poolend base :=
             m (mp_freeidx base) + 4 * (m (mp_blkcnt base) * (m (mp_blksz base) + 4))))"

text \<open>\<open>POOL_SIZE\<close>: the number of bytes a client sets aside for a pool.\<close>

definition POOL_SIZE :: "u32 \<Rightarrow> u32 \<Rightarrow> u32" where
  "POOL_SIZE blksz blkcnt = 20 + blkcnt * (blksz + 4)"

end
