(* ===== verification/Mailboxes.thy ===== *)
theory Mailboxes
  imports Tasks Mpool
begin

text \<open>
  Mailboxes (\<open>core/kernel/port/mailbox.c\<close>). A message head is a block of the kernel's message
  pool: the user's pointer \<open>msgdat\<close> at its first word, its list node in \<open>nodes\<close> as
  \<open>MsgQ\<close> of its address.
\<close>

definition TFN_CRE_MBX :: int where "TFN_CRE_MBX = -0x3d"
definition TFN_DEL_MBX :: int where "TFN_DEL_MBX = -0x3e"
definition TFN_SND_MBX :: int where "TFN_SND_MBX = -0x3f"
definition TFN_RCV_MBX :: int where "TFN_RCV_MBX = -0x41"
definition TFN_TRCV_MBX :: int where "TFN_TRCV_MBX = -0x43"
definition TFN_ACRE_MBX :: int where "TFN_ACRE_MBX = -0xc5"

record T_CMBX =
  cm_mbxatr :: u32
  cm_maxmpri :: u32
  cm_mprihd :: u32

definition upd_mbx :: "nat \<Rightarrow> (mailbox_t \<Rightarrow> mailbox_t) \<Rightarrow> kernel \<Rightarrow> kernel" where
  "upd_mbx i f s = s\<lparr>mbx_pool := (mbx_pool s)(i := f (mbx_pool s i))\<rparr>"

text \<open>The size of \<open>struct mbox_msg_head\<close>: a pointer and a list node of three pointers.\<close>

definition mbox_msg_head_size :: u32 where
  "mbox_msg_head_size = 16"

text \<open>\<open>pool\<close> is what \<open>malloc_ex\<close> returns for the message pool.\<close>

definition init_mbox_pool :: "u32 \<Rightarrow> kernel \<Rightarrow> kernel" where
  "init_mbox_pool pool s =
     (let s = s\<lparr>mbxbmap := clearbitmap, mbx_pool := (\<lambda>_. mbx_zero), msg_pool := pool\<rparr>
      in s\<lparr>kmem := init_pool pool mbox_msg_head_size (of_nat CONFIG_MAX_MAILBOX_MSG) (kmem s)\<rparr>)"

section \<open>Creation and deletion\<close>

definition acre_mbx_sys :: "T_CMBX option \<Rightarrow> kernel \<Rightarrow> outcome \<times> kernel" where
  "acre_mbx_sys pk_cmbx s =
     (case pk_cmbx of
        None \<Rightarrow> (Ret E_PAR, s)
      | Some c \<Rightarrow>
          let idx = ffc (mbxbmap s); mbxid = idx + 1
          in if mbxid < 1 \<or> mbxid > int CONFIG_MAX_MAILBOX then (Ret E_NOID, s)
             else
               let s = upd_mbx (nat idx)
                         (\<lambda>_. mbx_zero\<lparr>mbxatr := cm_mbxatr c, maxmpri := cm_maxmpri c\<rparr>) s;
                   s = s\<lparr>mbxbmap := setbit (mbxbmap s) (nat idx)\<rparr>
               in (Ret mbxid, write_log TFN_ACRE_MBX mbxid E_OK s))"

definition cre_mbx_sys :: "int \<Rightarrow> T_CMBX option \<Rightarrow> kernel \<Rightarrow> outcome \<times> kernel" where
  "cre_mbx_sys mbxid pk_cmbx s =
     (if mbxid < 1 \<or> mbxid > int CONFIG_MAX_MAILBOX then (Ret E_ID, s)
      else case pk_cmbx of
        None \<Rightarrow> (Ret E_PAR, s)
      | Some c \<Rightarrow>
          let idx = nat (mbxid - 1)
          in if isbitset (mbxbmap s) idx then (Ret E_OBJ, s)
             else
               let s = upd_mbx idx
                         (\<lambda>_. mbx_zero\<lparr>mbxatr := cm_mbxatr c, maxmpri := cm_maxmpri c\<rparr>) s;
                   s = s\<lparr>mbxbmap := setbit (mbxbmap s) idx\<rparr>
               in (Ret E_OK, write_log TFN_CRE_MBX mbxid E_OK s))"

definition mbx_extract_task :: "nat \<Rightarrow> kernel \<Rightarrow> nat option \<times> kernel" where
  "mbx_extract_task idx s =
     (let r = queue_extract (mbxque (mbx_pool s idx)) (nodes s)
      in (as_task (fst r),
          upd_mbx idx (mbxque_update (\<lambda>_. fst (snd r))) s\<lparr>nodes := snd (snd r)\<rparr>))"

definition mbx_extract_msg :: "nat \<Rightarrow> kernel \<Rightarrow> u32 option \<times> kernel" where
  "mbx_extract_msg idx s =
     (let r = queue_extract (msgque (mbx_pool s idx)) (nodes s)
      in (as_msg (fst r),
          upd_mbx idx (msgque_update (\<lambda>_. fst (snd r))) s\<lparr>nodes := snd (snd r)\<rparr>))"

definition msg_free :: "u32 \<Rightarrow> kernel \<Rightarrow> kernel" where
  "msg_free msg s = s\<lparr>kmem := mpfree (msg_pool s) msg (kmem s)\<rparr>"

definition del_mbx_wake_loop :: "nat \<Rightarrow> kernel \<Rightarrow> kernel option" where
  "del_mbx_wake_loop idx s =
     drain (mbx_extract_task idx) (\<lambda>t s. set_wobjid t E_DLT (rq_insert t (set_stat t TTS_RDY s))) s"

definition del_mbx_msg_loop :: "nat \<Rightarrow> kernel \<Rightarrow> kernel option" where
  "del_mbx_msg_loop idx s =
     drain (mbx_extract_msg idx) msg_free s"

definition del_mbx_sys :: "int \<Rightarrow> kernel \<Rightarrow> outcome \<times> kernel" where
  "del_mbx_sys mbxid s =
     (if mbxid < 1 \<or> mbxid > int CONFIG_MAX_MAILBOX then (Ret E_ID, s)
      else
        let idx = nat (mbxid - 1)
        in if \<not> isbitset (mbxbmap s) idx then (Ret E_NOEXS, s)
           else
             case del_mbx_wake_loop idx (write_log TFN_DEL_MBX mbxid E_OK s) of
               None \<Rightarrow> (Fault, s)
             | Some s1 \<Rightarrow>
                 (case del_mbx_msg_loop idx s1 of
                    None \<Rightarrow> (Fault, s)
                  | Some s2 \<Rightarrow> (Sched (K_ret E_OK), s2\<lparr>mbxbmap := clearbit (mbxbmap s2) idx\<rparr>)))"

section \<open>Receiving\<close>

text \<open>Putting the caller on the mailbox's wait queue, up to \<open>rq_remove(current_task)\<close>;
  \<open>arg\<close> is what is logged.\<close>

definition mbx_enqueue :: "int \<Rightarrow> int \<Rightarrow> nat \<Rightarrow> int \<Rightarrow> kernel \<Rightarrow> kernel" where
  "mbx_enqueue tfn arg idx mbxid s =
     (let t = current_task s;
          r = queue_insert (mbxque (mbx_pool s idx)) (Syn t) (nodes s);
          s = upd_mbx idx (mbxque_update (\<lambda>_. fst r)) s\<lparr>nodes := snd r\<rparr>;
          s = write_log tfn mbxid arg s;
          s = upd_task t (\<lambda>x. x\<lparr>tskstat := TTS_WAI, tskwait := TTW_MBX, wobjid := mbxid\<rparr>) s
      in rq_remove t s)"

text \<open>Taking the message at the head of the message queue: \<open>msg = queue_extract(...)\<close>,
  \<open>*ppk_msg = msg->msgdat\<close>, \<open>mpfree(msg_pool, msg)\<close>. The message is not null because
  the queue is not empty; a null one is followed.\<close>

definition mbx_take :: "int \<Rightarrow> int \<Rightarrow> nat \<Rightarrow> int \<Rightarrow> u32 \<Rightarrow> kernel \<Rightarrow> outcome \<times> kernel" where
  "mbx_take tfn arg idx mbxid ppk_msg s =
     (case mbx_extract_msg idx s of
        (None, s) \<Rightarrow> (Fault, s)
      | (Some msg, s) \<Rightarrow>
          let s = s\<lparr>kmem := (kmem s)(ppk_msg := kmem s msg)\<rparr>
          in (Ret E_OK, write_log tfn mbxid arg (msg_free msg s)))"

definition rcv_mbx_sys :: "int \<Rightarrow> u32 \<Rightarrow> kernel \<Rightarrow> outcome \<times> kernel" where
  "rcv_mbx_sys mbxid ppk_msg s =
     (if mbxid < 1 \<or> mbxid > int CONFIG_MAX_MAILBOX then (Ret E_ID, s)
      else if ppk_msg = 0 then (Ret E_PAR, s)
      else
        let idx = nat (mbxid - 1)
        in if \<not> isbitset (mbxbmap s) idx then (Ret E_NOEXS, s)
           else if queue_is_empty (msgque (mbx_pool s idx)) then
             (Sched (K_rcv_mbx mbxid ppk_msg), mbx_enqueue TFN_RCV_MBX (uint TTS_WAI) idx mbxid s)
           else mbx_take TFN_TRCV_MBX E_OK idx mbxid ppk_msg s)"

text \<open>The message handed over by the sender is in \<open>extdat\<close>; a null one is followed.\<close>

definition mbx_accept :: "int \<Rightarrow> int \<Rightarrow> int \<Rightarrow> u32 \<Rightarrow> kernel \<Rightarrow> outcome \<times> kernel" where
  "mbx_accept tfn arg mbxid ppk_msg s =
     (let msg = extdat (task_pool s (current_task s))
      in if msg = 0 then (Fault, s)
         else
           let s = s\<lparr>kmem := (kmem s)(ppk_msg := kmem s msg)\<rparr>
           in (Ret E_OK, write_log tfn mbxid arg (msg_free msg s)))"

definition rcv_mbx_resume :: "int \<Rightarrow> u32 \<Rightarrow> kernel \<Rightarrow> outcome \<times> kernel" where
  "rcv_mbx_resume mbxid ppk_msg s =
     (let t = current_task s
      in if wobjid (task_pool s t) = E_DLT
         then (Ret E_DLT, set_wobjid t 0 (write_log TFN_RCV_MBX mbxid E_DLT s))
         else mbx_accept TFN_RCV_MBX E_OK mbxid ppk_msg s)"

definition trcv_mbx_sys :: "int \<Rightarrow> u32 \<Rightarrow> u32 \<Rightarrow> kernel \<Rightarrow> outcome \<times> kernel" where
  "trcv_mbx_sys mbxid ppk_msg tmout s =
     (if tmout = TMO_FEVR then rcv_mbx_sys mbxid ppk_msg s
      else if mbxid < 1 \<or> mbxid > int CONFIG_MAX_MAILBOX then (Ret E_ID, s)
      else if ppk_msg = 0 then (Ret E_PAR, s)
      else
        let idx = nat (mbxid - 1)
        in if \<not> isbitset (mbxbmap s) idx then (Ret E_NOEXS, s)
           else if queue_is_empty (msgque (mbx_pool s idx)) then
             case tq_insert (current_task s) tmout
                    (mbx_enqueue TFN_TRCV_MBX (uint tmout) idx mbxid s) of
               None \<Rightarrow> (Fault, s)
             | Some s \<Rightarrow> (Sched (K_trcv_mbx mbxid ppk_msg tmout), s)
           else mbx_take TFN_TRCV_MBX (uint tmout) idx mbxid ppk_msg s)"

definition trcv_mbx_resume :: "int \<Rightarrow> u32 \<Rightarrow> u32 \<Rightarrow> kernel \<Rightarrow> outcome \<times> kernel" where
  "trcv_mbx_resume mbxid ppk_msg tmout s =
     (let t = current_task s; idx = nat (mbxid - 1)
      in if wobjid (task_pool s t) = E_TMOUT then
           let r = queue_remove (mbxque (mbx_pool s idx)) (Syn t) (nodes s);
               s = upd_mbx idx (mbxque_update (\<lambda>_. fst r)) s\<lparr>nodes := snd r\<rparr>
           in (Ret E_TMOUT, set_wobjid t 0 s)
         else if wobjid (task_pool s t) = E_DLT then
           (Ret E_DLT, set_wobjid t 0 (write_log TFN_TRCV_MBX mbxid E_DLT s))
         else
           let msg = extdat (task_pool s t)
           in if msg = 0 then (Fault, s)
              else
                let s = s\<lparr>kmem := (kmem s)(ppk_msg := kmem s msg)\<rparr>;
                    s = tq_remove t (msg_free msg s)
                in (Ret E_OK, write_log TFN_TRCV_MBX mbxid (uint tmout) s))"

section \<open>Reference and sending\<close>

definition ref_mbx_sys :: "int \<Rightarrow> u32 \<Rightarrow> kernel \<Rightarrow> outcome \<times> kernel" where
  "ref_mbx_sys mbxid pk_rmbx s =
     (if mbxid < 1 \<or> mbxid > int CONFIG_MAX_MAILBOX then (Ret E_ID, s)
      else if pk_rmbx = 0 then (Ret E_PAR, s)
      else
        let idx = nat (mbxid - 1)
        in if \<not> isbitset (mbxbmap s) idx then (Ret E_NOEXS, s)
           else
             let wtskid = (case as_task (queue_get_head (mbxque (mbx_pool s idx)) (nodes s)) of
                             None \<Rightarrow> TSK_NONE | Some t \<Rightarrow> tskid (task_pool s t));
                 s = s\<lparr>kmem := (kmem s)(pk_rmbx := word_of_int wtskid)\<rparr>;
                 pk_msg = (case as_msg (queue_get_head (msgque (mbx_pool s idx)) (nodes s)) of
                             None \<Rightarrow> 0 | Some m \<Rightarrow> kmem s m)
             in (Ret E_OK, s\<lparr>kmem := (kmem s)(pk_rmbx + 4 := pk_msg)\<rparr>))"

definition snd_mbx_sys :: "int \<Rightarrow> u32 \<Rightarrow> kernel \<Rightarrow> outcome \<times> kernel" where
  "snd_mbx_sys mbxid pk_msg s =
     (if mbxid < 1 \<or> mbxid > int CONFIG_MAX_MAILBOX then (Ret E_ID, s)
      else if pk_msg = 0 then (Ret E_PAR, s)
      else
        let idx = nat (mbxid - 1)
        in if \<not> isbitset (mbxbmap s) idx then (Ret E_NOEXS, s)
           else
             let r = mpalloc (msg_pool s) (kmem s); msg = fst r
             in if msg = 0 then (Fault, s)
                else
                  let s = s\<lparr>kmem := (snd r)(msg := pk_msg),
                            nodes := set_this (MsgQ msg) (Some (Msg msg)) (nodes s)\<rparr>;
                      s = write_log TFN_SND_MBX mbxid E_OK s
                  in if \<not> queue_is_empty (mbxque (mbx_pool s idx)) then
                       (case mbx_extract_task idx s of
                          (None, s) \<Rightarrow> (Fault, s)
                        | (Some t, s) \<Rightarrow>
                            (Sched (K_ret E_OK),
                             rq_insert t (upd_task t (\<lambda>x. x\<lparr>tskstat := TTS_RDY, extdat := msg\<rparr>) s)))
                     else
                       let r = queue_insert (msgque (mbx_pool s idx)) (MsgQ msg) (nodes s)
                       in (Sched (K_ret E_OK),
                           upd_mbx idx (msgque_update (\<lambda>_. fst r)) s\<lparr>nodes := snd r\<rparr>))"

section \<open>Identifiers\<close>

interpretation mbx_ids: id_allocator mbxbmap CONFIG_MAX_MAILBOX "\<lambda>p. p \<noteq> None" acre_mbx_sys Ret
  by unfold_locales
    (auto simp: acre_mbx_sys_def upd_mbx_def write_log_def Let_def cfg_defs not_less split: option.splits)

end
