(* ===== verification/Mempools.thy ===== *)
theory Mempools
  imports Tasks Mpool
begin

text \<open>
  Fixed-size memory pools (\<open>core/kernel/port/mempool.c\<close>) on top of the block allocator of
  \<open>mpool.c\<close>.
\<close>

definition TFN_CRE_MPF :: int where "TFN_CRE_MPF = -0x45"
definition TFN_DEL_MPF :: int where "TFN_DEL_MPF = -0x46"
definition TFN_REL_MPF :: int where "TFN_REL_MPF = -0x47"
definition TFN_GET_MPF :: int where "TFN_GET_MPF = -0x49"

record T_CMPF =
  cp_mpfatr :: u32
  cp_blkcnt :: u32
  cp_blksz :: u32
  cp_mpf :: u32

definition ALIGN32 :: "u32 \<Rightarrow> u32" where
  "ALIGN32 x = (x + 0x3) AND NOT 0x3"

definition upd_mpf :: "nat \<Rightarrow> (mpfpool_t \<Rightarrow> mpfpool_t) \<Rightarrow> kernel \<Rightarrow> kernel" where
  "upd_mpf i f s = s\<lparr>mpf_pool := (mpf_pool s)(i := f (mpf_pool s i))\<rparr>"

definition init_mpf_pool :: "kernel \<Rightarrow> kernel" where
  "init_mpf_pool s = s\<lparr>mpfbmap := clearbitmap, mpf_pool := (\<lambda>_. mpf_zero)\<rparr>"

definition cre_mpf_sys :: "int \<Rightarrow> T_CMPF option \<Rightarrow> kernel \<Rightarrow> outcome \<times> kernel" where
  "cre_mpf_sys mpfid pk_cmpf s =
     (if mpfid < 1 \<or> mpfid > int CONFIG_MAX_FMPOOL then (Ret E_PAR, s)
      else case pk_cmpf of
        None \<Rightarrow> (Ret E_PAR, s)
      | Some c \<Rightarrow>
          if cp_blksz c = 0 then (Ret E_PAR, s)
          else
            let idx = nat (mpfid - 1)
            in if isbitset (mpfbmap s) idx then (Ret E_OBJ, s)
               else
                 let s = upd_mpf idx (\<lambda>_. mpf_zero\<lparr>blksz := ALIGN32 (cp_blksz c), mpf := cp_mpf c,
                                        blkcnt := cp_blkcnt c, mpfatr := cp_mpfatr c\<rparr>) s;
                     p = mpf_pool s idx;
                     s = s\<lparr>kmem := init_pool (mpf p) (blksz p) (blkcnt p) (kmem s),
                           mpfbmap := setbit (mpfbmap s) idx\<rparr>
                 in (Ret E_OK, write_log TFN_CRE_MPF mpfid E_OK s))"

definition mpf_extract :: "nat \<Rightarrow> kernel \<Rightarrow> nat option \<times> kernel" where
  "mpf_extract idx s =
     (let r = queue_extract (mpfque (mpf_pool s idx)) (nodes s)
      in (as_task (fst r),
          upd_mpf idx (mpfque_update (\<lambda>_. fst (snd r))) s\<lparr>nodes := snd (snd r)\<rparr>))"

definition del_mpf_loop :: "nat \<Rightarrow> kernel \<Rightarrow> kernel option" where
  "del_mpf_loop idx s =
     drain (mpf_extract idx) (\<lambda>t s. rq_insert t (set_stat t TTS_RDY (set_wobjid t E_DLT s))) s"

definition del_mpf_sys :: "int \<Rightarrow> kernel \<Rightarrow> outcome \<times> kernel" where
  "del_mpf_sys mpfid s =
     (if mpfid < 1 \<or> mpfid > int CONFIG_MAX_FMPOOL then (Ret E_PAR, s)
      else
        let idx = nat (mpfid - 1)
        in if \<not> isbitset (mpfbmap s) idx then (Ret E_NOEXS, s)
           else
             let s1 = write_log TFN_DEL_MPF mpfid E_OK s
             in case (if queue_is_empty (mpfque (mpf_pool s1 idx)) then Some s1
                      else del_mpf_loop idx s1) of
                  None \<Rightarrow> (Fault, s)
                | Some s2 \<Rightarrow> (Sched (K_ret E_OK), s2\<lparr>mpfbmap := clearbit (mpfbmap s2) idx\<rparr>))"

definition get_mpf_sys :: "int \<Rightarrow> u32 \<Rightarrow> kernel \<Rightarrow> outcome \<times> kernel" where
  "get_mpf_sys mpfid p_blk s =
     (if mpfid < 1 \<or> mpfid > int CONFIG_MAX_FMPOOL then (Ret E_PAR, s)
      else if p_blk = 0 then (Ret E_PAR, s)
      else
        let idx = nat (mpfid - 1)
        in if \<not> isbitset (mpfbmap s) idx then (Ret E_NOEXS, s)
           else
             let r = mpalloc (mpf (mpf_pool s idx)) (kmem s); blk = fst r; s = s\<lparr>kmem := snd r\<rparr>
             in if blk = 0 then
                  let t = current_task s;
                      r = queue_insert (mpfque (mpf_pool s idx)) (Syn t) (nodes s);
                      s = upd_mpf idx (mpfque_update (\<lambda>_. fst r)) s\<lparr>nodes := snd r\<rparr>;
                      s = write_log TFN_GET_MPF mpfid (uint TTS_WAI) s;
                      s = upd_task t (\<lambda>x. x\<lparr>tskstat := TTS_WAI, tskwait := TTW_MPF\<rparr>) s
                  in (Sched (K_get_mpf mpfid p_blk), rq_remove t s)
                else (Ret E_OK, s\<lparr>kmem := (kmem s)(p_blk := blk)\<rparr>))"

definition get_mpf_resume :: "int \<Rightarrow> u32 \<Rightarrow> kernel \<Rightarrow> outcome \<times> kernel" where
  "get_mpf_resume mpfid p_blk s =
     (let t = current_task s
      in if wobjid (task_pool s t) = E_DLT then (Ret E_DLT, s)
         else (Ret E_OK, s\<lparr>kmem := (kmem s)(p_blk := extdat (task_pool s t))\<rparr>))"

definition rel_mpf_sys :: "int \<Rightarrow> u32 \<Rightarrow> kernel \<Rightarrow> outcome \<times> kernel" where
  "rel_mpf_sys mpfid blk s =
     (if mpfid < 1 \<or> mpfid > int CONFIG_MAX_FMPOOL then (Ret E_PAR, s)
      else if blk = 0 then (Ret E_PAR, s)
      else
        let idx = nat (mpfid - 1)
        in if \<not> isbitset (mpfbmap s) idx then (Ret E_NOEXS, s)
           else
             let p = mpf_pool s idx
             in if blk < mpf p \<or> blk > mpf p + blkcnt p * blksz p then (Ret E_PAR, s)
                else if \<not> queue_is_empty (mpfque p) then
                  (case mpf_extract idx (write_log TFN_REL_MPF mpfid E_OK s) of
                     (None, s) \<Rightarrow> (Fault, s)
                   | (Some t, s) \<Rightarrow>
                       (Sched (K_ret E_OK), rq_insert t (upd_task t (extdat_update (\<lambda>_. blk)) s)))
                else (Sched (K_ret E_OK), s\<lparr>kmem := mpfree (mpf p) blk (kmem s)\<rparr>))"

end
