(* ===== verification/Kernel_Inv.thy ===== *)
theory Kernel_Inv
  imports Semaphores Eventflags Mailboxes Mempools
begin

text \<open>
  The invariant of the kernel state. A state represents a view: the tasks \<open>Q i\<close> ready at priority
  \<open>i\<close>, the tasks \<open>W w\<close> on the wait queue \<open>w\<close>, the tasks \<open>T\<close> on the timeout queue.
  \<open>task_ok\<close> says of one task how its fields agree with the queues it is on; \<open>kinvw\<close> puts
  this together with the conditions on the running task, on the objects with waiting tasks and on the
  semaphore counts. The lemmas of this theory carry the invariant through the primitive changes the
  system calls are made of.
\<close>

section \<open>Views\<close>

definition krep :: "kernel \<Rightarrow> (nat \<Rightarrow> nat list) \<Rightarrow> (wq \<Rightarrow> nat list) \<Rightarrow> nat list \<Rightarrow> bool" where
  "krep s Q W T \<longleftrightarrow> rq_rep s Q \<and> wq_rep s W \<and> tq_rep s T"

lemma krep_rq: "krep s Q W T \<Longrightarrow> rq_rep s Q"
  and krep_wq: "krep s Q W T \<Longrightarrow> wq_rep s W"
  and krep_tq: "krep s Q W T \<Longrightarrow> tq_rep s T"
  by (simp_all add: krep_def)

lemma krep_family: "krep s Q W T \<Longrightarrow> family_rep Syn (nodes s) (wqueue s) W"
  by (simp add: krep_def wq_rep_def)

lemma krep_cong:
  assumes "\<And>t. same_links (nodes s') (nodes s) (Rdy t)" "\<And>t. same_links (nodes s') (nodes s) (Syn t)"
    and "\<And>t. same_links (nodes s') (nodes s) (Slp t)"
    and "prioqueue s' = prioqueue s" "priobmap s' = priobmap s" "wqueue s' = wqueue s"
    and "timeout_queue s' = timeout_queue s"
    and "\<And>t. t \<in> set T \<Longrightarrow> wuptim (task_pool s' t) = wuptim (task_pool s t)"
  shows "krep s' Q W T = krep s Q W T"
proof -
  have "rq_rep s' Q = rq_rep s Q" "wq_rep s' W = wq_rep s W" "tq_rep s' T = tq_rep s T"
    by (rule rq_rep_cong wq_rep_cong tq_rep_cong; fact assms)+
  then show ?thesis
    by (simp add: krep_def)
qed

text \<open>What the primitives do to the view.\<close>

lemma wqueue_cong:
  assumes "sem_pool s' = sem_pool s" "flg_pool s' = flg_pool s" "mbx_pool s' = mbx_pool s"
    and "mpf_pool s' = mpf_pool s"
  shows "wqueue s' = wqueue s"
  unfolding wqueue_def assms ..

lemma krep_rq_changed:
  assumes "krep s Q W T" "rq_rep s' Q'" "\<And>n. n \<notin> range Rdy \<Longrightarrow> nodes s' n = nodes s n"
    and "wqueue s' = wqueue s" "timeout_queue s' = timeout_queue s"
    and "\<And>t. wuptim (task_pool s' t) = wuptim (task_pool s t)"
  shows "krep s' Q' W T"
proof -
  have "wq_rep s' W = wq_rep s W"
    by (rule wq_rep_cong) (auto simp: assms(3,4))
  moreover have "tq_rep s' T = tq_rep s T"
    by (rule tq_rep_cong) (auto simp: assms(3,5,6))
  ultimately show ?thesis
    using assms(1,2) by (simp add: krep_def)
qed

lemma krep_rq_insert:
  assumes "krep s Q W T" "\<forall>i. t \<notin> set (Q i)" "p = tskpri (task_pool s t)" "p < PRIORITY_LEVELS"
  shows "krep (rq_insert t s) (Q(p := Q p @ [t])) W T"
  using rq_insert_nodes [OF krep_rq [OF assms(1)]]
  by (intro krep_rq_changed [OF assms(1) rq_insert_rep [OF krep_rq [OF assms(1)] assms(2-4)]]
      wqueue_cong) simp_all

lemma krep_rq_remove:
  assumes "krep s Q W T" "p = tskpri (task_pool s t)" "t \<in> set (Q p)"
  shows "krep (rq_remove t s) (Q(p := remove1 t (Q p))) W T"
  using rq_remove_nodes [OF krep_rq [OF assms(1)], of t] assms(2,3)
  by (intro krep_rq_changed [OF assms(1) rq_remove_rep [OF krep_rq [OF assms(1)] assms(2,3)]]
      wqueue_cong) simp_all

lemma krep_rq_relocate:
  assumes "krep s Q W T" "i = tskpri (task_pool s t)" "t \<in> set (Q i)" "p < PRIORITY_LEVELS"
  shows "krep (rq_relocate t p s) ((Q(i := remove1 t (Q i)))(p := (Q(i := remove1 t (Q i))) p @ [t])) W T"
  using rq_relocate_nodes [OF krep_rq [OF assms(1)], of t] assms(2,3)
  by (intro krep_rq_changed [OF assms(1) rq_relocate_rep [OF krep_rq [OF assms(1)] assms(2-4)]]
      wqueue_cong) simp_all

text \<open>A change of one wait queue: the new state differs from the old one in the \<open>synque\<close> nodes
  and in the queue \<open>w\<close>.\<close>

definition wq_changed :: "wq \<Rightarrow> node queue_t \<Rightarrow> nodes_t \<Rightarrow> kernel \<Rightarrow> kernel \<Rightarrow> bool" where
  "wq_changed w q st s s' \<longleftrightarrow>
     wqueue s' = (wqueue s)(w := q) \<and> nodes s' = st \<and> prioqueue s' = prioqueue s \<and>
     priobmap s' = priobmap s \<and> timeout_queue s' = timeout_queue s \<and> task_pool s' = task_pool s"

lemma krep_wq_changed:
  assumes "krep s Q W T" "wq_changed w q st s s'" "family_rep Syn st ((wqueue s)(w := q)) W'"
    and "\<And>n. n \<notin> range Syn \<Longrightarrow> st n = nodes s n"
  shows "krep s' Q W' T"
proof -
  have s': "nodes s' = st" "prioqueue s' = prioqueue s" "priobmap s' = priobmap s"
      "timeout_queue s' = timeout_queue s" "task_pool s' = task_pool s"
    using assms(2) by (simp_all add: wq_changed_def)
  have "rq_rep s' Q = rq_rep s Q"
    by (rule rq_rep_cong) (auto simp: s' assms(4))
  moreover have "tq_rep s' T = tq_rep s T"
    by (rule tq_rep_cong) (auto simp: s' assms(4))
  ultimately show ?thesis
    using assms(1-3) by (simp add: krep_def wq_rep_def wq_changed_def)
qed

lemma krep_wq_insert:
  assumes "krep s Q W T" "\<forall>v. t \<notin> set (W v)" "r = queue_insert (wqueue s w) (Syn t) (nodes s)"
    and "wq_changed w (fst r) (snd r) s s'"
  shows "krep s' Q (W(w := W w @ [t])) T"
  using krep_wq_changed [OF assms(1,4) synq.family_insert [OF krep_family [OF assms(1)] assms(2,3)]]
    synq.family_insert_frame [OF krep_family [OF assms(1)]] assms(3) by simp

lemma krep_wq_remove:
  assumes "krep s Q W T" "t \<in> set (W w)" "r = queue_remove (wqueue s w) (Syn t) (nodes s)"
    and "wq_changed w (fst r) (snd r) s s'"
  shows "krep s' Q (W(w := remove1 t (W w))) T"
  using krep_wq_changed [OF assms(1,4) synq.family_remove [OF krep_family [OF assms(1)] assms(2,3)]]
    synq.family_remove_frame [OF krep_family [OF assms(1)] assms(2)] assms(3) by simp

lemma krep_wq_extract:
  assumes "krep s Q W T" "W w = t # ts" "r = queue_extract (wqueue s w) (nodes s)"
    and "wq_changed w (fst (snd r)) (snd (snd r)) s s'"
  shows "krep s' Q (W(w := ts)) T" "fst r = ll_this (nodes s (Syn t))"
  using krep_wq_changed [OF assms(1,4) synq.family_extract(1) [OF krep_family [OF assms(1)] assms(2,3)]]
    synq.family_extract_frame [OF krep_family [OF assms(1)]]
    synq.family_extract(2) [OF krep_family [OF assms(1)] assms(2,3)] assms(3) by simp_all

lemma krep_wq_empty:
  assumes "krep s Q W T" "W w = []"
  shows "queue_extract (wqueue s w) (nodes s) = (None, wqueue s w, nodes s)"
  using synq.family_extract_empty [OF krep_family [OF assms(1)] assms(2)] .

lemma krep_wq_is_empty:
  "krep s Q W T \<Longrightarrow> queue_is_empty (wqueue s w) \<longleftrightarrow> W w = []"
  using family_rep_empty_iff [OF krep_family] by (simp add: queue_is_empty_def)

section \<open>The invariant\<close>

text \<open>One task: its identity when it exists, the back pointers of its nodes, and how its state agrees
  with the queues it is on.\<close>

definition task_ok ::
  "kernel \<Rightarrow> (nat \<Rightarrow> nat list) \<Rightarrow> (wq \<Rightarrow> nat list) \<Rightarrow> nat list \<Rightarrow> nat \<Rightarrow> bool" where
  "task_ok s Q W T t \<longleftrightarrow>
     (bit (taskbmap s) t \<longrightarrow> t < MAX_TASKS \<and> tskid (task_pool s t) = int t + 1 \<and>
        tskpri (task_pool s t) < PRIORITY_LEVELS) \<and>
     (bit (taskbmap s) t \<and> t \<noteq> idle_task s \<longrightarrow>
        ll_this (nodes s (Rdy t)) = Some (Tsk t) \<and> ll_this (nodes s (Syn t)) = Some (Tsk t) \<and>
        ll_this (nodes s (Slp t)) = Some (Tsk t)) \<and>
     (t \<noteq> idle_task s \<and> tskstat (task_pool s t) \<in> {TTS_RUN, TTS_RDY} \<longrightarrow>
        t \<in> set (Q (tskpri (task_pool s t)))) \<and>
     (\<forall>i. t \<in> set (Q i) \<longrightarrow> bit (taskbmap s) t \<and> t \<noteq> idle_task s \<and> i = tskpri (task_pool s t) \<and>
        tskstat (task_pool s t) \<noteq> TTS_DMT \<and> (\<forall>w. t \<notin> set (W w)) \<and> t \<notin> set T) \<and>
     (\<forall>w. t \<in> set (W w) \<longrightarrow> bit (taskbmap s) t \<and> t \<noteq> idle_task s \<and>
        tskstat (task_pool s t) = TTS_WAI \<and> t \<notin> set T) \<and>
     (t \<in> set T \<longrightarrow> bit (taskbmap s) t \<and> t \<noteq> idle_task s \<and> tskstat (task_pool s t) = TTS_WAI)"

text \<open>The running task: it is ready, or idle, or on its way into \<open>scheduler()\<close>. Every other task
  has a saved point to continue from.\<close>

definition sys_ok :: "kernel \<Rightarrow> (nat \<Rightarrow> nat list) \<Rightarrow> bool" where
  "sys_ok s Q \<longleftrightarrow>
     bit (taskbmap s) (idle_task s) \<and> tskstat (task_pool s (idle_task s)) \<noteq> TTS_DMT \<and>
     int_nest_count s = 0 \<and> dispatching s \<and>
     (current_task s = idle_task s \<or> (\<exists>k. kctx s (current_task s) = Some (Calling k)) \<or>
        current_task s \<in> set (Q (tskpri (task_pool s (current_task s))))) \<and>
     (\<forall>t. bit (taskbmap s) t \<and> t \<noteq> current_task s \<longrightarrow> (\<exists>k. kctx s t = Some (Resuming k)))"

definition obj_exists :: "kernel \<Rightarrow> wq \<Rightarrow> bool" where
  "obj_exists s w = (case w of WSem i \<Rightarrow> bit (sembmap s) i | WFlg i \<Rightarrow> bit (flgbmap s) i
     | WMbx i \<Rightarrow> bit (mbxbmap s) i | WMpf i \<Rightarrow> bit (mpfbmap s) i)"

text \<open>A semaphore count stays between zero and its maximum, and tasks wait only when it is zero.\<close>

definition sem_ok :: "semaphore_t \<Rightarrow> nat list \<Rightarrow> bool" where
  "sem_ok sem ws \<longleftrightarrow> 0 \<le> semcnt sem \<and> semcnt sem \<le> maxsem sem \<and> maxsem sem < 2 ^ 31 \<and>
     (ws \<noteq> [] \<longrightarrow> semcnt sem = 0)"

definition obj_ok :: "kernel \<Rightarrow> (wq \<Rightarrow> nat list) \<Rightarrow> bool" where
  "obj_ok s W \<longleftrightarrow> (\<forall>w. W w \<noteq> [] \<longrightarrow> obj_exists s w) \<and>
     (\<forall>i. bit (sembmap s) i \<longrightarrow> sem_ok (sem_pool s i) (W (WSem i)))"

text \<open>The message queues and the lists of active objects link only nodes of their own kind.\<close>

definition opt_in :: "node option \<Rightarrow> node set \<Rightarrow> bool" where
  "opt_in v A \<longleftrightarrow> (case v of None \<Rightarrow> True | Some n \<Rightarrow> n \<in> A)"

definition lists_ok :: "kernel \<Rightarrow> bool" where
  "lists_ok s \<longleftrightarrow>
     (\<forall>m. opt_in (ll_next (nodes s (MsgQ m))) (range MsgQ) \<and>
          opt_in (ll_prev (nodes s (MsgQ m))) (range MsgQ)) \<and>
     (\<forall>i. opt_in (head (msgque (mbx_pool s i))) (range MsgQ) \<and>
          opt_in (tail (msgque (mbx_pool s i))) (range MsgQ)) \<and>
     opt_in (active_sem s) (range ActSem) \<and> opt_in (active_flg s) (range ActFlg)"

definition kinvw ::
  "kernel \<Rightarrow> (nat \<Rightarrow> nat list) \<Rightarrow> (wq \<Rightarrow> nat list) \<Rightarrow> nat list \<Rightarrow> bool" where
  "kinvw s Q W T \<longleftrightarrow>
     krep s Q W T \<and> (\<forall>t. task_ok s Q W T t) \<and> sys_ok s Q \<and> obj_ok s W \<and> lists_ok s"

definition kinv :: "kernel \<Rightarrow> bool" where
  "kinv s \<longleftrightarrow> (\<exists>Q W T. kinvw s Q W T)"

lemma kinvw_krep: "kinvw s Q W T \<Longrightarrow> krep s Q W T"
  and kinvw_task: "kinvw s Q W T \<Longrightarrow> task_ok s Q W T t"
  and kinvw_sys: "kinvw s Q W T \<Longrightarrow> sys_ok s Q"
  and kinvw_obj: "kinvw s Q W T \<Longrightarrow> obj_ok s W"
  and kinvw_lists: "kinvw s Q W T \<Longrightarrow> lists_ok s"
  by (simp_all add: kinvw_def)

text \<open>A task on no queue.\<close>

definition off_queues :: "(nat \<Rightarrow> nat list) \<Rightarrow> (wq \<Rightarrow> nat list) \<Rightarrow> nat list \<Rightarrow> nat \<Rightarrow> bool" where
  "off_queues Q W T t \<longleftrightarrow> (\<forall>i. t \<notin> set (Q i)) \<and> (\<forall>w. t \<notin> set (W w)) \<and> t \<notin> set T"

section \<open>Changes that the invariant does not see\<close>

lemma task_ok_cong:
  assumes "tskid (task_pool s' t) = tskid (task_pool s t)" "tskpri (task_pool s' t) = tskpri (task_pool s t)"
    and "tskstat (task_pool s' t) = tskstat (task_pool s t)"
    and "bit (taskbmap s') t = bit (taskbmap s) t" "idle_task s' = idle_task s"
    and "\<And>n. n \<in> {Rdy t, Syn t, Slp t} \<Longrightarrow> ll_this (nodes s' n) = ll_this (nodes s n)"
    and "\<And>i. t \<in> set (Q' i) \<longleftrightarrow> t \<in> set (Q i)" "\<And>w. t \<in> set (W' w) \<longleftrightarrow> t \<in> set (W w)"
    and "t \<in> set T' \<longleftrightarrow> t \<in> set T"
  shows "task_ok s' Q' W' T' t = task_ok s Q W T t"
  by (simp add: task_ok_def assms)

lemma kinvw_cong:
  assumes "nodes s' = nodes s" "prioqueue s' = prioqueue s" "priobmap s' = priobmap s"
    and "wqueue s' = wqueue s" "timeout_queue s' = timeout_queue s"
    and "taskbmap s' = taskbmap s" "idle_task s' = idle_task s" "current_task s' = current_task s"
    and "int_nest_count s' = int_nest_count s" "dispatching s' = dispatching s" "kctx s' = kctx s"
    and "sembmap s' = sembmap s" "flgbmap s' = flgbmap s" "mbxbmap s' = mbxbmap s" "mpfbmap s' = mpfbmap s"
    and "active_sem s' = active_sem s" "active_flg s' = active_flg s"
    and "\<And>i. semcnt (sem_pool s' i) = semcnt (sem_pool s i)" "\<And>i. maxsem (sem_pool s' i) = maxsem (sem_pool s i)"
    and "\<And>i. msgque (mbx_pool s' i) = msgque (mbx_pool s i)"
    and "\<And>t. tskid (task_pool s' t) = tskid (task_pool s t)" "\<And>t. tskpri (task_pool s' t) = tskpri (task_pool s t)"
    and "\<And>t. tskstat (task_pool s' t) = tskstat (task_pool s t)"
    and "\<And>t. t \<in> set T \<Longrightarrow> wuptim (task_pool s' t) = wuptim (task_pool s t)"
  shows "kinvw s' Q W T = kinvw s Q W T"
proof -
  have "krep s' Q W T = krep s Q W T"
    by (rule krep_cong) (simp_all add: assms)
  moreover have "task_ok s' Q W T t = task_ok s Q W T t" for t
    by (rule task_ok_cong) (simp_all add: assms)
  moreover have "sys_ok s' Q = sys_ok s Q" "lists_ok s' = lists_ok s"
    by (simp_all add: sys_ok_def lists_ok_def assms)
  moreover have "obj_ok s' W = obj_ok s W"
    by (simp add: obj_ok_def obj_exists_def sem_ok_def assms split: wq.splits)
  ultimately show ?thesis
    by (simp add: kinvw_def)
qed

lemma wqueue_frame [simp]:
  "wqueue (write_log e a b s) = wqueue s" "wqueue (upd_task t f s) = wqueue s"
  "wqueue (rq_insert t s) = wqueue s" "wqueue (rq_remove t s) = wqueue s"
  "wqueue (rq_relocate t p s) = wqueue s" "wqueue (tq_wake_one t s) = wqueue s"
  "wqueue (scheduler s) = wqueue s" "wqueue (s\<lparr>kmem := m\<rparr>) = wqueue s"
  "wqueue (s\<lparr>kctx := x\<rparr>) = wqueue s" "wqueue (s\<lparr>taskbmap := bm\<rparr>) = wqueue s"
  "wqueue (s\<lparr>nodes := st\<rparr>) = wqueue s" "wqueue (s\<lparr>prioqueue := pq\<rparr>) = wqueue s"
  "wqueue (s\<lparr>priobmap := bm\<rparr>) = wqueue s" "wqueue (s\<lparr>timeout_queue := h\<rparr>) = wqueue s"
  "wqueue (s\<lparr>system_time := tm\<rparr>) = wqueue s" "wqueue (s\<lparr>tot_idle := cy\<rparr>) = wqueue s"
  "wqueue (s\<lparr>cycles := cy\<rparr>) = wqueue s"
  by (rule wqueue_cong; simp)+

lemma kinvw_log [simp]: "kinvw (write_log e a b s) Q W T = kinvw s Q W T"
  by (rule kinvw_cong) simp_all

lemma kinvw_kmem [simp]: "kinvw (s\<lparr>kmem := m\<rparr>) Q W T = kinvw s Q W T"
  by (rule kinvw_cong) simp_all

lemma kinvw_upd_task:
  assumes "tskid (f (task_pool s t)) = tskid (task_pool s t)" "tskpri (f (task_pool s t)) = tskpri (task_pool s t)"
    and "tskstat (f (task_pool s t)) = tskstat (task_pool s t)" "wuptim (f (task_pool s t)) = wuptim (task_pool s t)"
  shows "kinvw (upd_task t f s) Q W T = kinvw s Q W T"
  by (rule kinvw_cong) (simp_all add: assms)

text \<open>A change that concerns one task only.\<close>

lemma kinvw_one_task:
  assumes "kinvw s Q W T" "krep s' Q' W' T'" "task_ok s' Q' W' T' c"
    and "\<And>t. t \<noteq> c \<Longrightarrow> task_ok s' Q' W' T' t = task_ok s Q W T t"
    and "sys_ok s' Q'" "obj_ok s' W'" "lists_ok s'"
  shows "kinvw s' Q' W' T'"
  using assms by (metis kinvw_def)

section \<open>Making a task ready\<close>

lemma krep_upd_task:
  assumes "t \<notin> set T \<or> wuptim (f (task_pool s t)) = wuptim (task_pool s t)"
  shows "krep (upd_task t f s) Q W T = krep s Q W T"
  by (rule krep_cong) (use assms in auto)

lemma lists_ok_cong:
  assumes "\<And>m. nodes s' (MsgQ m) = nodes s (MsgQ m)" "\<And>i. msgque (mbx_pool s' i) = msgque (mbx_pool s i)"
    and "active_sem s' = active_sem s" "active_flg s' = active_flg s"
  shows "lists_ok s' = lists_ok s"
  by (simp add: lists_ok_def assms)

lemma obj_ok_cong:
  assumes "sembmap s' = sembmap s" "flgbmap s' = flgbmap s" "mbxbmap s' = mbxbmap s" "mpfbmap s' = mpfbmap s"
    and "\<And>i. semcnt (sem_pool s' i) = semcnt (sem_pool s i)" "\<And>i. maxsem (sem_pool s' i) = maxsem (sem_pool s i)"
  shows "obj_ok s' W = obj_ok s W"
  by (simp add: obj_ok_def obj_exists_def sem_ok_def assms split: wq.splits)

lemma kinvw_pri: "kinvw s Q W T \<Longrightarrow> bit (taskbmap s) t \<Longrightarrow> tskpri (task_pool s t) < PRIORITY_LEVELS"
  using kinvw_task [of s Q W T t] by (simp add: task_ok_def)

lemma kinvw_ready:
  assumes K: "kinvw s Q W T" and t: "bit (taskbmap s) t" "t \<noteq> idle_task s" "off_queues Q W T t"
    and x: "x = task_pool s t" "p = tskpri x"
    and f: "tskid (f x) = tskid x" "tskpri (f x) = tskpri x" "tskstat (f x) \<noteq> TTS_DMT"
  shows "kinvw (rq_insert t (upd_task t f s)) (Q(p := Q p @ [t])) W T"
proof -
  let ?u = "upd_task t f s"
  have rep: "krep ?u Q W T"
    using kinvw_krep [OF K] t(3) krep_upd_task [of t T f s] by (simp add: off_queues_def)
  note n = rq_insert_nodes [OF krep_rq [OF rep], of _ t]
  show ?thesis
  proof (rule kinvw_one_task [OF K, where c = t])
    show "krep (rq_insert t ?u) (Q(p := Q p @ [t])) W T"
      using krep_rq_insert [OF rep, of t p] t(3) x f(2) kinvw_pri [OF K t(1)] by (simp add: off_queues_def)
    show "task_ok (rq_insert t ?u) (Q(p := Q p @ [t])) W T t"
      using kinvw_task [OF K, of t] t x f by (auto simp: task_ok_def off_queues_def)
    show "task_ok (rq_insert t ?u) (Q(p := Q p @ [t])) W T u = task_ok s Q W T u" if "u \<noteq> t" for u
      using that by (intro task_ok_cong) auto
    show "sys_ok (rq_insert t ?u) (Q(p := Q p @ [t]))"
      using kinvw_sys [OF K] x t f by (auto simp: sys_ok_def)
    show "obj_ok (rq_insert t ?u) W"
      using kinvw_obj [OF K] obj_ok_cong [of "rq_insert t ?u" s] by simp
    show "lists_ok (rq_insert t ?u)"
      using kinvw_lists [OF K] n lists_ok_cong [of "rq_insert t ?u" s] by simp
  qed
qed

text \<open>\<open>act_tsk_sys\<close> changes the state after the insertion.\<close>

lemma kinvw_ready':
  assumes "kinvw s Q W T" "bit (taskbmap s) t" "t \<noteq> idle_task s" "off_queues Q W T t"
    and "p = tskpri (task_pool s t)" "v \<noteq> TTS_DMT"
  shows "kinvw (set_stat t v (rq_insert t s)) (Q(p := Q p @ [t])) W T"
proof -
  let ?f = "tskstat_update (\<lambda>_. v)"
  have "kinvw (set_stat t v (rq_insert t s)) (Q(p := Q p @ [t])) W T =
      kinvw (rq_insert t (upd_task t ?f s)) (Q(p := Q p @ [t])) W T"
    by (rule kinvw_cong) (simp_all add: rq_insert_def rq_link_def Let_def)
  then show ?thesis
    using kinvw_ready [OF assms(1-4) refl, of p ?f] assms(5,6) by simp
qed

section \<open>Taking a task off a wait queue\<close>

text \<open>\<open>wq_update\<close>: a step that changes one wait queue and \<open>synque\<close> nodes and nothing else the
  invariant reads.\<close>

definition wq_update :: "wq \<Rightarrow> node queue_t \<Rightarrow> nodes_t \<Rightarrow> kernel \<Rightarrow> kernel \<Rightarrow> bool" where
  "wq_update w q st s s' \<longleftrightarrow> wq_changed w q st s s' \<and>
     taskbmap s' = taskbmap s \<and> idle_task s' = idle_task s \<and> current_task s' = current_task s \<and>
     int_nest_count s' = int_nest_count s \<and> dispatching s' = dispatching s \<and> kctx s' = kctx s \<and>
     sembmap s' = sembmap s \<and> flgbmap s' = flgbmap s \<and> mbxbmap s' = mbxbmap s \<and> mpfbmap s' = mpfbmap s \<and>
     active_sem s' = active_sem s \<and> active_flg s' = active_flg s \<and>
     (\<forall>i. semcnt (sem_pool s' i) = semcnt (sem_pool s i)) \<and>
     (\<forall>i. maxsem (sem_pool s' i) = maxsem (sem_pool s i)) \<and>
     (\<forall>i. msgque (mbx_pool s' i) = msgque (mbx_pool s i))"

lemma wqueue_upd [simp]:
  "sp = sem_pool s \<Longrightarrow> wqueue (s\<lparr>sem_pool := sp(i := sem)\<rparr>) = (wqueue s)(WSem i := semque sem)"
  "fp = flg_pool s \<Longrightarrow> wqueue (s\<lparr>flg_pool := fp(i := flg)\<rparr>) = (wqueue s)(WFlg i := flgque flg)"
  "bp = mbx_pool s \<Longrightarrow> wqueue (s\<lparr>mbx_pool := bp(i := mbx)\<rparr>) = (wqueue s)(WMbx i := mbxque mbx)"
  "pp = mpf_pool s \<Longrightarrow> wqueue (s\<lparr>mpf_pool := pp(i := pool)\<rparr>) = (wqueue s)(WMpf i := mpfque pool)"
  by (rule ext; auto simp: wqueue_def split: wq.splits)+

lemma wq_update_sem: "wq_update (WSem i) q st s (upd_sem i (semque_update (\<lambda>_. q)) s\<lparr>nodes := st\<rparr>)"
  and wq_update_flg: "wq_update (WFlg i) q st s (upd_flg i (flgque_update (\<lambda>_. q)) s\<lparr>nodes := st\<rparr>)"
  and wq_update_mbx: "wq_update (WMbx i) q st s (upd_mbx i (mbxque_update (\<lambda>_. q)) s\<lparr>nodes := st\<rparr>)"
  and wq_update_mpf: "wq_update (WMpf i) q st s (upd_mpf i (mpfque_update (\<lambda>_. q)) s\<lparr>nodes := st\<rparr>)"
  by (simp_all add: wq_update_def wq_changed_def upd_sem_def upd_flg_def upd_mbx_def upd_mpf_def)

lemma wq_update_krep: "wq_update w q st s s' \<Longrightarrow> wq_changed w q st s s'"
  by (simp add: wq_update_def)

lemma kinvw_leave:
  assumes K: "kinvw s Q W T" and rep: "krep s' Q (W(w := ts)) T" and upd: "wq_update w q st s s'"
    and t: "t \<in> set (W w)" "t \<notin> set ts" "\<And>u. u \<noteq> t \<Longrightarrow> u \<in> set ts \<longleftrightarrow> u \<in> set (W w)"
    and st: "\<And>n. ll_this (st n) = ll_this (nodes s n)" "\<And>n. n \<notin> range Syn \<Longrightarrow> st n = nodes s n"
  shows "kinvw s' Q (W(w := ts)) T"
    and "bit (taskbmap s') t" "t \<noteq> idle_task s'" "off_queues Q (W(w := ts)) T t"
    and "tskstat (task_pool s' t) = TTS_WAI" "task_pool s' = task_pool s"
proof -
  have eq: "nodes s' = st" "task_pool s' = task_pool s" "taskbmap s' = taskbmap s" "idle_task s' = idle_task s"
    using upd by (simp_all add: wq_update_def wq_changed_def)
  have only: "t \<notin> set (W v)" if "v \<noteq> w" for v
    using that t(1) family_rep_disjoint [OF krep_family [OF kinvw_krep [OF K]]] by blast
  have off: "off_queues Q (W(w := ts)) T t"
    using kinvw_task [OF K, of t] t(1,2) only by (auto simp: off_queues_def task_ok_def)
  then show "off_queues Q (W(w := ts)) T t" .
  show t_ok: "bit (taskbmap s') t" "t \<noteq> idle_task s'" "tskstat (task_pool s' t) = TTS_WAI"
    "task_pool s' = task_pool s"
    using kinvw_task [OF K, of t] t(1) eq by (auto simp: task_ok_def)
  show "kinvw s' Q (W(w := ts)) T"
  proof (rule kinvw_one_task [OF K rep])
    show "task_ok s' Q (W(w := ts)) T t"
      using kinvw_task [OF K, of t] off t_ok eq st(1)
      by (simp add: task_ok_def off_queues_def stat_defs)
    show "task_ok s' Q (W(w := ts)) T u = task_ok s Q W T u" if "u \<noteq> t" for u
      using that t(3) eq st(1) by (intro task_ok_cong) auto
    show "sys_ok s' Q"
      using kinvw_sys [OF K] upd by (simp add: sys_ok_def wq_update_def wq_changed_def)
    have "obj_ok s' W"
      using kinvw_obj [OF K] obj_ok_cong [of s' s W] upd by (simp add: wq_update_def)
    moreover have "ts \<noteq> [] \<Longrightarrow> W w \<noteq> []"
      using t(1) by auto
    ultimately show "obj_ok s' (W(w := ts))"
      by (auto simp: obj_ok_def sem_ok_def)
    show "lists_ok s'"
      using kinvw_lists [OF K] lists_ok_cong [of s' s] upd st(2) by (simp add: wq_update_def wq_changed_def)
  qed
qed

text \<open>\<open>queue_extract\<close> on a wait queue that is not empty.\<close>

lemma kinvw_extract:
  assumes K: "kinvw s Q W T" and w: "W w = t # ts" and r: "r = queue_extract (wqueue s w) (nodes s)"
    and upd: "wq_update w (fst (snd r)) (snd (snd r)) s s'"
  shows "kinvw s' Q (W(w := ts)) T" "as_task (fst r) = Some t"
    and "bit (taskbmap s') t" "t \<noteq> idle_task s'" "off_queues Q (W(w := ts)) T t"
    and "tskstat (task_pool s' t) = TTS_WAI" "task_pool s' = task_pool s"
proof -
  have rep: "krep s Q W T"
    using kinvw_krep [OF K] .
  note e = krep_wq_extract [OF rep w r wq_update_krep [OF upd]]
  have "distinct (t # ts)"
    using family_rep_distinct [OF krep_family [OF rep], of w] w by simp
  then have "t \<in> set (W w)" "t \<notin> set ts" "\<And>u. u \<noteq> t \<Longrightarrow> u \<in> set ts \<longleftrightarrow> u \<in> set (W w)"
    using w by auto
  moreover have "ll_this (snd (snd r) n) = ll_this (nodes s n)" for n
    using queue_extract_this [of "wqueue s w" "nodes s" "fst r" "fst (snd r)" "snd (snd r)"] r by simp
  moreover have "snd (snd r) n = nodes s n" if "n \<notin> range Syn" for n
    using synq.family_extract_frame [OF krep_family [OF rep] that] r by simp
  ultimately show "kinvw s' Q (W(w := ts)) T" "bit (taskbmap s') t" "t \<noteq> idle_task s'"
      "off_queues Q (W(w := ts)) T t" "tskstat (task_pool s' t) = TTS_WAI" "task_pool s' = task_pool s"
    using kinvw_leave [OF K e(1) upd] by blast+
  show "as_task (fst r) = Some t"
    using e(2) kinvw_task [OF K, of t] \<open>t \<in> set (W w)\<close> by (auto simp: task_ok_def)
qed

lemma kinvw_wq_remove:
  assumes K: "kinvw s Q W T" and t: "t \<in> set (W w)" and r: "r = queue_remove (wqueue s w) (Syn t) (nodes s)"
    and upd: "wq_update w (fst r) (snd r) s s'"
  shows "kinvw s' Q (W(w := remove1 t (W w))) T"
    and "bit (taskbmap s') t" "t \<noteq> idle_task s'" "off_queues Q (W(w := remove1 t (W w))) T t"
    and "task_pool s' = task_pool s"
proof -
  have rep: "krep s Q W T"
    using kinvw_krep [OF K] .
  have "distinct (W w)"
    using family_rep_distinct [OF krep_family [OF rep]] .
  then have "t \<notin> set (remove1 t (W w))" "\<And>u. u \<noteq> t \<Longrightarrow> u \<in> set (remove1 t (W w)) \<longleftrightarrow> u \<in> set (W w)"
    by auto
  moreover have "ll_this (snd r n) = ll_this (nodes s n)" for n
    using queue_remove_this [of "wqueue s w" "Syn t" "nodes s" "fst r" "snd r"] r by simp
  moreover have "snd r n = nodes s n" if "n \<notin> range Syn" for n
    using synq.family_remove_frame [OF krep_family [OF rep] t that] r by simp
  ultimately show "kinvw s' Q (W(w := remove1 t (W w))) T" "bit (taskbmap s') t" "t \<noteq> idle_task s'"
      "off_queues Q (W(w := remove1 t (W w))) T t" "task_pool s' = task_pool s"
    using kinvw_leave [OF K krep_wq_remove [OF rep t r wq_update_krep [OF upd]] upd t] by blast+
qed

text \<open>On an empty wait queue \<open>queue_extract\<close> changes nothing.\<close>

lemma kinvw_extract_empty:
  "kinvw s Q W T \<Longrightarrow> W w = [] \<Longrightarrow> queue_extract (wqueue s w) (nodes s) = (None, wqueue s w, nodes s)"
  using krep_wq_empty [OF kinvw_krep] .

section \<open>Blocking the running task\<close>

abbreviation (input) calling :: "nat \<Rightarrow> kcont \<Rightarrow> kernel \<Rightarrow> kernel" where
  "calling c k s \<equiv> s\<lparr>kctx := (kctx s)(c \<mapsto> Calling k)\<rparr>"

text \<open>At user level the running task is at its place in the ready queue.\<close>

definition user_level :: "kernel \<Rightarrow> bool" where
  "user_level s \<longleftrightarrow> current_task s \<noteq> idle_task s \<and> kctx s (current_task s) = None"

lemma kinvw_running:
  assumes "kinvw s Q W T" "user_level s" "c = current_task s"
  shows "c \<in> set (Q (tskpri (task_pool s c)))" "bit (taskbmap s) c" "c \<noteq> idle_task s"
    and "tskid (task_pool s c) = int c + 1" "\<And>w. c \<notin> set (W w)" "c \<notin> set T"
proof -
  show in_rq: "c \<in> set (Q (tskpri (task_pool s c)))"
    using kinvw_sys [OF assms(1)] assms(2,3) by (auto simp: sys_ok_def user_level_def)
  then show "bit (taskbmap s) c" "c \<noteq> idle_task s" "\<And>w. c \<notin> set (W w)" "c \<notin> set T"
    using kinvw_task [OF assms(1), of c] by (auto simp: task_ok_def)
  then show "tskid (task_pool s c) = int c + 1"
    using kinvw_task [OF assms(1), of c] by (auto simp: task_ok_def)
qed

lemma kinvw_unready:
  assumes K: "kinvw s Q W T" "user_level s" "c = current_task s" "p = tskpri (task_pool s c)"
  shows "c \<notin> set ((Q(p := remove1 c (Q p))) i)"
  using rq_unlinked [OF krep_rq [OF kinvw_krep [OF K(1)]]] kinvw_running(1) [OF K(1-3)] K(4) by blast

lemma task_ok_off_rq:
  assumes "t < MAX_TASKS" "tskid (task_pool s t) = int t + 1" "tskpri (task_pool s t) < PRIORITY_LEVELS"
    and "ll_this (nodes s (Rdy t)) = Some (Tsk t)" "ll_this (nodes s (Syn t)) = Some (Tsk t)"
      "ll_this (nodes s (Slp t)) = Some (Tsk t)"
    and "bit (taskbmap s) t" "t \<noteq> idle_task s" "tskstat (task_pool s t) \<in> {TTS_WAI, TTS_DMT}"
    and "\<And>i. t \<notin> set (Q i)" "\<And>w. t \<in> set (W w) \<Longrightarrow> t \<notin> set T"
    and "t \<in> set T \<or> (\<exists>w. t \<in> set (W w)) \<Longrightarrow> tskstat (task_pool s t) = TTS_WAI"
  shows "task_ok s Q W T t"
proof -
  have "tskstat (task_pool s t) \<notin> {TTS_RUN, TTS_RDY}"
    using assms(9) by (auto simp: stat_defs)
  then show ?thesis
    unfolding task_ok_def using assms(1-8,10-) by blast
qed

text \<open>A call that takes the running task off the ready queue and leaves it in the view
  \<open>(Q', W', T')\<close>; the state it enters is not one of a ready task.\<close>

lemma kinvw_blocked:
  assumes K: "kinvw s Q W T" "user_level s" "c = current_task s" "p = tskpri (task_pool s c)"
    and rep: "krep s' (Q(p := remove1 c (Q p))) W' T'"
    and pool: "\<And>t. t \<noteq> c \<Longrightarrow> task_pool s' t = task_pool s t"
    and c: "tskid (task_pool s' c) = int c + 1" "tskpri (task_pool s' c) = p"
      "tskstat (task_pool s' c) \<in> {TTS_WAI, TTS_DMT}"
      "c \<in> set T' \<or> (\<exists>w. c \<in> set (W' w)) \<Longrightarrow> tskstat (task_pool s' c) = TTS_WAI"
      "\<And>w. c \<in> set (W' w) \<Longrightarrow> c \<notin> set T'"
    and W': "\<And>t w. t \<noteq> c \<Longrightarrow> t \<in> set (W' w) \<longleftrightarrow> t \<in> set (W w)" "\<And>t. t \<noteq> c \<Longrightarrow> t \<in> set T' \<longleftrightarrow> t \<in> set T"
    and eq: "taskbmap s' = taskbmap s" "idle_task s' = idle_task s" "current_task s' = c"
      "int_nest_count s' = int_nest_count s" "dispatching s' = dispatching s" "kctx s' = kctx s"
      "\<And>n. ll_this (nodes s' n) = ll_this (nodes s n)"
    and obj: "obj_ok s' W'" and lists: "lists_ok s'"
  shows "kinvw (calling c k s') (Q(p := remove1 c (Q p))) W' T'"
proof -
  let ?s = "calling c k s'" and ?Q = "Q(p := remove1 c (Q p))"
  note run = kinvw_running [OF K(1-3)]
  show ?thesis
  proof (rule kinvw_one_task [OF K(1)])
    show "krep ?s ?Q W' T'"
      using rep krep_cong [of ?s s' T' ?Q W'] by simp
    show "task_ok ?s ?Q W' T' c"
    proof (rule task_ok_off_rq)
      show "c \<notin> set (?Q i)" for i
        using kinvw_unready [OF K] .
      show "tskstat (task_pool ?s c) = TTS_WAI" if "c \<in> set T' \<or> (\<exists>w. c \<in> set (W' w))"
        using c(4) [OF that] by simp
    qed (use kinvw_task [OF K(1), of c] run(2,3) c(1-3,5) eq K(4) in \<open>simp_all add: task_ok_def\<close>)
    show "task_ok ?s ?Q W' T' t = task_ok s Q W T t" if "t \<noteq> c" for t
      using that pool W' eq by (intro task_ok_cong) auto
    show "sys_ok ?s ?Q"
      using kinvw_sys [OF K(1)] K(3) run(3) eq pool [of "idle_task s"] by (auto simp: sys_ok_def)
    show "obj_ok ?s W'"
      using obj obj_ok_cong [of ?s s' W'] by simp
    show "lists_ok ?s"
      using lists lists_ok_cong [of ?s s'] by simp
  qed
qed

text \<open>Leaving the ready queue without joining another one.\<close>

lemma kinvw_sleep:
  assumes K: "kinvw s Q W T" "user_level s" "c = current_task s" "p = tskpri (task_pool s c)"
    and f: "tskid (f (task_pool s c)) = tskid (task_pool s c)" "tskpri (f (task_pool s c)) = p"
      "tskstat (f (task_pool s c)) \<in> {TTS_WAI, TTS_DMT}"
  shows "kinvw (calling c k (rq_remove c (upd_task c f s))) (Q(p := remove1 c (Q p))) W T"
proof -
  let ?u = "upd_task c f s"
  note run = kinvw_running [OF K(1-3)]
  have rep: "krep ?u Q W T"
    using kinvw_krep [OF K(1)] krep_upd_task [of c T f s] run(6) by simp
  have n: "nodes (rq_remove c ?u) m = nodes s m" if "m \<notin> range Rdy" for m
    using rq_remove_nodes [OF krep_rq [OF rep], of c m] that run(1) f(2) K(4) by simp
  show ?thesis
  proof (rule kinvw_blocked [OF K])
    show "krep (rq_remove c ?u) (Q(p := remove1 c (Q p))) W T"
      using krep_rq_remove [OF rep, of p c] f(2) run(1) K(4) by simp
    show "obj_ok (rq_remove c ?u) W"
      using kinvw_obj [OF K(1)] obj_ok_cong [of "rq_remove c ?u" s W] by simp
    show "lists_ok (rq_remove c ?u)"
      using kinvw_lists [OF K(1)] lists_ok_cong [of "rq_remove c ?u" s] n by simp
  qed (use f run K(3) in auto)
qed

text \<open>Joining the wait queue of an object and leaving the ready queue. For a semaphore the count is
  zero then.\<close>

lemma wq_update_log [simp]: "wq_update w q st s (write_log e a b s') = wq_update w q st s s'"
  by (simp add: wq_update_def wq_changed_def)

lemma kinvw_wait:
  assumes K: "kinvw s Q W T" "user_level s" "c = current_task s" "p = tskpri (task_pool s c)"
    and w: "obj_exists s w" "\<And>i. w = WSem i \<Longrightarrow> semcnt (sem_pool s i) = 0"
    and r: "r = queue_insert (wqueue s w) (Syn c) (nodes s)" and upd: "wq_update w (fst r) (snd r) s s1"
    and f: "tskid (f (task_pool s c)) = tskid (task_pool s c)" "tskpri (f (task_pool s c)) = p"
      "tskstat (f (task_pool s c)) = TTS_WAI"
  shows "kinvw (calling c k (rq_remove c (upd_task c f s1))) (Q(p := remove1 c (Q p))) (W(w := W w @ [c])) T"
proof -
  let ?u = "upd_task c f s1" and ?W = "W(w := W w @ [c])"
  note run = kinvw_running [OF K(1-3)]
  have eq: "nodes s1 = snd r" "task_pool s1 = task_pool s" "taskbmap s1 = taskbmap s" "idle_task s1 = idle_task s"
      "current_task s1 = current_task s" "int_nest_count s1 = int_nest_count s"
      "dispatching s1 = dispatching s" "kctx s1 = kctx s"
    using upd by (simp_all add: wq_update_def wq_changed_def)
  have "krep s1 Q ?W T"
    using krep_wq_insert [OF kinvw_krep [OF K(1)] _ r wq_update_krep [OF upd]] run(5) by blast
  then have rep: "krep ?u Q ?W T"
    using krep_upd_task [of c T f s1 Q ?W] run(6) by simp
  have own: "ll_this (snd r n) = ll_this (nodes s n)" for n
    using queue_insert_this [of "wqueue s w" "Syn c" "nodes s" "fst r" "snd r"] r by simp
  have n: "nodes (rq_remove c ?u) (MsgQ m) = nodes s (MsgQ m)" for m
    using rq_remove_nodes [OF krep_rq [OF rep], of c "MsgQ m"] run(1) f(2) K(4) eq r
      synq.family_insert_frame [OF krep_family [OF kinvw_krep [OF K(1)]], of "MsgQ m" w c] by simp
  show ?thesis
  proof (rule kinvw_blocked [OF K])
    show "krep (rq_remove c ?u) (Q(p := remove1 c (Q p))) ?W T"
      using krep_rq_remove [OF rep, of p c] f(2) run(1) K(4) eq(2) by simp
    have "obj_ok s1 W"
      using kinvw_obj [OF K(1)] obj_ok_cong [of s1 s W] upd by (simp add: wq_update_def)
    moreover have "obj_exists s1 w" "\<And>i. semcnt (sem_pool s1 i) = semcnt (sem_pool s i)"
      using w(1) upd by (auto simp: obj_exists_def wq_update_def split: wq.splits)
    ultimately have "obj_ok s1 ?W"
      using w(2) by (auto simp: obj_ok_def sem_ok_def)
    then show "obj_ok (rq_remove c ?u) ?W"
      using obj_ok_cong [of "rq_remove c ?u" s1 ?W] by simp
    show "lists_ok (rq_remove c ?u)"
      using kinvw_lists [OF K(1)] lists_ok_cong [of "rq_remove c ?u" s] n upd by (simp add: wq_update_def)
  qed (use f run K(3) eq own in \<open>auto split: if_splits\<close>)
qed

lemma kinvw_timed_sleep:
  assumes K: "kinvw s Q W T" "user_level s" "c = current_task s" "p = tskpri (task_pool s c)"
    and f: "\<And>x. tskid (f x) = tskid x" "\<And>x. tskpri (f x) = tskpri x" "\<And>x. wuptim (f x) = wuptim x"
      "\<And>x. tskstat (f x) = TTS_WAI"
  shows "\<exists>s1 T'. tq_insert c tmout s = Some s1 \<and>
    kinvw (calling c k (rq_remove c (upd_task c f (write_log e a b s1)))) (Q(p := remove1 c (Q p))) W T'"
proof -
  note run = kinvw_running [OF K(1-3)]
  define s0 where "s0 = upd_task c (wuptim_update (\<lambda>_. ucast tmout + system_time s)) s"
  define T' where "T' = insort_key (\<lambda>u. wuptim (task_pool s0 u)) c T"
  have own: "ll_this (nodes s (Slp u)) = Some (Tsk u)" if "u \<in> set T" for u
    using that kinvw_task [OF K(1), of u] by (auto simp: task_ok_def)
  obtain s1 where s1: "tq_insert c tmout s = Some s1" "tq_inserts s c s0 s1 T'" "tq_rep s1 T'"
    using tq_insert_rep [OF krep_tq [OF kinvw_krep [OF K(1)]] run(6) own s0_def T'_def] by blast
  obtain st h where eq: "s1 = s0\<lparr>nodes := st, timeout_queue := h\<rparr>"
    by (rule tq_inserts_eq [OF s1(2)])
  have st: "ll_this (st n) = ll_this (nodes s n)" "n \<notin> range Slp \<Longrightarrow> st n = nodes s n" for n
    using s1(2) eq by (auto simp: tq_inserts_def)
  let ?u = "upd_task c f (write_log e a b s1)"
  have "rq_rep s1 Q = rq_rep s Q" "wq_rep s1 W = wq_rep s W"
    by (rule rq_rep_cong wq_rep_cong; simp add: eq st s0_def)+
  then have "krep s1 Q W T'"
    using kinvw_krep [OF K(1)] s1(3) by (simp add: krep_def)
  then have rep: "krep ?u Q W T'"
    using krep_cong [of ?u s1 T' Q W] f by simp
  have n: "nodes (rq_remove c ?u) (MsgQ m) = nodes s (MsgQ m)" for m
    using rq_remove_nodes [OF krep_rq [OF rep], of c "MsgQ m"] run(1) f(2) eq st by (simp add: s0_def)
  have "kinvw (calling c k (rq_remove c ?u)) (Q(p := remove1 c (Q p))) W T'"
  proof (rule kinvw_blocked [OF K])
    show "krep (rq_remove c ?u) (Q(p := remove1 c (Q p))) W T'"
      using krep_rq_remove [OF rep, of p c] f(2) run(1) K(4) eq by (simp add: s0_def)
    show "obj_ok (rq_remove c ?u) W"
      using kinvw_obj [OF K(1)] obj_ok_cong [of "rq_remove c ?u" s W] eq by (simp add: s0_def)
    show "lists_ok (rq_remove c ?u)"
      using kinvw_lists [OF K(1)] lists_ok_cong [of "rq_remove c ?u" s] n eq by (simp add: s0_def)
  qed (use f run K(3,4) st in \<open>auto simp: eq s0_def T'_def set_insort_key\<close>)
  then show ?thesis
    using s1(1) by blast
qed

section \<open>Task identifiers\<close>

lemma kinvw_dormant_off:
  assumes "kinvw s Q W T" "tskstat (task_pool s t) = TTS_DMT \<or> \<not> bit (taskbmap s) t"
  shows "off_queues Q W T t"
  using kinvw_task [OF assms(1), of t] assms(2) by (auto simp: task_ok_def off_queues_def stat_defs)

lemma kinvw_unmap:
  assumes K: "kinvw s Q W T" and t: "tskstat (task_pool s t) = TTS_DMT" "t \<noteq> idle_task s"
  shows "kinvw (s\<lparr>taskbmap := clearbit (taskbmap s) t\<rparr>) Q W T"
proof -
  let ?s = "s\<lparr>taskbmap := clearbit (taskbmap s) t\<rparr>"
  show ?thesis
  proof (rule kinvw_one_task [OF K])
    show "krep ?s Q W T"
      using kinvw_krep [OF K] krep_cong [of ?s s T Q W] by simp
    show "task_ok ?s Q W T t"
      using kinvw_dormant_off [OF K] t(1) by (simp add: task_ok_def off_queues_def stat_defs)
    show "task_ok ?s Q W T u = task_ok s Q W T u" if "u \<noteq> t" for u
      using that by (intro task_ok_cong) auto
    show "sys_ok ?s Q"
      using kinvw_sys [OF K] t(2) by (auto simp: sys_ok_def)
    show "obj_ok ?s W" "lists_ok ?s"
      using kinvw_obj [OF K] obj_ok_cong [of ?s s W] kinvw_lists [OF K] lists_ok_cong [of ?s s] by simp_all
  qed
qed

lemma fill_task_fields [simp]:
  "u \<noteq> t \<Longrightarrow> task_pool (fill_task t c s) u = task_pool s u"
  "tskid (task_pool (fill_task t c s) t) = int t + 1"
  "tskpri (task_pool (fill_task t c s) t) = unat (ct_itskpri c)"
  "tskstat (task_pool (fill_task t c s) t) = TTS_DMT"
  "taskbmap (fill_task t c s) = setbit (taskbmap s) t"
  "kctx (fill_task t c s) = (kctx s)(t \<mapsto> Resuming K_start)"
  "nodes (fill_task t c s) = set_this (Rdy t) (Some (Tsk t)) (set_this (Syn t) (Some (Tsk t))
     (set_this (Slp t) (Some (Tsk t)) ((nodes s)(Rdy t := node_zero, Syn t := node_zero, Slp t := node_zero))))"
  by (simp_all add: fill_task_def clear_task_nodes_def set_task_nodes_def init_stack_def Let_def)

lemma fill_task_frame [simp]:
  "prioqueue (fill_task t c s) = prioqueue s" "priobmap (fill_task t c s) = priobmap s"
  "timeout_queue (fill_task t c s) = timeout_queue s" "current_task (fill_task t c s) = current_task s"
  "idle_task (fill_task t c s) = idle_task s" "dispatching (fill_task t c s) = dispatching s"
  "int_nest_count (fill_task t c s) = int_nest_count s"
  "sem_pool (fill_task t c s) = sem_pool s" "flg_pool (fill_task t c s) = flg_pool s"
  "mbx_pool (fill_task t c s) = mbx_pool s" "mpf_pool (fill_task t c s) = mpf_pool s"
  "sembmap (fill_task t c s) = sembmap s" "flgbmap (fill_task t c s) = flgbmap s"
  "mbxbmap (fill_task t c s) = mbxbmap s" "mpfbmap (fill_task t c s) = mpfbmap s"
  "active_sem (fill_task t c s) = active_sem s" "active_flg (fill_task t c s) = active_flg s"
  by (simp_all add: fill_task_def clear_task_nodes_def set_task_nodes_def init_stack_def Let_def)

lemma kinvw_fill_task:
  assumes K: "kinvw s Q W T" "user_level s" and t: "\<not> bit (taskbmap s) t" "t < MAX_TASKS"
    and pri: "unat (ct_itskpri c) < PRIORITY_LEVELS"
  shows "kinvw (fill_task t c s) Q W T"
proof -
  let ?s = "fill_task t c s"
  have off: "off_queues Q W T t"
    using kinvw_dormant_off [OF K(1)] t(1) by blast
  have iso: "isolated (nodes s) (Rdy t)" "isolated (nodes s) (Syn t)" "isolated (nodes s) (Slp t)"
    using off family_rep_isolated [OF rq_rep_family [OF krep_rq [OF kinvw_krep [OF K(1)]]], of t]
      family_rep_isolated [OF krep_family [OF kinvw_krep [OF K(1)]], of t] krep_tq [OF kinvw_krep [OF K(1)]]
    by (auto simp: off_queues_def tq_rep_def)
  have links: "same_links (nodes ?s) (nodes s) n" for n
    using iso by (auto simp: same_links_def isolated_def node_zero_def)
  have t_ne: "t \<noteq> idle_task s" "t \<noteq> current_task s"
    using kinvw_sys [OF K(1)] kinvw_running(2) [OF K refl] t(1) by (auto simp: sys_ok_def)
  show ?thesis
  proof (rule kinvw_one_task [OF K(1)])
    show "krep ?s Q W T"
      using kinvw_krep [OF K(1)] krep_cong [of ?s s T Q W] links wqueue_cong [of ?s s] off
      by (simp add: off_queues_def) (metis fill_task_fields(1))
    show "task_ok ?s Q W T t"
      using off t(2) t_ne(1) pri by (simp add: task_ok_def off_queues_def stat_defs)
    show "task_ok ?s Q W T u = task_ok s Q W T u" if "u \<noteq> t" for u
      using that by (intro task_ok_cong) auto
    show "sys_ok ?s Q"
      using kinvw_sys [OF K(1)] t_ne by (auto simp: sys_ok_def)
    show "obj_ok ?s W" "lists_ok ?s"
      using kinvw_obj [OF K(1)] obj_ok_cong [of ?s s W] kinvw_lists [OF K(1)] lists_ok_cong [of ?s s]
      by (simp_all add: set_this_def)
  qed
qed

section \<open>scheduler() and the tick\<close>

lemma kinvw_own:
  "kinvw s Q W T \<Longrightarrow> t \<in> set (Q i) \<Longrightarrow> ll_this (nodes s (Rdy t)) = Some (Tsk t)"
  using kinvw_task [of s Q W T t] by (auto simp: task_ok_def)

lemma kinvw_head:
  assumes "kinvw s Q W T"
  shows "rq_get_head s = highest_ready Q"
  using rq_get_head_rep [OF krep_rq [OF kinvw_krep [OF assms]]] kinvw_own [OF assms] by blast

text \<open>The task \<open>scheduler()\<close> runs next.\<close>

definition next_task :: "nat \<Rightarrow> (nat \<Rightarrow> nat list) \<Rightarrow> nat" where
  "next_task idle Q = (case highest_ready Q of None \<Rightarrow> idle | Some t \<Rightarrow> t)"

lemma next_task_ready:
  assumes "kinvw s Q W T" "new = next_task (idle_task s) Q"
  shows "new = idle_task s \<or> new \<in> set (Q (tskpri (task_pool s new)))"
proof (cases "highest_ready Q")
  case (Some t)
  then obtain i where "t = hd (Q i)" "Q i \<noteq> []"
    by (rule highest_ready_Some)
  then have "t \<in> set (Q i)"
    by simp
  then show ?thesis
    using kinvw_task [OF assms(1), of t] assms(2) Some by (auto simp: next_task_def task_ok_def)
qed (use assms in \<open>simp add: next_task_def\<close>)

lemma task_ok_run:
  assumes "task_ok s Q W T t" "t = idle_task s \<or> t \<in> set (Q (tskpri (task_pool s t)))"
    and "tskid (task_pool s' t) = tskid (task_pool s t)" "tskpri (task_pool s' t) = tskpri (task_pool s t)"
    and "tskstat (task_pool s' t) \<in> {TTS_RUN, TTS_RDY}"
    and "taskbmap s' = taskbmap s" "idle_task s' = idle_task s" "nodes s' = nodes s"
  shows "task_ok s' Q W T t"
proof -
  have "tskstat (task_pool s' t) \<noteq> TTS_DMT"
    using assms(5) by (auto simp: stat_defs)
  then show ?thesis
    using assms(1,2) unfolding task_ok_def assms(3,4,6-8) by metis
qed

lemma kinvw_scheduler:
  assumes K: "kinvw s Q W T" and c: "c = current_task s" "kctx s c = Some (Calling k)"
    and u: "u = s\<lparr>kctx := (kctx s)(c \<mapsto> Resuming k)\<rparr>"
  shows "kinvw (scheduler u) Q W T" "current_task (scheduler u) = next_task (idle_task s) Q"
proof -
  note sys = kinvw_sys [OF K]
  have head: "rq_get_head u = highest_ready Q"
    unfolding kinvw_head [OF K, symmetric] by (simp add: rq_get_head_def u)
  have nest: "int_nest_count u = 0" "dispatching u"
    using sys u by (simp_all add: sys_ok_def)
  show new: "current_task (scheduler u) = next_task (idle_task s) Q"
    unfolding scheduler_current [OF nest] head by (simp add: next_task_def u split: option.split)
  let ?new = "next_task (idle_task s) Q"
  note pool = scheduler_pool [OF nest new [symmetric]]
  have fields: "tskid (task_pool (scheduler u) t) = tskid (task_pool s t)"
      "tskpri (task_pool (scheduler u) t) = tskpri (task_pool s t)"
      "wuptim (task_pool (scheduler u) t) = wuptim (task_pool s t)" for t
    unfolding pool by (auto simp: u)
  have stat: "tskstat (task_pool (scheduler u) t) = tskstat (task_pool s t) \<or>
      t = ?new \<and> tskstat (task_pool (scheduler u) t) = TTS_RUN \<or>
      tskstat (task_pool s t) = TTS_RUN \<and> tskstat (task_pool (scheduler u) t) = TTS_RDY" for t
    unfolding pool by (auto simp: u)
  have "task_ok (scheduler u) Q W T t" for t
  proof (cases "tskstat (task_pool (scheduler u) t) = tskstat (task_pool s t)")
    case True
    then show ?thesis
      using kinvw_task [OF K, of t] task_ok_cong [of "scheduler u" t s Q Q W W T T] fields u by simp
  next
    case False
    then have "t = ?new \<or> tskstat (task_pool s t) = TTS_RUN" "tskstat (task_pool (scheduler u) t) \<in> {TTS_RUN, TTS_RDY}"
      using stat [of t] by auto
    moreover have "t = idle_task s \<or> t \<in> set (Q (tskpri (task_pool s t)))"
      using calculation(1) next_task_ready [OF K refl] kinvw_task [OF K, of t]
      by (auto simp: task_ok_def)
    ultimately show ?thesis
      using task_ok_run [OF kinvw_task [OF K, of t]] fields u by simp
  qed
  moreover have "sys_ok (scheduler u) Q"
    using sys next_task_ready [OF K refl] new stat [of "idle_task s"] fields u c
    by (auto simp: sys_ok_def stat_defs)
  moreover have "krep (scheduler u) Q W T"
    using kinvw_krep [OF K] krep_cong [of "scheduler u" s T Q W] fields u by simp
  moreover have "obj_ok (scheduler u) W" "lists_ok (scheduler u)"
    using kinvw_obj [OF K] obj_ok_cong [of "scheduler u" s W] kinvw_lists [OF K]
      lists_ok_cong [of "scheduler u" s] u by simp_all
  ultimately show "kinvw (scheduler u) Q W T"
    by (simp add: kinvw_def)
qed

lemma kinvw_wake_one:
  assumes K: "kinvw s Q W (t # R)" and p: "p = tskpri (task_pool s t)"
  shows "kinvw (tq_wake_one t s) (Q(p := Q p @ [t])) W R"
proof -
  have t: "bit (taskbmap s) t" "t \<noteq> idle_task s" "tskstat (task_pool s t) = TTS_WAI"
      "\<And>i. t \<notin> set (Q i)" "\<And>w. t \<notin> set (W w)" "t \<notin> set R"
    using kinvw_task [OF K, of t] tq_rep_distinct [OF krep_tq [OF kinvw_krep [OF K]]]
    by (auto simp: task_ok_def)
  note one = tq_wake_one_rep [OF krep_tq [OF kinvw_krep [OF K]] krep_rq [OF kinvw_krep [OF K]] _ p]
  have pri: "p < PRIORITY_LEVELS"
    using kinvw_pri [OF K t(1)] p by simp
  note rep = one(1,2) [OF _ pri] and n = one(3) [OF _ pri]
  show ?thesis
  proof (rule kinvw_one_task [OF K])
    have "wq_rep (tq_wake_one t s) W = wq_rep s W"
      by (rule wq_rep_cong) (use n t(4) in simp_all)
    then show "krep (tq_wake_one t s) (Q(p := Q p @ [t])) W R"
      using rep t(4) kinvw_krep [OF K] by (simp add: krep_def)
    show "task_ok (tq_wake_one t s) (Q(p := Q p @ [t])) W R t"
      using kinvw_task [OF K, of t] t p by (auto simp: task_ok_def stat_defs)
    show "task_ok (tq_wake_one t s) (Q(p := Q p @ [t])) W R u = task_ok s Q W (t # R) u" if "u \<noteq> t" for u
      using that by (intro task_ok_cong) auto
    show "sys_ok (tq_wake_one t s) (Q(p := Q p @ [t]))"
      using kinvw_sys [OF K] t(2) by (auto simp: sys_ok_def)
    show "obj_ok (tq_wake_one t s) W" "lists_ok (tq_wake_one t s)"
      using kinvw_obj [OF K] obj_ok_cong [of "tq_wake_one t s" s W] kinvw_lists [OF K]
        lists_ok_cong [of "tq_wake_one t s" s] n t(4) by simp_all
  qed
qed

lemma kinvw_time [simp]:
  "kinvw (s\<lparr>system_time := t\<rparr>) Q W T = kinvw s Q W T" "kinvw (s\<lparr>tot_idle := c\<rparr>) Q W T = kinvw s Q W T"
  "kinvw (s\<lparr>cycles := c\<rparr>) Q W T = kinvw s Q W T"
  by (rule kinvw_cong; simp)+

lemma kinvw_own_slp:
  "kinvw s Q W T \<Longrightarrow> t \<in> set T \<Longrightarrow> ll_this (nodes s (Slp t)) = Some (Tsk t)"
  using kinvw_task [of s Q W T t] by (auto simp: task_ok_def)

lemma kinvw_not_null: "kinvw s Q W T \<Longrightarrow> \<not> tq_null s"
  using tq_null_rep [OF krep_tq [OF kinvw_krep]] kinvw_own_slp by blast

text \<open>The timer interrupt always finishes and keeps the invariant; no task whose time has come is left
  on the timeout queue.\<close>

lemma kinvw_tick:
  assumes "kinvw s Q W T"
  shows "\<exists>s' Q' T'. evt_tmr_isr s = Some s' \<and> kinvw s' Q' W T' \<and> system_time s' = system_time s + 1 \<and>
    current_task s' = current_task s \<and> kctx s' = kctx s \<and>
    (\<forall>t \<in> set T'. system_time s' < wuptim (task_pool s' t))"
proof -
  define s0 where "s0 = (let u = s\<lparr>system_time := system_time s + 1\<rparr>
    in if system_time u = 500 then u\<lparr>tot_idle := 0\<rparr> else u)"
  define P where "P u R \<longleftrightarrow> (\<exists>Q'. kinvw u Q' W R) \<and> system_time u = system_time s + 1 \<and>
    current_task u = current_task s \<and> kctx u = kctx s" for u R
  have "P s0 T"
    using assms by (auto simp: P_def s0_def Let_def)
  moreover have due: "tq_due u = (case R of [] \<Rightarrow> None
      | t # _ \<Rightarrow> if wuptim (task_pool u t) \<le> system_time u then Some t else None)" if "P u R" for u R
    using that kinvw_task [of u _ W R] krep_tq [OF kinvw_krep]
    by (intro tq_due_rep) (auto simp: P_def task_ok_def)
  moreover have "\<not> tq_null u" if "P u R" for u R
    using that by (auto simp: P_def dest: kinvw_not_null)
  moreover have "P (tq_wake_one t u) R" if "P u (t # R)" for u t R
    using that kinvw_wake_one unfolding P_def by fastforce
  ultimately obtain s' R where s': "tq_wakeup s0 = Some s'" "P s' R" "tq_due s' = None"
    using tq_wakeup_ends [of P s0 T] by blast
  moreover have "evt_tmr_isr s = tq_wakeup s0"
    by (simp add: evt_tmr_isr_def s0_def Let_def)
  moreover have "system_time s' < wuptim (task_pool s' t)" if "t \<in> set R" for t
    using that s'(2,3) due [OF s'(2)] tq_rep_later [of s' "hd R" "tl R" t] krep_tq [OF kinvw_krep]
    by (cases R) (auto simp: P_def not_le split: if_splits)
  ultimately show ?thesis
    unfolding P_def by metis
qed

end
