(* ===== verification/Inv_Calls.thy ===== *)
theory Inv_Calls
  imports Kernel_Inv
begin

text \<open>
  The system calls keep the invariant of the kernel. The locale \<open>kernel_call\<close> is the contract: a
  call made at user level, in a state with the invariant and under its precondition, either returns
  with the invariant or goes on to \<open>scheduler()\<close> with it, and never follows a null pointer, loops
  or falls off its end. Every call of the kernel that meets the contract is an interpretation.
\<close>

section \<open>The contract of a system call\<close>

definition call_ok :: "kernel \<Rightarrow> outcome \<times> kernel \<Rightarrow> bool" where
  "call_ok s r =
     (case fst r of
        Ret v \<Rightarrow> kinv (snd r) \<and> user_level (snd r)
      | Sched k \<Rightarrow> current_task (snd r) = current_task s \<and> kinv (calling (current_task s) k (snd r))
      | _ \<Rightarrow> False)"

text \<open>The weaker contract of a call that may follow a null pointer or loop: where it does return or
  goes on to \<open>scheduler()\<close>, it does so with the invariant.\<close>

definition call_safe :: "kernel \<Rightarrow> outcome \<times> kernel \<Rightarrow> bool" where
  "call_safe s r \<longleftrightarrow> (fst r = Fault \<or> call_ok s r)"

locale safe_call =
  fixes pre :: "kernel \<Rightarrow> bool" and call :: "kernel \<Rightarrow> outcome \<times> kernel"
  assumes keeps_safe: "kinvw s Q W T \<Longrightarrow> user_level s \<Longrightarrow> pre s \<Longrightarrow> call_safe s (call s)"
begin

lemma call_safe: "kinv s \<Longrightarrow> user_level s \<Longrightarrow> pre s \<Longrightarrow> call_safe s (call s)"
  using keeps_safe by (auto simp: kinv_def)

lemma ret_inv:
  assumes "kinv s" "user_level s" "pre s" "call s = (Ret v, s')"
  shows "kinv s' \<and> user_level s'"
  using call_safe [OF assms(1-3)] assms(4) by (simp add: call_safe_def call_ok_def)

lemma sched_inv:
  assumes "kinv s" "user_level s" "pre s" "call s = (Sched k, s')"
  shows "current_task s' = current_task s \<and> kinv (calling (current_task s) k s')"
  using call_safe [OF assms(1-3)] assms(4) by (simp add: call_safe_def call_ok_def)

end

locale kernel_call =
  fixes pre :: "kernel \<Rightarrow> bool" and call :: "kernel \<Rightarrow> outcome \<times> kernel"
  assumes keeps: "kinvw s Q W T \<Longrightarrow> user_level s \<Longrightarrow> pre s \<Longrightarrow> call_ok s (call s)"
begin

lemma call_ok: "kinv s \<Longrightarrow> user_level s \<Longrightarrow> pre s \<Longrightarrow> call_ok s (call s)"
  using keeps by (auto simp: kinv_def)

lemma returns_or_schedules:
  assumes "kinv s" "user_level s" "pre s"
  shows "(\<exists>v. fst (call s) = Ret v) \<or> (\<exists>k. fst (call s) = Sched k)"
  using call_ok [OF assms] by (cases "fst (call s)") (auto simp: call_ok_def)

end

sublocale kernel_call \<subseteq> safe_call pre call
  by unfold_locales (use keeps in \<open>auto simp: call_safe_def\<close>)

lemma call_ok_ret:
  assumes "kinvw s' Q W T" "user_level s" "current_task s' = current_task s"
    and "idle_task s' = idle_task s" "kctx s' (current_task s) = kctx s (current_task s)"
  shows "call_ok s (Ret v, s')"
  using assms by (auto simp: call_ok_def kinv_def user_level_def)

lemma call_ok_sched:
  assumes "kinvw (calling (current_task s) k s') Q W T" "current_task s' = current_task s"
  shows "call_ok s (Sched k, s')"
  using assms by (auto simp: call_ok_def kinv_def)

lemma kinvw_calling:
  assumes "kinvw s Q W T" "c = current_task s"
  shows "kinvw (calling c k s) Q W T"
proof -
  have "krep (calling c k s) Q W T = krep s Q W T"
    by (rule krep_cong) simp_all
  moreover have "task_ok (calling c k s) Q W T t = task_ok s Q W T t" for t
    by (rule task_ok_cong) simp_all
  moreover have "obj_ok (calling c k s) W = obj_ok s W" "lists_ok (calling c k s) = lists_ok s"
    by (rule obj_ok_cong lists_ok_cong; simp)+
  moreover have "sys_ok (calling c k s) Q"
    using kinvw_sys [OF assms(1)] assms(2) by (auto simp: sys_ok_def)
  ultimately show ?thesis
    using assms(1) by (simp add: kinvw_def)
qed

lemma call_ok_resched:
  assumes "kinvw s' Q W T" "current_task s' = current_task s"
  shows "call_ok s (Sched k, s')"
  using kinvw_calling [OF assms(1)] assms(2) by (intro call_ok_sched) auto

lemma call_ok_error: "kinvw s Q W T \<Longrightarrow> user_level s \<Longrightarrow> call_ok s (Ret v, s)"
  by (rule call_ok_ret) auto

section \<open>Tasks\<close>

lemma pick_task_exists:
  assumes "pick_task tid s = Some t" "\<not> (tid < 1 \<or> tid > int MAX_TASKS)"
  shows "bit (taskbmap s) t" "t = nat (tid - 1)"
  using assms by (auto simp: pick_task_def TSK_SELF_def split: if_splits)

lemma call_ok_new_task:
  assumes "kinvw s Q W T" "user_level s" "\<not> bit (taskbmap s) t" "t < MAX_TASKS"
    and "\<not> ct_itskpri x > of_nat MIN_TASK_PRIORITY"
  shows "call_ok s (Ret v, write_log e a b (fill_task t x s))"
proof (rule call_ok_ret)
  have "unat (ct_itskpri x) < PRIORITY_LEVELS"
    using assms(5) by (simp add: cfg_defs not_less word_le_nat_alt)
  then show "kinvw (write_log e a b (fill_task t x s)) Q W T"
    using kinvw_fill_task [OF assms(1-4)] by simp
  show "kctx (write_log e a b (fill_task t x s)) (current_task s) = kctx s (current_task s)"
    using kinvw_running(2) [OF assms(1,2) refl] assms(3) by auto
qed (use assms in simp_all)

lemma keeps_acre_tsk:
  assumes "kinvw s Q W T" "user_level s"
  shows "call_ok s (acre_tsk_sys c s)"
proof (cases c)
  case (Some x)
  then show ?thesis
    using ffc_free [of "taskbmap s"]
    by (auto simp: acre_tsk_sys_def Let_def nat_less_iff
        intro!: call_ok_new_task [OF assms] call_ok_error [OF assms])
qed (simp add: acre_tsk_sys_def call_ok_error [OF assms])

lemma keeps_cre_tsk:
  assumes "kinvw s Q W T" "user_level s"
  shows "call_ok s (cre_tsk_sys tid c s)"
  by (auto simp: cre_tsk_sys_def Let_def nat_less_iff split: option.split
      intro!: call_ok_new_task [OF assms] call_ok_error [OF assms])

lemma keeps_del_tsk:
  assumes "kinvw s Q W T" "user_level s"
  shows "call_ok s (del_tsk_sys tid s)"
proof -
  have "call_ok s (Ret v, write_log e a b (s\<lparr>taskbmap := clearbit (taskbmap s) t\<rparr>))"
    if "tskstat (task_pool s t) = TTS_DMT" for v e a b t
  proof (rule call_ok_ret)
    have "t \<noteq> idle_task s"
      using that kinvw_sys [OF assms(1)] by (auto simp: sys_ok_def)
    then show "kinvw (write_log e a b (s\<lparr>taskbmap := clearbit (taskbmap s) t\<rparr>)) Q W T"
      using kinvw_unmap [OF assms(1) that] by simp
  qed (use assms in simp_all)
  then show ?thesis
    using call_ok_error [OF assms] by (simp add: del_tsk_sys_def Let_def)
qed
lemma keeps_act_tsk:
  assumes K: "kinvw s Q W T" "user_level s"
  shows "call_ok s (act_tsk_sys tid s)"
proof (cases "tid < 1 \<or> tid > int MAX_TASKS \<or> pick_task tid s = None")
  case True
  then show ?thesis
    using call_ok_error [OF K] by (auto simp: act_tsk_sys_def)
next
  case False
  then obtain t where t: "pick_task tid s = Some t" "bit (taskbmap s) t"
    using pick_task_exists by blast
  let ?l = "write_log TFN_ACT_TSK tid (actcnt (task_pool s t)) s"
  show ?thesis
  proof (cases "tskstat (task_pool s t) = TTS_DMT")
    case True
    have "t \<noteq> idle_task s"
      using True kinvw_sys [OF K(1)] by (auto simp: sys_ok_def)
    then have "kinvw (set_stat t TTS_RDY (rq_insert t ?l)) (Q(tskpri (task_pool s t) := Q (tskpri (task_pool s t)) @ [t])) W T"
      using kinvw_ready' [of ?l Q W T t] K(1) t(2) kinvw_dormant_off [OF K(1)] True
      by (simp add: stat_defs)
    then show ?thesis
      using True False t(1) by (auto simp: act_tsk_sys_def Let_def intro!: call_ok_resched)
  next
    case other: False
    let ?u = "upd_task t (\<lambda>x. x\<lparr>actcnt := sint32 (actcnt x + 1)\<rparr>) ?l"
    have "kinvw ?u Q W T = kinvw ?l Q W T"
      by (rule kinvw_upd_task) simp_all
    then have "kinvw ?u Q W T"
      using K(1) by simp
    then show ?thesis
      using other False t(1) call_ok_resched [of ?u Q W T s] by (simp add: act_tsk_sys_def Let_def)
  qed
qed

text \<open>Calls that change fields of a task the invariant does not read, or no task at all.\<close>

lemma call_ok_upd:
  assumes "kinvw s Q W T" "user_level s" "\<And>x. tskid (f x) = tskid x" "\<And>x. tskpri (f x) = tskpri x"
    and "\<And>x. tskstat (f x) = tskstat x" "\<And>x. wuptim (f x) = wuptim x"
  shows "call_ok s (Ret v, write_log e a b (upd_task t f s))"
  using kinvw_upd_task [of f s t Q W T] assms by (intro call_ok_ret) auto

lemma call_ok_kmem:
  assumes "kinvw s Q W T" "user_level s"
  shows "call_ok s (Ret v, s\<lparr>kmem := m\<rparr>)"
  using assms by (intro call_ok_ret) auto

lemma keeps_can_act:
  assumes "kinvw s Q W T" "user_level s"
  shows "call_ok s (can_act_sys tid s)" "call_ok s (can_wup_sys tid s)"
  using call_ok_error [OF assms]
  by (auto simp: can_act_sys_def can_wup_sys_def Let_def split: option.split
      intro!: call_ok_upd [OF assms])

lemma keeps_get_pri:
  assumes "kinvw s Q W T" "user_level s"
  shows "call_ok s (get_pri_sys tid p s)" "call_ok s (get_tim_sys q s)"
    "call_ok s (wup_tsk_sys tid s)" "call_ok s (sns_dsp_sys s)"
  using call_ok_error [OF assms] call_ok_kmem [OF assms]
  by (auto simp: get_pri_sys_def get_tim_sys_def wup_tsk_sys_def sns_dsp_sys_def split: option.split)

lemma keeps_ena_dsp:
  assumes "kinvw s Q W T" "user_level s"
  shows "call_ok s (ena_dsp_sys s)"
proof -
  have "s\<lparr>dispatching := True\<rparr> = s"
    using kinvw_sys [OF assms(1)] by (simp add: sys_ok_def)
  then show ?thesis
    using call_ok_error [OF assms] by (simp add: ena_dsp_sys_def)
qed

text \<open>A change of priority moves the task to the tail of its new queue.\<close>

lemma sys_ok_mono:
  assumes "sys_ok s Q" "taskbmap s' = taskbmap s" "idle_task s' = idle_task s"
    and "tskstat (task_pool s' (idle_task s)) = tskstat (task_pool s (idle_task s))"
    and "int_nest_count s' = int_nest_count s" "dispatching s' = dispatching s"
    and "current_task s' = current_task s" "kctx s' = kctx s"
    and "current_task s \<in> set (Q (tskpri (task_pool s (current_task s)))) \<Longrightarrow>
      current_task s \<in> set (Q' (tskpri (task_pool s' (current_task s))))"
  shows "sys_ok s' Q'"
  using assms unfolding sys_ok_def by metis

lemma kinvw_relocate:
  assumes K: "kinvw s Q W T" and t: "t \<in> set (Q i)" "p < PRIORITY_LEVELS"
  obtains Q' where "kinvw (rq_relocate t p s) Q' W T"
proof -
  define R where "R = Q(i := remove1 t (Q i))"
  define Q' where "Q' = R(p := R p @ [t])"
  note ok = kinvw_task [OF K, of t]
  have i: "i = tskpri (task_pool s t)"
    using ok t(1) by (simp add: task_ok_def)
  have "t \<notin> set (R j)" for j
    using rq_unlinked [OF krep_rq [OF kinvw_krep [OF K]] t(1)] by (simp add: R_def)
  then have in_t: "t \<in> set (Q' j) \<longleftrightarrow> j = p" for j
    by (simp add: Q'_def)
  have in_u: "u \<in> set (Q' j) \<longleftrightarrow> u \<in> set (Q j)" if "u \<noteq> t" for u j
    using that by (simp add: Q'_def R_def)
  have rep: "krep (rq_relocate t p s) Q' W T"
    using krep_rq_relocate [OF kinvw_krep [OF K] i t] by (simp add: Q'_def R_def)
  have "task_ok (rq_relocate t p s) Q' W T t"
    using ok t in_t unfolding task_ok_def by simp
  moreover have "task_ok (rq_relocate t p s) Q' W T u = task_ok s Q W T u" if "u \<noteq> t" for u
    by (rule task_ok_cong; use that in_u in simp)
  moreover have "current_task s \<in> set (Q (tskpri (task_pool s (current_task s)))) \<Longrightarrow>
      current_task s \<in> set (Q' (tskpri (task_pool (rq_relocate t p s) (current_task s))))"
    by (cases "current_task s = t") (simp_all add: in_t in_u)
  then have "sys_ok (rq_relocate t p s) Q'"
    using ok t(1) by (intro sys_ok_mono [OF kinvw_sys [OF K]]) (simp_all add: task_ok_def)
  moreover have "nodes (rq_relocate t p s) (MsgQ m) = nodes s (MsgQ m)" for m
    by (rule rq_relocate_nodes [OF krep_rq [OF kinvw_krep [OF K]]]) (use t(1) i in auto)
  then have "lists_ok (rq_relocate t p s) = lists_ok s"
    by (intro lists_ok_cong) simp_all
  moreover have "obj_ok (rq_relocate t p s) W = obj_ok s W"
    by (rule obj_ok_cong) simp_all
  ultimately show ?thesis
    using that kinvw_one_task [OF K rep, of t] kinvw_obj [OF K] kinvw_lists [OF K] by blast
qed

lemma keeps_chg_pri:
  assumes K: "kinvw s Q W T" "user_level s" and tid: "tid \<noteq> int (idle_task s) + 1"
  shows "call_ok s (chg_pri_sys tid pri s)"
proof (cases "tid < 1 \<or> tid > int MAX_TASKS \<or> pri > of_nat MIN_TASK_PRIORITY \<or> pick_task tid s = None")
  case True
  then show ?thesis
    using call_ok_error [OF K] by (auto simp: chg_pri_sys_def)
next
  case False
  then obtain t where t: "pick_task tid s = Some t" "t = nat (tid - 1)"
    using pick_task_exists by blast
  have p: "unat pri < PRIORITY_LEVELS"
    using False by (simp add: cfg_defs not_less word_le_nat_alt)
  let ?l = "write_log TFN_CHG_PRI tid (uint pri) s"
  show ?thesis
  proof (cases "tskstat (task_pool s t) = TTS_RDY")
    case True
    have "t \<noteq> idle_task s"
      using t(2) tid False by auto
    then have "t \<in> set (Q (tskpri (task_pool s t)))"
      using True kinvw_task [OF K(1), of t] by (simp add: task_ok_def)
    then obtain Q' where "kinvw (rq_relocate t (unat pri) ?l) Q' W T"
      using kinvw_relocate [of ?l Q W T t "tskpri (task_pool s t)" "unat pri"] K(1) p by simp blast
    moreover have "kinvw (upd_task t (tskpri_update (\<lambda>_. unat pri)) (rq_relocate t (unat pri) ?l)) Q' W T =
        kinvw (rq_relocate t (unat pri) ?l) Q' W T"
      by (rule kinvw_upd_task) simp_all
    ultimately show ?thesis
      using True False t(1) by (auto simp: chg_pri_sys_def Let_def intro!: call_ok_resched)
  next
    case other: False
    then show ?thesis
      using False t(1) K(1) call_ok_resched [of ?l Q W T s] by (simp add: chg_pri_sys_def Let_def)
  qed
qed

lemma write_log_kctx [simp]:
  "(write_log e a b s)\<lparr>kctx := k\<rparr> = write_log e a b (s\<lparr>kctx := k\<rparr>)"
  by (simp add: write_log_def Let_def)

lemma tq_insert_current:
  "tq_insert t tmout s = Some s' \<Longrightarrow> current_task s' = current_task s"
  by (auto simp: tq_insert_def Let_def split: option.splits if_splits prod.splits)

text \<open>Calls after which the caller is on no queue or on the timeout queue.\<close>

lemma kinvw_exit:
  assumes K: "kinvw s Q W T" "user_level s" "c = current_task s" "p = tskpri (task_pool s c)"
  shows "kinvw (calling c k (set_stat c TTS_DMT (rq_remove c s))) (Q(p := remove1 c (Q p))) W T"
proof -
  have "kinvw (calling c k (rq_remove c (set_stat c TTS_DMT s))) (Q(p := remove1 c (Q p))) W T"
    using kinvw_sleep [OF K, of "tskstat_update (\<lambda>_. TTS_DMT)" k] K(4) by simp
  moreover have "kinvw (calling c k (set_stat c TTS_DMT (rq_remove c s))) (Q(p := remove1 c (Q p))) W T =
    kinvw (calling c k (rq_remove c (set_stat c TTS_DMT s))) (Q(p := remove1 c (Q p))) W T"
    by (rule kinvw_cong) (simp_all add: rq_remove_def rq_unlink_def Let_def)
  ultimately show ?thesis
    by simp
qed

lemma keeps_ext_tsk:
  assumes "kinvw s Q W T" "user_level s"
  shows "call_ok s (ext_tsk_sys s)"
  using kinvw_exit [OF assms refl refl, of K_ext]
  by (auto simp: ext_tsk_sys_def Let_def intro!: call_ok_sched)

lemma keeps_exd_tsk:
  assumes "kinvw s Q W T" "user_level s"
  shows "call_ok s (exd_tsk_sys s)"
proof -
  let ?c = "current_task s"
  let ?u = "calling ?c K_ext (set_stat ?c TTS_DMT (rq_remove ?c s))"
  note run = kinvw_running [OF assms refl]
  obtain Q' where "kinvw ?u Q' W T"
    using kinvw_exit [OF assms refl refl] by blast
  then have "kinvw (?u\<lparr>taskbmap := clearbit (taskbmap ?u) ?c\<rparr>) Q' W T"
    using run(3) by (intro kinvw_unmap) simp_all
  also have "?u\<lparr>taskbmap := clearbit (taskbmap ?u) ?c\<rparr> = calling ?c K_ext
      ((set_stat ?c TTS_DMT (rq_remove ?c s))\<lparr>taskbmap := clearbit (taskbmap s) ?c\<rparr>)"
    by simp
  finally show ?thesis
    using run(4) by (auto simp: exd_tsk_sys_def Let_def intro!: call_ok_sched)
qed

lemma user_level_log [simp]: "user_level (write_log e a b s) = user_level s"
  by (simp add: user_level_def)

lemma keeps_slp_tsk:
  assumes "kinvw s Q W T" "user_level s"
  shows "call_ok s (slp_tsk_sys s)"
proof -
  let ?f = "\<lambda>x. x\<lparr>tskstat := TTS_WAI, tskwait := TTW_SLP\<rparr>" and ?c = "current_task s"
  let ?l = "write_log TFN_SLP_TSK (tskid (task_pool s ?c)) 0 s"
  have "\<exists>Q'. kinvw (calling ?c (K_ret E_OK) (rq_remove ?c (upd_task ?c ?f ?l))) Q' W T"
    using kinvw_sleep [of ?l Q W T ?c _ ?f] assms by auto
  then show ?thesis
    by (auto simp: slp_tsk_sys_def Let_def intro!: call_ok_sched)
qed

lemma keeps_tslp_tsk:
  assumes "kinvw s Q W T" "user_level s" "tmout \<noteq> TMO_POL"
  shows "call_ok s (tslp_tsk_sys tmout s)"
proof -
  let ?f = "\<lambda>x. x\<lparr>tskstat := TTS_WAI, tskwait := TTW_SLP\<rparr>" and ?c = "current_task s"
  note sleep = kinvw_timed_sleep [OF assms(1,2) refl refl, of ?f]
  obtain s1 where "tq_insert ?c tmout s = Some s1"
    using sleep [of tmout undefined undefined undefined undefined] by auto
  moreover from this have "\<exists>Q' T'. kinvw (calling ?c (K_ret E_OK) (rq_remove ?c (upd_task ?c ?f
      (write_log TFN_TSLP_TSK (tskid (task_pool s1 ?c)) (uint tmout) s1)))) Q' W T'"
    using sleep [of tmout TFN_TSLP_TSK "tskid (task_pool s1 ?c)" "uint tmout" "K_ret E_OK"] by auto
  moreover have "current_task s1 = ?c"
    using tq_insert_current calculation(1) by blast
  ultimately show ?thesis
    using assms keeps_slp_tsk [OF assms(1,2)] call_ok_error [OF assms(1,2)]
    by (auto simp: tslp_tsk_sys_def Let_def intro!: call_ok_sched)
qed

section \<open>The calls meet the contract\<close>

interpretation acre_tsk: kernel_call "\<lambda>_. True" "acre_tsk_sys p" for p
  by unfold_locales (rule keeps_acre_tsk)

interpretation cre_tsk: kernel_call "\<lambda>_. True" "cre_tsk_sys i p" for i p
  by unfold_locales (rule keeps_cre_tsk)

interpretation del_tsk: kernel_call "\<lambda>_. True" "del_tsk_sys i" for i
  by unfold_locales (rule keeps_del_tsk)

interpretation act_tsk: kernel_call "\<lambda>_. True" "act_tsk_sys i" for i
  by unfold_locales (rule keeps_act_tsk)

interpretation can_act: kernel_call "\<lambda>_. True" "can_act_sys i" for i
  by unfold_locales (rule keeps_can_act)

interpretation can_wup: kernel_call "\<lambda>_. True" "can_wup_sys i" for i
  by unfold_locales (rule keeps_can_act)

interpretation chg_pri: kernel_call "\<lambda>s. i \<noteq> int (idle_task s) + 1" "chg_pri_sys i p" for i p
  by unfold_locales (rule keeps_chg_pri)

interpretation get_pri: kernel_call "\<lambda>_. True" "get_pri_sys i p" for i p
  by unfold_locales (rule keeps_get_pri)

interpretation ext_tsk: kernel_call "\<lambda>_. True" "ext_tsk_sys"
  by unfold_locales (rule keeps_ext_tsk)

interpretation exd_tsk: kernel_call "\<lambda>_. True" "exd_tsk_sys"
  by unfold_locales (rule keeps_exd_tsk)

interpretation slp_tsk: kernel_call "\<lambda>_. True" "slp_tsk_sys"
  by unfold_locales (rule keeps_slp_tsk)

interpretation tslp_tsk: kernel_call "\<lambda>_. tmout \<noteq> TMO_POL" "tslp_tsk_sys tmout" for tmout
  by unfold_locales (rule keeps_tslp_tsk)

interpretation wup_tsk: kernel_call "\<lambda>_. True" "wup_tsk_sys i" for i
  by unfold_locales (rule keeps_get_pri)

interpretation ena_dsp: kernel_call "\<lambda>_. True" "ena_dsp_sys"
  by unfold_locales (rule keeps_ena_dsp)

interpretation sns_dsp: kernel_call "\<lambda>_. True" "sns_dsp_sys"
  by unfold_locales (rule keeps_get_pri)

interpretation get_tim: kernel_call "\<lambda>_. True" "get_tim_sys p" for p
  by unfold_locales (rule keeps_get_pri)

end
