(* ===== verification/Inv_Sync.thy ===== *)
theory Inv_Sync
  imports Inv_Calls
begin

text \<open>
  The invariant under the operations on semaphores and event flags: creation, the deletion loops,
  release, acquisition and the walk along the tasks that wait for a flag.
\<close>

section \<open>Changes to objects\<close>

text \<open>A step on the objects that leaves the tasks, their nodes and the queues they are on alone.\<close>

lemma kinvw_objects:
  assumes K: "kinvw s Q W T"
    and "\<And>t. nodes s' (Rdy t) = nodes s (Rdy t)" "\<And>t. nodes s' (Syn t) = nodes s (Syn t)"
    and "\<And>t. nodes s' (Slp t) = nodes s (Slp t)"
    and "prioqueue s' = prioqueue s" "priobmap s' = priobmap s" "wqueue s' = wqueue s"
    and "timeout_queue s' = timeout_queue s" "task_pool s' = task_pool s" "taskbmap s' = taskbmap s"
    and "idle_task s' = idle_task s" "current_task s' = current_task s"
    and "int_nest_count s' = int_nest_count s" "dispatching s' = dispatching s" "kctx s' = kctx s"
    and "obj_ok s' W" "lists_ok s'"
  shows "kinvw s' Q W T"
proof -
  have "krep s' Q W T = krep s Q W T"
    by (rule krep_cong) (simp_all add: assms same_links_def)
  moreover have "task_ok s' Q W T t = task_ok s Q W T t" for t
    by (rule task_ok_cong) (auto simp: assms)
  moreover have "sys_ok s' Q"
    by (rule sys_ok_mono [OF kinvw_sys [OF K]]) (simp_all add: assms)
  ultimately show ?thesis
    using K assms(16,17) by (simp add: kinvw_def)
qed

text \<open>An object that does not exist has no waiting task, and its queue is as \<open>memset\<close> leaves it.\<close>

lemma kinvw_no_obj:
  assumes "kinvw s Q W T" "\<not> obj_exists s w"
  shows "W w = []"
  using kinvw_obj [OF assms(1)] assms(2) by (auto simp: obj_ok_def)

lemma kinvw_empty_queue:
  assumes "kinvw s Q W T" "W w = []"
  shows "wqueue s w = queue_init"
  using family_rep_queue [OF krep_family [OF kinvw_krep [OF assms(1)]], of w] assms(2)
  by (cases "wqueue s w") (simp add: queue_rep_def queue_init_def)

section \<open>Waking tasks\<close>

text \<open>The calls that extract a waiting task: \<open>extracts w get\<close> says that \<open>get\<close> is
  \<open>queue_extract\<close> on the wait queue \<open>w\<close>.\<close>

definition extracts :: "wq \<Rightarrow> (kernel \<Rightarrow> nat option \<times> kernel) \<Rightarrow> bool" where
  "extracts w get \<longleftrightarrow> (\<forall>s. let r = queue_extract (wqueue s w) (nodes s)
     in fst (get s) = as_task (fst r) \<and> wq_update w (fst (snd r)) (snd (snd r)) s (snd (get s)))"

definition ctl_kept :: "kernel \<Rightarrow> kernel \<Rightarrow> bool" where
  "ctl_kept s s' \<longleftrightarrow> current_task s' = current_task s \<and> idle_task s' = idle_task s \<and> kctx s' = kctx s \<and>
     sembmap s' = sembmap s \<and> flgbmap s' = flgbmap s \<and> mbxbmap s' = mbxbmap s \<and> mpfbmap s' = mpfbmap s"

lemma ctl_kept_refl [simp]: "ctl_kept s s"
  by (simp add: ctl_kept_def)

lemma ctl_kept_trans: "ctl_kept s s' \<Longrightarrow> ctl_kept s' s'' \<Longrightarrow> ctl_kept s s''"
  by (simp add: ctl_kept_def)

lemma ctl_kept_frame [simp]:
  "ctl_kept s (upd_task t f s') = ctl_kept s s'" "ctl_kept s (rq_insert t s') = ctl_kept s s'"
  "ctl_kept s (write_log e a b s') = ctl_kept s s'" "ctl_kept (write_log e a b s) s' = ctl_kept s s'"
  by (simp_all add: ctl_kept_def)

lemma wq_update_kept: "wq_update w q st s s' \<Longrightarrow> ctl_kept s s'"
  by (simp add: wq_update_def ctl_kept_def)

lemma extractsD:
  assumes "extracts w get" "queue_extract (wqueue s w) (nodes s) = (v, q, st)"
  shows "fst (get s) = as_task v" "wq_update w q st s (snd (get s))"
  using assms unfolding extracts_def Let_def by (metis fst_conv snd_conv)+

lemma extracts_head:
  assumes "extracts w get" "kinvw s Q W T" "W w = t # ts"
  shows "\<exists>s'. get s = (Some t, s') \<and> kinvw s' Q (W(w := ts)) T \<and> ctl_kept s s' \<and>
    bit (taskbmap s') t \<and> t \<noteq> idle_task s' \<and> off_queues Q (W(w := ts)) T t \<and>
    tskstat (task_pool s' t) = TTS_WAI \<and> task_pool s' = task_pool s"
proof -
  define r where "r = queue_extract (wqueue s w) (nodes s)"
  have "fst (get s) = as_task (fst r)" and u: "wq_update w (fst (snd r)) (snd (snd r)) s (snd (get s))"
    using assms(1) by (simp_all add: extracts_def r_def Let_def)
  then show ?thesis
    using kinvw_extract [OF assms(2,3) r_def u] wq_update_kept [OF u] by (metis prod.collapse)
qed

lemma extracts_none:
  assumes "extracts w get" "kinvw s Q W T" "W w = []"
  shows "\<exists>s'. get s = (None, s') \<and> wq_update w (wqueue s w) (nodes s) s s'"
proof -
  have "fst (get s) = as_task None" "wq_update w (wqueue s w) (nodes s) s (snd (get s))"
    by (rule extractsD [OF assms(1) kinvw_extract_empty [OF assms(2,3)]])+
  then show ?thesis
    by (metis as_task_simps(1) prod.collapse)
qed

lemma wq_update_same:
  assumes "wq_update w (wqueue s w) (nodes s) s s'"
  shows "kinvw s' Q W T = kinvw s Q W T"
  by (rule kinvw_cong) (use assms in \<open>auto simp: wq_update_def wq_changed_def\<close>)

text \<open>A deletion loop makes every waiting task ready and ends.\<close>

lemma drain_wakes:
  assumes get: "extracts w get" and K: "kinvw s Q W T"
    and body: "\<And>t s. ctl_kept s (body t s)"
    and ready: "\<And>t s Q W. kinvw s Q W T \<Longrightarrow> bit (taskbmap s) t \<Longrightarrow> t \<noteq> idle_task s \<Longrightarrow>
      off_queues Q W T t \<Longrightarrow> tskstat (task_pool s t) = TTS_WAI \<Longrightarrow> \<exists>Q'. kinvw (body t s) Q' W T"
  shows "\<exists>s' Q'. drain get body s = Some s' \<and> kinvw s' Q' (W(w := [])) T \<and> ctl_kept s s'"
proof -
  define I where "I xs u \<longleftrightarrow> (\<exists>Q'. kinvw u Q' (W(w := xs)) T) \<and> ctl_kept s u" for xs u
  have "I (W w) s"
    using K by (auto simp: I_def)
  moreover have "\<exists>u'. get u = (None, u') \<and> I [] u'" if I: "I [] u" for u
  proof -
    obtain Q' where Q': "kinvw u Q' (W(w := [])) T" "ctl_kept s u"
      using I by (auto simp: I_def)
    then obtain u' where "get u = (None, u')" "wq_update w (wqueue u w) (nodes u) u u'"
      using extracts_none [OF get Q'(1)] by auto
    then show ?thesis
      using Q' wq_update_same wq_update_kept ctl_kept_trans unfolding I_def by blast
  qed
  moreover have "\<exists>u'. get u = (Some t, u') \<and> I ts (body t u')" if I: "I (t # ts) u" for t ts u
  proof -
    obtain Q' where Q': "kinvw u Q' (W(w := t # ts)) T" "ctl_kept s u"
      using I by (auto simp: I_def)
    then obtain u' where u': "get u = (Some t, u')" "kinvw u' Q' (W(w := ts)) T" "ctl_kept u u'"
      "bit (taskbmap u') t" "t \<noteq> idle_task u'" "off_queues Q' (W(w := ts)) T t" "tskstat (task_pool u' t) = TTS_WAI"
      using extracts_head [OF get Q'(1), of t ts] by auto
    then show ?thesis
      using ready [OF u'(2,4-7)] ctl_kept_trans [OF ctl_kept_trans [OF Q'(2) u'(3)] body]
      unfolding I_def by blast
  qed
  ultimately obtain s' where "drain get body s = Some s'" "I [] s'"
    using drain_ends [of I "W w" s get "I []" body] by blast
  then show ?thesis
    by (auto simp: I_def)
qed

section \<open>Semaphores\<close>

lemma kinvw_semcnt:
  assumes K: "kinvw s Q W T" and f: "semque (f (sem_pool s i)) = semque (sem_pool s i)"
    and ok: "bit (sembmap s) i \<Longrightarrow> sem_ok (f (sem_pool s i)) (W (WSem i))"
  shows "kinvw (upd_sem i f s) Q W T"
proof (rule kinvw_objects [OF K])
  show "obj_ok (upd_sem i f s) W"
    using kinvw_obj [OF K] ok by (auto simp: obj_ok_def obj_exists_def upd_sem_def split: wq.splits)
  show "lists_ok (upd_sem i f s)"
    using kinvw_lists [OF K] by (simp add: lists_ok_def upd_sem_def)
  show "wqueue (upd_sem i f s) = wqueue s"
    using f by (simp add: upd_sem_def fun_upd_idem_iff wqueue_def)
qed (simp_all add: upd_sem_def)

lemma extracts_sem: "extracts (WSem i) (sem_extract i)"
  using wq_update_sem by (simp add: extracts_def sem_extract_def Let_def wqueue_def)

lemma sem_extract_none:
  assumes "kinvw s Q W T" "W (WSem i) = []"
  shows "sem_extract i s = (None, s)"
  using kinvw_extract_empty [OF assms] by (simp add: sem_extract_def upd_sem_def wqueue_def)

lemma kinvw_sem:
  "kinvw s Q W T \<Longrightarrow> bit (sembmap s) i \<Longrightarrow> sem_ok (sem_pool s i) (W (WSem i))"
  using kinvw_obj [of s Q W T] by (simp add: obj_ok_def)

text \<open>A valid call of \<open>sig_sem_sys\<close> counts, or wakes the task that has waited longest.\<close>

lemma sig_sem_counted:
  assumes K: "kinvw s Q W T" and i: "bit (sembmap s) i" "i < CONFIG_MAX_SEM"
    and room: "semcnt (sem_pool s i) \<noteq> maxsem (sem_pool s i)" and none: "W (WSem i) = []"
  shows "\<exists>s'. sig_sem_sys (int i + 1) s = (Sched (K_ret E_OK), s') \<and> kinvw s' Q W T \<and> ctl_kept s s' \<and>
    (\<forall>j. semcnt (sem_pool s' j) = (if j = i then semcnt (sem_pool s i) + 1 else semcnt (sem_pool s j)))"
proof -
  let ?l = "write_log TFN_SIG_SEM (int i + 1) E_OK s"
  let ?u = "upd_sem i (\<lambda>x. x\<lparr>semcnt := sint32 (semcnt x + 1)\<rparr>) ?l"
  have l: "kinvw ?l Q W T"
    using K by simp
  have ok: "sem_ok (sem_pool s i) []"
    using kinvw_sem [OF K i(1)] none by simp
  then have "sint32 (semcnt (sem_pool s i) + 1) = semcnt (sem_pool s i) + 1"
    using room by (simp add: sem_ok_def)
  moreover have "kinvw ?u Q W T"
    using ok room none by (intro kinvw_semcnt [OF l]) (auto simp: sem_ok_def)
  moreover have "sig_sem_sys (int i + 1) s = (Sched (K_ret E_OK), ?u)"
    using i room sem_extract_none [OF l none] by (simp add: sig_sem_sys_def Let_def)
  ultimately show ?thesis
    by (auto simp: upd_sem_def ctl_kept_def)
qed

lemma sig_sem_woken:
  assumes K: "kinvw s Q W T" and i: "bit (sembmap s) i" "i < CONFIG_MAX_SEM"
    and room: "semcnt (sem_pool s i) \<noteq> maxsem (sem_pool s i)" and t: "W (WSem i) = t # ts"
    and p: "p = tskpri (task_pool s t)"
  shows "\<exists>s'. sig_sem_sys (int i + 1) s = (Sched (K_ret E_OK), s') \<and>
    kinvw s' (Q(p := Q p @ [t])) (W(WSem i := ts)) T \<and> ctl_kept s s' \<and>
    tskstat (task_pool s' t) = TTS_RDY \<and> (\<forall>j. semcnt (sem_pool s' j) = semcnt (sem_pool s j))"
proof -
  let ?l = "write_log TFN_SIG_SEM (int i + 1) E_OK s"
  have l: "kinvw ?l Q W T"
    using K by simp
  obtain u where u: "sem_extract i ?l = (Some t, u)" "kinvw u Q (W(WSem i := ts)) T"
    "bit (taskbmap u) t" "t \<noteq> idle_task u" "off_queues Q (W(WSem i := ts)) T t" "task_pool u = task_pool s" "ctl_kept s u"
    using extracts_head [OF extracts_sem l t] by auto
  have "kinvw (rq_insert t (set_stat t TTS_RDY u)) (Q(p := Q p @ [t])) (W(WSem i := ts)) T"
    using kinvw_ready [OF u(2-5) refl refl, of "tskstat_update (\<lambda>_. TTS_RDY)"] u(6) p by (simp add: stat_defs)
  moreover have "semcnt (sem_pool u j) = semcnt (sem_pool s j)" for j
    using u(1) by (auto simp: sem_extract_def Let_def upd_sem_def)
  ultimately show ?thesis
    using i room u(1,7) by (simp add: sig_sem_sys_def Let_def)
qed

lemma keeps_sig_sem:
  assumes K: "kinvw s Q W T" "user_level s"
  shows "call_ok s (sig_sem_sys semid s)"
proof (cases "semid < 1 \<or> semid > int CONFIG_MAX_SEM \<or> \<not> isbitset (sembmap s) (nat (semid - 1)) \<or>
    semcnt (sem_pool s (nat (semid - 1))) = maxsem (sem_pool s (nat (semid - 1)))")
  case True
  then show ?thesis
    using call_ok_error [OF K] by (auto simp: sig_sem_sys_def Let_def)
next
  case False
  define i where "i = nat (semid - 1)"
  have i: "semid = int i + 1" "bit (sembmap s) i" "i < CONFIG_MAX_SEM" "semcnt (sem_pool s i) \<noteq> maxsem (sem_pool s i)"
    using False by (auto simp: i_def)
  have "\<exists>s' Q' W'. sig_sem_sys semid s = (Sched (K_ret E_OK), s') \<and> kinvw s' Q' W' T \<and> ctl_kept s s'"
    using sig_sem_counted [OF K(1) i(2-4)] sig_sem_woken [OF K(1) i(2-4) _ refl] unfolding i(1)
    by (cases "W (WSem i)") blast+
  then show ?thesis
    by (auto simp: ctl_kept_def intro!: call_ok_resched)
qed

text \<open>\<open>wai_sem_sys\<close> takes a resource, or puts the caller at the end of the queue.\<close>

lemma wai_sem_taken:
  assumes K: "kinvw s Q W T" and i: "bit (sembmap s) i" "i < CONFIG_MAX_SEM"
    and cnt: "semcnt (sem_pool s i) \<ge> 1"
  shows "\<exists>s'. wai_sem_sys (int i + 1) s = (Ret E_OK, s') \<and> kinvw s' Q W T \<and> ctl_kept s s' \<and>
    (\<forall>j. semcnt (sem_pool s' j) = (if j = i then semcnt (sem_pool s i) - 1 else semcnt (sem_pool s j)))"
proof -
  have "kinvw (upd_sem i (\<lambda>x. x\<lparr>semcnt := semcnt x - 1\<rparr>) s) Q W T"
    using kinvw_sem [OF K i(1)] cnt by (intro kinvw_semcnt [OF K]) (auto simp: sem_ok_def)
  then show ?thesis
    using i cnt by (auto simp: wai_sem_sys_def Let_def upd_sem_def ctl_kept_def)
qed

lemma wai_sem_blocked:
  assumes K: "kinvw s Q W T" "user_level s" "c = current_task s" "p = tskpri (task_pool s c)"
    and i: "bit (sembmap s) i" "i < CONFIG_MAX_SEM" and cnt: "semcnt (sem_pool s i) < 1"
  shows "\<exists>s'. wai_sem_sys (int i + 1) s = (Sched (K_wai_sem (int i + 1)), s') \<and>
    kinvw (calling c (K_wai_sem (int i + 1)) s') (Q(p := remove1 c (Q p))) (W(WSem i := W (WSem i) @ [c])) T \<and>
    ctl_kept s s' \<and> (\<forall>j. semcnt (sem_pool s' j) = semcnt (sem_pool s j))"
proof -
  let ?f = "\<lambda>x. x\<lparr>tskstat := TTS_WAI, tskwait := TTW_SEM, wobjid := int i + 1\<rparr>"
  define r where "r = queue_insert (wqueue s (WSem i)) (Syn c) (nodes s)"
  define u where "u = write_log TFN_WAI_SEM (int i + 1) (uint TTS_WAI)
    (upd_sem i (semque_update (\<lambda>_. fst r)) s\<lparr>nodes := snd r\<rparr>)"
  have "wq_update (WSem i) (fst r) (snd r) s u"
    by (simp add: u_def wq_update_sem)
  then have "kinvw (calling c (K_wai_sem (int i + 1)) (rq_remove c (upd_task c ?f u)))
      (Q(p := remove1 c (Q p))) (W(WSem i := W (WSem i) @ [c])) T"
    using kinvw_wait [OF K _ _ r_def, of u ?f] i kinvw_sem [OF K(1) i(1)] cnt K(4)
    by (auto simp: obj_exists_def sem_ok_def)
  moreover have "wai_sem_sys (int i + 1) s = (Sched (K_wai_sem (int i + 1)), rq_remove c (upd_task c ?f u))"
    using i cnt by (simp add: wai_sem_sys_def sem_enqueue_def Let_def r_def u_def wqueue_def K(3))
  ultimately show ?thesis
    by (auto simp: u_def upd_sem_def ctl_kept_def)
qed

lemma keeps_wai_sem:
  assumes K: "kinvw s Q W T" "user_level s"
  shows "call_ok s (wai_sem_sys semid s)"
proof (cases "semid < 1 \<or> semid > int CONFIG_MAX_SEM \<or> \<not> isbitset (sembmap s) (nat (semid - 1))")
  case True
  then show ?thesis
    using call_ok_error [OF K] by (auto simp: wai_sem_sys_def Let_def)
next
  case False
  define i where "i = nat (semid - 1)"
  have i: "semid = int i + 1" "bit (sembmap s) i" "i < CONFIG_MAX_SEM"
    using False by (auto simp: i_def)
  show ?thesis
  proof (cases "semcnt (sem_pool s i) \<ge> 1")
    case True
    then show ?thesis
      using wai_sem_taken [OF K(1) i(2,3)] K(2) unfolding i(1)
      by (auto simp: ctl_kept_def intro!: call_ok_ret)
  next
    case blocked: False
    then show ?thesis
      using wai_sem_blocked [OF K refl refl i(2,3)] unfolding i(1)
      by (auto simp: ctl_kept_def intro!: call_ok_sched)
  qed
qed

text \<open>The body of every deletion loop: the extracted task becomes ready, with or without a change of
  its state, and its \<open>wobjid\<close> tells it what happened.\<close>

lemma kinvw_ready_dlt:
  assumes "kinvw s Q W T" "bit (taskbmap s) t" "t \<noteq> idle_task s" "off_queues Q W T t"
    and "tskstat (task_pool s t) = TTS_WAI"
  shows "\<exists>Q'. kinvw (set_wobjid t e (rq_insert t s)) Q' W T"
    and "\<exists>Q'. kinvw (set_wobjid t e (rq_insert t (set_stat t TTS_RDY s))) Q' W T"
    and "\<exists>Q'. kinvw (rq_insert t (set_stat t TTS_RDY (set_wobjid t e s))) Q' W T"
proof -
  have upd: "kinvw (set_wobjid t e u) Q' W T = kinvw u Q' W T" for u Q'
    by (simp add: kinvw_upd_task)
  have rdy: "\<exists>Q'. kinvw (rq_insert t (set_stat t TTS_RDY u)) Q' W T"
    if "kinvw u Q W T" "bit (taskbmap u) t" "t \<noteq> idle_task u" for u
    using kinvw_ready [OF that assms(4) refl refl, of "tskstat_update (\<lambda>_. TTS_RDY)"] by (auto simp: stat_defs)
  have "upd_task t (\<lambda>x. x) s = s"
    by (simp add: upd_task_def)
  then show "\<exists>Q'. kinvw (set_wobjid t e (rq_insert t s)) Q' W T"
    using kinvw_ready [OF assms(1-4) refl refl, of "\<lambda>x. x"] assms(5) upd by (auto simp: stat_defs)
  show "\<exists>Q'. kinvw (set_wobjid t e (rq_insert t (set_stat t TTS_RDY s))) Q' W T"
    using rdy [OF assms(1-3)] upd by simp
  show "\<exists>Q'. kinvw (rq_insert t (set_stat t TTS_RDY (set_wobjid t e s))) Q' W T"
    using rdy [of "set_wobjid t e s"] upd [of s Q] assms by simp
qed

text \<open>An object without waiting tasks may be deleted.\<close>

lemma wqueue_bmap [simp]:
  "wqueue (s\<lparr>sembmap := b\<rparr>) = wqueue s" "wqueue (s\<lparr>flgbmap := b\<rparr>) = wqueue s"
  "wqueue (s\<lparr>mbxbmap := b\<rparr>) = wqueue s" "wqueue (s\<lparr>mpfbmap := b\<rparr>) = wqueue s"
  by (auto simp: wqueue_def fun_eq_iff split: wq.splits)

lemma kinvw_delete:
  assumes K: "kinvw s Q W T"
  shows "W (WSem i) = [] \<Longrightarrow> kinvw (s\<lparr>sembmap := clearbit (sembmap s) i\<rparr>) Q W T"
    and "W (WFlg i) = [] \<Longrightarrow> kinvw (s\<lparr>flgbmap := clearbit (flgbmap s) i\<rparr>) Q W T"
    and "W (WMbx i) = [] \<Longrightarrow> kinvw (s\<lparr>mbxbmap := clearbit (mbxbmap s) i\<rparr>) Q W T"
    and "W (WMpf i) = [] \<Longrightarrow> kinvw (s\<lparr>mpfbmap := clearbit (mpfbmap s) i\<rparr>) Q W T"
  using kinvw_obj [OF K] kinvw_lists [OF K]
  by - (rule kinvw_objects [OF K];
      auto simp: obj_ok_def obj_exists_def lists_ok_def split: wq.splits)+

lemma keeps_del_sem:
  assumes K: "kinvw s Q W T" "user_level s"
  shows "call_ok s (del_sem_sys semid s)"
proof (cases "semid < 1 \<or> semid > int CONFIG_MAX_SEM \<or> \<not> isbitset (sembmap s) (nat (semid - 1))")
  case True
  then show ?thesis
    using call_ok_error [OF K] by (auto simp: del_sem_sys_def Let_def)
next
  case False
  define i where "i = nat (semid - 1)"
  let ?l = "write_log TFN_DEL_SEM semid E_OK s"
  have l: "kinvw ?l Q W T"
    using K(1) by simp
  obtain u Q' where u: "del_sem_loop i ?l = Some u" "kinvw u Q' (W(WSem i := [])) T" "ctl_kept s u"
    using drain_wakes [OF extracts_sem l, of "\<lambda>t s. set_wobjid t E_DLT (rq_insert t s)"]
      kinvw_ready_dlt(1) unfolding del_sem_loop_def by force
  then show ?thesis
    using False K(2) kinvw_delete(1) [OF u(2), of i]
    by (auto simp: del_sem_sys_def Let_def i_def [symmetric] ctl_kept_def intro!: call_ok_ret)
qed

lemma fill_sem_frame [simp]:
  "current_task (fill_sem e i c s) = current_task s" "idle_task (fill_sem e i c s) = idle_task s"
  "kctx (fill_sem e i c s) = kctx s" "sembmap (fill_sem e i c s) = setbit (sembmap s) i"
  "mbx_pool (fill_sem e i c s) = mbx_pool s" "active_flg (fill_sem e i c s) = active_flg s"
  "active_sem (fill_sem e i c s) = Some (ActSem i)"
  by (simp_all add: fill_sem_def Let_def upd_sem_def insert_linked_list_def)

lemma kinvw_fill_sem:
  assumes K: "kinvw s Q W T" and i: "\<not> bit (sembmap s) i" "i < 32"
    and c: "0 \<le> cs_isemcnt c" "cs_isemcnt c \<le> cs_maxsem c" "cs_maxsem c < 2 ^ 31"
  shows "kinvw (fill_sem e i c s) Q W T"
proof -
  have empty: "W (WSem i) = []" "semque (sem_pool s i) = queue_init"
    using kinvw_no_obj [OF K, of "WSem i"] kinvw_empty_queue [OF K, of "WSem i"] i
    by (simp_all add: obj_exists_def wqueue_def)
  have act: "opt_in (active_sem s) (range ActSem)"
    using kinvw_lists [OF K] by (simp add: lists_ok_def)
  have nodes: "nodes (fill_sem e i c s) n = nodes s n" if "n \<notin> range ActSem" for n
    using that act by (auto simp: fill_sem_def Let_def insert_linked_list_def opt_in_def upd_sem_def
        set_next_def set_prev_def set_this_def split: option.splits)
  show ?thesis
  proof (rule kinvw_objects [OF K])
    show "obj_ok (fill_sem e i c s) W"
      using kinvw_obj [OF K] empty i c
      by (auto simp: obj_ok_def obj_exists_def fill_sem_def upd_sem_def Let_def sem_ok_def split: wq.splits)
    show "lists_ok (fill_sem e i c s)"
      using kinvw_lists [OF K] by (simp add: lists_ok_def nodes opt_in_def image_iff)
    show "wqueue (fill_sem e i c s) = wqueue s"
      using empty(2) by (auto simp: fun_eq_iff wqueue_def fill_sem_def upd_sem_def Let_def sem_zero_def split: wq.splits)
  qed (use nodes in \<open>auto simp: fill_sem_def upd_sem_def Let_def\<close>)
qed

text \<open>The packets for which the counts make sense; \<open>cre_sem\<close> itself accepts negative counts.\<close>

definition csem_ok :: "T_CSEM option \<Rightarrow> bool" where
  "csem_ok p \<longleftrightarrow> (\<forall>c. p = Some c \<longrightarrow> 0 \<le> cs_isemcnt c \<and> cs_maxsem c < 2 ^ 31)"

lemma call_ok_fill_sem:
  assumes "kinvw s Q W T" "user_level s" "\<not> bit (sembmap s) i" "i < 32"
    and "0 \<le> cs_isemcnt c" "cs_isemcnt c \<le> cs_maxsem c" "cs_maxsem c < 2 ^ 31"
  shows "call_ok s (Ret v, fill_sem e i c s)"
  using kinvw_fill_sem [OF assms(1,3-)] assms(2) by (intro call_ok_ret) simp_all

lemma keeps_acre_sem:
  assumes K: "kinvw s Q W T" "user_level s" and p: "csem_ok p"
  shows "call_ok s (acre_sem_sys p s)"
proof (cases p)
  case (Some c)
  then show ?thesis
    using p ffc_free [of "sembmap s"]
    by (auto simp: acre_sem_sys_def csem_ok_def Let_def
        intro!: call_ok_fill_sem [OF K] call_ok_error [OF K])
qed (simp add: acre_sem_sys_def call_ok_error [OF K])

lemma keeps_cre_sem:
  assumes K: "kinvw s Q W T" "user_level s" and p: "csem_ok p"
  shows "call_ok s (cre_sem_sys semid p s)"
  using p by (auto simp: cre_sem_sys_def csem_ok_def Let_def cfg_defs split: option.split
      intro!: call_ok_fill_sem [OF K] call_ok_error [OF K])

section \<open>Event flags\<close>

lemma kinvw_flg:
  assumes "flgque (f (flg_pool s i)) = flgque (flg_pool s i)"
  shows "kinvw (upd_flg i f s) Q W T = kinvw s Q W T"
proof (rule kinvw_cong)
  show "wqueue (upd_flg i f s) = wqueue s"
    using assms by (simp add: upd_flg_def fun_upd_idem_iff wqueue_def)
qed (simp_all add: upd_flg_def)

lemma extracts_flg: "extracts (WFlg i) (flg_extract i)"
  using wq_update_flg by (simp add: extracts_def flg_extract_def Let_def wqueue_def)

lemma kinvw_waiter:
  assumes "kinvw s Q W T" "t \<in> set (W w)"
  shows "ll_this (nodes s (Syn t)) = Some (Tsk t)"
  using kinvw_task [OF assms(1), of t] assms(2) by (simp add: task_ok_def) blast

text \<open>Releasing one waiting task. The node it waited with is linked nowhere afterwards.\<close>

lemma kinvw_flg_release:
  assumes K: "kinvw s Q W T" and t: "t \<in> set (W (WFlg i))"
  shows "\<exists>Q'. kinvw (flg_release i t s) Q' (W(WFlg i := remove1 t (W (WFlg i)))) T"
    and "ll_next (nodes (flg_release i t s) (Syn t)) = None"
proof -
  let ?W = "W(WFlg i := remove1 t (W (WFlg i)))"
  define r where "r = queue_remove (wqueue s (WFlg i)) (Syn t) (nodes s)"
  define u where "u = upd_flg i (flgque_update (\<lambda>_. fst r)) s\<lparr>nodes := snd r\<rparr>"
  have rel: "flg_release i t s = rq_insert t (set_stat t TTS_RDY u)"
    by (simp add: flg_release_def Let_def u_def r_def wqueue_def)
  have "wq_update (WFlg i) (fst r) (snd r) s u"
    by (simp add: u_def wq_update_flg)
  note e = kinvw_wq_remove [OF K t r_def this]
  show *: "\<exists>Q'. kinvw (flg_release i t s) Q' ?W T"
    using kinvw_ready [OF e(1-4) refl refl, of "tskstat_update (\<lambda>_. TTS_RDY)"] by (auto simp: rel stat_defs)
  then obtain Q' where "kinvw (flg_release i t s) Q' ?W T"
    by blast
  then have "isolated (nodes (flg_release i t s)) (Syn t)"
    using family_rep_isolated [OF krep_family [OF kinvw_krep]] e(4) by (simp add: off_queues_def)
  then show "ll_next (nodes (flg_release i t s) (Syn t)) = None"
    by (simp add: isolated_def)
qed

lemma wait_queue_next:
  assumes "kinvw s Q W T" "W w = xs @ t # ys"
  shows "ll_next (nodes s (Syn t)) = first_of (map Syn ys)"
proof -
  have "dseg (nodes s) None (map Syn xs @ Syn t # map Syn ys) None"
    using family_rep_queue [OF krep_family [OF kinvw_krep [OF assms(1)]], of w] assms(2)
    by (simp add: queue_rep_def)
  then show ?thesis
    by (auto simp: dseg_append split: if_splits)
qed

text \<open>What \<open>set_flg_sys\<close> does to the tasks that wait: the first one whose condition holds is released,
  and the walk ends there, also for a flag created with \<open>TA_WMUL\<close>.\<close>

definition flg_wake :: "nat \<Rightarrow> nat \<Rightarrow> kernel \<Rightarrow> kernel" where
  "flg_wake i t s =
     (let s' = flg_release i t s
      in if flgatr (flg_pool s i) AND TA_CLR \<noteq> 0 then upd_flg i (flgptn_update (\<lambda>_. 0)) s' else s')"

lemma flg_release_atr [simp]: "flgatr (flg_pool (flg_release i t s) i) = flgatr (flg_pool s i)"
  by (simp add: flg_release_def Let_def upd_flg_def)

lemma set_flg_walk:
  assumes K: "kinvw s Q W T" and "W (WFlg i) = xs @ ys"
    and "\<And>t. t \<in> set xs \<Longrightarrow> \<not> flg_releases (flgptn (flg_pool s i)) (task_pool s t)"
  shows "while_option (\<lambda>(slist, s). slist \<noteq> None) (set_flg_step i) (first_of (map Syn ys), s) =
    Some (None, case find (\<lambda>t. flg_releases (flgptn (flg_pool s i)) (task_pool s t)) ys of
      None \<Rightarrow> s | Some t \<Rightarrow> flg_wake i t s)"
  using assms(2,3)
proof (induction ys arbitrary: xs)
  case Nil
  then show ?case
    by (simp add: while_option_unfold)
next
  case (Cons t ys)
  have t: "t \<in> set (W (WFlg i))"
    using Cons.prems(1) by simp
  note nxt = wait_queue_next [OF K Cons.prems(1)]
  show ?case
  proof (cases "flg_releases (flgptn (flg_pool s i)) (task_pool s t)")
    case True
    then have "set_flg_step i (Some (Syn t), s) = (None, flg_wake i t s)"
      using kinvw_waiter [OF K t] kinvw_flg_release(2) [OF K t]
      by (simp add: set_flg_step_def Let_def flg_wake_def)
    then show ?thesis
      using True by (simp add: while_option_unfold)
  next
    case False
    then have "set_flg_step i (Some (Syn t), s) = (first_of (map Syn ys), s)"
      using kinvw_waiter [OF K t] nxt by (simp add: set_flg_step_def)
    moreover have "\<not> flg_releases (flgptn (flg_pool s i)) (task_pool s u)" if "u \<in> set (xs @ [t])" for u
      using that False Cons.prems(2) by auto
    ultimately show ?thesis
      using False Cons.IH [of "xs @ [t]"] Cons.prems(1) by (subst while_option_unfold) simp
  qed
qed

lemma set_flg_loop_eq:
  assumes K: "kinvw s Q W T"
  shows "set_flg_loop i s =
    Some (case find (\<lambda>t. flg_releases (flgptn (flg_pool s i)) (task_pool s t)) (W (WFlg i)) of
      None \<Rightarrow> s | Some t \<Rightarrow> flg_wake i t s)"
proof -
  have "head (flgque (flg_pool s i)) = first_of (map Syn (W (WFlg i)))"
    using family_rep_queue [OF krep_family [OF kinvw_krep [OF K]], of "WFlg i"]
    by (simp add: queue_rep_def wqueue_def)
  then show ?thesis
    using set_flg_walk [OF K, of i "[]"] by (simp add: set_flg_loop_def)
qed

lemma kinvw_flg_wake:
  assumes "kinvw s Q W T" "t \<in> set (W (WFlg i))"
  shows "\<exists>Q' W'. kinvw (flg_wake i t s) Q' W' T" "ctl_kept s (flg_wake i t s)"
proof -
  show "\<exists>Q' W'. kinvw (flg_wake i t s) Q' W' T"
    using kinvw_flg_release(1) [OF assms] by (auto simp: flg_wake_def Let_def kinvw_flg)
  show "ctl_kept s (flg_wake i t s)"
    by (simp add: flg_wake_def flg_release_def Let_def ctl_kept_def upd_flg_def)
qed

lemma keeps_clr_flg:
  assumes K: "kinvw s Q W T" "user_level s"
  shows "call_ok s (clr_flg_sys flgid ptn s)"
proof -
  have "call_ok s (Ret E_OK, upd_flg i (\<lambda>x. x\<lparr>flgptn := flgptn x AND ptn\<rparr>) s)" for i
  proof (rule call_ok_ret)
    show "kinvw (upd_flg i (\<lambda>x. x\<lparr>flgptn := flgptn x AND ptn\<rparr>) s) Q W T"
      using K(1) by (simp add: kinvw_flg)
  qed (use K in \<open>simp_all add: upd_flg_def\<close>)
  then show ?thesis
    using call_ok_error [OF K] by (simp add: clr_flg_sys_def Let_def)
qed

lemma keeps_set_flg:
  assumes K: "kinvw s Q W T" "user_level s"
  shows "call_ok s (set_flg_sys flgid ptn s)"
proof (cases "ptn = 0 \<or> flgid < 1 \<or> flgid > int CONFIG_MAX_EVENT \<or> \<not> isbitset (flgbmap s) (nat (flgid - 1))")
  case True
  then show ?thesis
    using call_ok_error [OF K] by (auto simp: set_flg_sys_def Let_def)
next
  case False
  define i where "i = nat (flgid - 1)"
  define u where "u = write_log TFN_SET_FLG flgid E_OK (upd_flg i (\<lambda>x. x\<lparr>flgptn := flgptn x OR ptn\<rparr>) s)"
  have u: "kinvw u Q W T" "ctl_kept s u"
    using K(1) by (simp_all add: u_def kinvw_flg) (simp add: ctl_kept_def upd_flg_def)
  have run: "set_flg_sys flgid ptn s = (if queue_is_empty (flgque (flg_pool u i)) then (Sched (K_ret E_OK), u)
      else case set_flg_loop i u of None \<Rightarrow> (Fault, s) | Some s2 \<Rightarrow> (Sched (K_ret E_OK), s2))"
    using False by (simp add: set_flg_sys_def Let_def u_def i_def)
  show ?thesis
  proof (cases "find (\<lambda>t. flg_releases (flgptn (flg_pool u i)) (task_pool u t)) (W (WFlg i))")
    case None
    then show ?thesis
      unfolding run set_flg_loop_eq [OF u(1)]
      using call_ok_resched [OF u(1)] u(2) by (simp add: ctl_kept_def)
  next
    case (Some t)
    then have "t \<in> set (W (WFlg i))"
      by (auto simp: find_Some_iff)
    from kinvw_flg_wake [OF u(1) this] obtain Q' W' where "kinvw (flg_wake i t u) Q' W' T"
      "ctl_kept s (flg_wake i t u)"
      using ctl_kept_trans [OF u(2)] by blast
    then show ?thesis
      unfolding run set_flg_loop_eq [OF u(1)]
      using Some u call_ok_resched by (simp add: ctl_kept_def)
  qed
qed

lemma wai_flg_blocked:
  assumes K: "kinvw s Q W T" "user_level s" "c = current_task s" "q = tskpri (task_pool s c)"
    and i: "bit (flgbmap s) i" "i < CONFIG_MAX_EVENT"
    and arg: "waiptn \<noteq> 0" "wfmode \<le> 1" "p \<noteq> 0"
    and wait: "flgatr (flg_pool s i) AND TA_WMUL = 0 \<longrightarrow> queue_is_empty (flgque (flg_pool s i))"
      "wai_flg_match waiptn wfmode (flgptn (flg_pool s i)) = 0"
  shows "\<exists>s'. wai_flg_sys (int i + 1) waiptn wfmode p s = (Sched (K_wai_flg (int i + 1)), s') \<and>
    kinvw (calling c (K_wai_flg (int i + 1)) s') (Q(q := remove1 c (Q q))) (W(WFlg i := W (WFlg i) @ [c])) T \<and>
    ctl_kept s s'"
proof -
  let ?f = "\<lambda>x. x\<lparr>tskstat := TTS_WAI, tskwait := TTW_FLG\<rparr>"
  define v where "v = upd_task c (wflgptn_update (\<lambda>_. waiptn)) s"
  define r where "r = queue_insert (wqueue v (WFlg i)) (Syn c) (nodes v)"
  define u where "u = write_log TFN_WAI_FLG (int i + 1) (uint TTS_WAI)
    (upd_flg i (flgque_update (\<lambda>_. fst r)) v\<lparr>nodes := snd r\<rparr>)"
  have v: "kinvw v Q W T" "user_level v" "c = current_task v" "q = tskpri (task_pool v c)"
    using K by (simp_all add: v_def kinvw_upd_task user_level_def)
  have "wq_update (WFlg i) (fst r) (snd r) v u"
    by (simp add: u_def wq_update_flg)
  then have "kinvw (calling c (K_wai_flg (int i + 1)) (rq_remove c (upd_task c ?f u)))
      (Q(q := remove1 c (Q q))) (W(WFlg i := W (WFlg i) @ [c])) T"
    using kinvw_wait [OF v _ _ r_def, of u ?f] i v(4) by (simp add: obj_exists_def v_def)
  moreover have "wai_flg_sys (int i + 1) waiptn wfmode p s =
      (Sched (K_wai_flg (int i + 1)), rq_remove c (upd_task c ?f u))"
    using i arg wait by (simp add: wai_flg_sys_def Let_def r_def u_def v_def wqueue_def K(3))
  ultimately show ?thesis
    by (auto simp: u_def v_def upd_flg_def ctl_kept_def)
qed

lemma keeps_wai_flg:
  assumes K: "kinvw s Q W T" "user_level s"
  shows "call_ok s (wai_flg_sys flgid waiptn wfmode p s)"
proof (cases "waiptn = 0 \<or> wfmode > 1 \<or> p = 0 \<or> flgid < 1 \<or> flgid > int CONFIG_MAX_EVENT \<or>
    \<not> isbitset (flgbmap s) (nat (flgid - 1)) \<or>
    flgatr (flg_pool s (nat (flgid - 1))) AND TA_WMUL = 0 \<and> \<not> queue_is_empty (flgque (flg_pool s (nat (flgid - 1))))")
  case True
  then show ?thesis
    using call_ok_error [OF K] by (auto simp: wai_flg_sys_def Let_def)
next
  case False
  define i where "i = nat (flgid - 1)"
  have i: "flgid = int i + 1" "bit (flgbmap s) i" "i < CONFIG_MAX_EVENT"
    using False by (auto simp: i_def)
  show ?thesis
  proof (cases "wai_flg_match waiptn wfmode (flgptn (flg_pool s i)) = 0")
    case match: False
    have "kinvw (s\<lparr>kmem := m\<rparr>) Q W T" "kinvw (upd_flg i (flgptn_update (\<lambda>_. 0)) (s\<lparr>kmem := m\<rparr>)) Q W T" for m
      using K(1) by (simp_all add: kinvw_flg)
    then show ?thesis
      using False match K(2)
      by (auto simp: wai_flg_sys_def Let_def i_def upd_flg_def intro!: call_ok_ret)
  next
    case True
    then show ?thesis
      using wai_flg_blocked [OF K refl refl i(2,3), of waiptn wfmode p] False unfolding i(1)
      by (auto simp: ctl_kept_def not_less intro!: call_ok_sched)
  qed
qed

lemma keeps_del_flg:
  assumes K: "kinvw s Q W T" "user_level s"
  shows "call_ok s (del_flg_sys flgid s)"
proof (cases "flgid < 1 \<or> flgid > int CONFIG_MAX_EVENT \<or> \<not> isbitset (flgbmap s) (nat (flgid - 1))")
  case True
  then show ?thesis
    using call_ok_error [OF K] by (auto simp: del_flg_sys_def Let_def)
next
  case False
  define i where "i = nat (flgid - 1)"
  let ?l = "write_log TFN_DEL_FLG flgid E_OK s"
  have l: "kinvw ?l Q W T"
    using K(1) by simp
  obtain u Q' where u: "del_flg_loop i ?l = Some u" "kinvw u Q' (W(WFlg i := [])) T" "ctl_kept s u"
    using drain_wakes [OF extracts_flg l, of "\<lambda>t s. set_wobjid t E_DLT (rq_insert t (set_stat t TTS_RDY s))"]
      kinvw_ready_dlt(2) unfolding del_flg_loop_def by force
  then show ?thesis
    using False kinvw_delete(2) [OF u(2), of i]
    by (auto simp: del_flg_sys_def Let_def i_def [symmetric] ctl_kept_def intro!: call_ok_resched)
qed

lemma fill_flg_frame [simp]:
  "current_task (fill_flg i c s) = current_task s" "idle_task (fill_flg i c s) = idle_task s"
  "kctx (fill_flg i c s) = kctx s" "flgbmap (fill_flg i c s) = setbit (flgbmap s) i"
  "mbx_pool (fill_flg i c s) = mbx_pool s" "active_sem (fill_flg i c s) = active_sem s"
  "active_flg (fill_flg i c s) = Some (ActFlg i)"
  by (simp_all add: fill_flg_def Let_def upd_flg_def insert_linked_list_def)

lemma kinvw_fill_flg:
  assumes K: "kinvw s Q W T" and i: "\<not> bit (flgbmap s) i"
  shows "kinvw (fill_flg i c s) Q W T"
proof -
  have empty: "W (WFlg i) = []" "flgque (flg_pool s i) = queue_init"
    using kinvw_no_obj [OF K, of "WFlg i"] kinvw_empty_queue [OF K, of "WFlg i"] i
    by (simp_all add: obj_exists_def wqueue_def)
  have act: "opt_in (active_flg s) (range ActFlg)"
    using kinvw_lists [OF K] by (simp add: lists_ok_def)
  have nodes: "nodes (fill_flg i c s) n = nodes s n" if "n \<notin> range ActFlg" for n
    using that act by (auto simp: fill_flg_def Let_def insert_linked_list_def opt_in_def upd_flg_def
        set_next_def set_prev_def set_this_def split: option.splits)
  show ?thesis
  proof (rule kinvw_objects [OF K])
    show "obj_ok (fill_flg i c s) W"
      using kinvw_obj [OF K] empty
      by (auto simp: obj_ok_def obj_exists_def fill_flg_def upd_flg_def Let_def split: wq.splits)
    show "lists_ok (fill_flg i c s)"
      using kinvw_lists [OF K] by (simp add: lists_ok_def nodes opt_in_def image_iff)
    show "wqueue (fill_flg i c s) = wqueue s"
      using empty(2) by (auto simp: fun_eq_iff wqueue_def fill_flg_def upd_flg_def Let_def flg_zero_def split: wq.splits)
  qed (use nodes in \<open>auto simp: fill_flg_def upd_flg_def Let_def\<close>)
qed

lemma keeps_cre_flg:
  assumes K: "kinvw s Q W T" "user_level s"
  shows "call_ok s (cre_flg_sys flgid p s)"
proof -
  have "call_ok s (Ret v, fill_flg i c s)" if "\<not> bit (flgbmap s) i" for v i c
    using kinvw_fill_flg [OF K(1) that] K(2) by (intro call_ok_ret) simp_all
  then show ?thesis
    using call_ok_error [OF K] by (simp add: cre_flg_sys_def Let_def split: option.split)
qed

section \<open>The calls meet the contract\<close>

interpretation acre_sem: kernel_call "\<lambda>_. csem_ok p" "acre_sem_sys p" for p
  by unfold_locales (rule keeps_acre_sem)

interpretation cre_sem: kernel_call "\<lambda>_. csem_ok p" "cre_sem_sys i p" for i p
  by unfold_locales (rule keeps_cre_sem)

interpretation del_sem: kernel_call "\<lambda>_. True" "del_sem_sys i" for i
  by unfold_locales (rule keeps_del_sem)

interpretation sig_sem: kernel_call "\<lambda>_. True" "sig_sem_sys i" for i
  by unfold_locales (rule keeps_sig_sem)

interpretation wai_sem: kernel_call "\<lambda>_. True" "wai_sem_sys i" for i
  by unfold_locales (rule keeps_wai_sem)

interpretation clr_flg: kernel_call "\<lambda>_. True" "clr_flg_sys i ptn" for i ptn
  by unfold_locales (rule keeps_clr_flg)

interpretation cre_flg: kernel_call "\<lambda>_. True" "cre_flg_sys i p" for i p
  by unfold_locales (rule keeps_cre_flg)

interpretation del_flg: kernel_call "\<lambda>_. True" "del_flg_sys i" for i
  by unfold_locales (rule keeps_del_flg)

interpretation set_flg: kernel_call "\<lambda>_. True" "set_flg_sys i ptn" for i ptn
  by unfold_locales (rule keeps_set_flg)

interpretation wai_flg: kernel_call "\<lambda>_. True" "wai_flg_sys i ptn m p" for i ptn m p
  by unfold_locales (rule keeps_wai_flg)

end
