(* ===== verification/Inv_Mbx.thy ===== *)
theory Inv_Mbx
  imports Inv_Sync
begin

text \<open>
  The invariant under the operations on mailboxes and fixed-size memory pools. The messages of a
  mailbox are blocks of a pool in memory that the tasks share, so nothing here relies on what the
  allocator returns: the mailbox calls have the weaker contract \<open>safe_call\<close>.
\<close>

section \<open>Queues of nodes of one class\<close>

text \<open>\<open>links_in A q st\<close>: the queue and the nodes of \<open>A\<close> point only to nodes of \<open>A\<close>.\<close>

definition links_in :: "node set \<Rightarrow> node queue_t \<Rightarrow> nodes_t \<Rightarrow> bool" where
  "links_in A q st \<longleftrightarrow> opt_in (head q) A \<and> opt_in (tail q) A \<and>
     (\<forall>n \<in> A. opt_in (ll_next (st n)) A \<and> opt_in (ll_prev (st n)) A)"

lemma opt_in_simps [simp]: "opt_in None A" "opt_in (Some n) A \<longleftrightarrow> n \<in> A"
  by (simp_all add: opt_in_def)

lemma queue_insert_links_in:
  assumes "links_in A q st" "p \<in> A"
  shows "links_in A (fst (queue_insert q p st)) (snd (queue_insert q p st))"
    and "n \<notin> A \<Longrightarrow> snd (queue_insert q p st) n = st n"
  using assms by (cases "tail q"; cases "head q";
      auto simp: links_in_def queue_insert_def Let_def set_next_def set_prev_def)+

lemma queue_extract_links_in:
  assumes "links_in A q st" "queue_extract q st = (v, q', st')"
  shows "links_in A q' st'" "n \<notin> A \<Longrightarrow> st' n = st n"
proof -
  have h: "opt_in (head q) A" "opt_in (tail q) A"
    and l: "\<And>n. n \<in> A \<Longrightarrow> opt_in (ll_next (st n)) A \<and> opt_in (ll_prev (st n)) A"
    using assms(1) by (simp_all add: links_in_def)
  have "links_in A q' st' \<and> (\<forall>n. n \<notin> A \<longrightarrow> st' n = st n)"
  proof (cases "head q")
    case None
    then show ?thesis
      using assms h by (auto simp: queue_extract_def Let_def links_in_def)
  next
    case (Some p)
    then show ?thesis
      using assms(2) h l [of p] l
      by (cases "ll_next (st p)") (auto simp: queue_extract_def Let_def links_in_def set_next_def set_prev_def)
  qed
  then show "links_in A q' st'" "n \<notin> A \<Longrightarrow> st' n = st n"
    by auto
qed

section \<open>Messages\<close>

lemma lists_ok_links: "lists_ok s \<Longrightarrow> links_in (range MsgQ) (msgque (mbx_pool s i)) (nodes s)"
  by (auto simp: lists_ok_def links_in_def)

text \<open>A change of one message queue.\<close>

lemma kinvw_msgque:
  assumes K: "kinvw s Q W T" and q: "links_in (range MsgQ) q st"
    and st: "\<And>n. n \<notin> range MsgQ \<Longrightarrow> st n = nodes s n"
  shows "kinvw (upd_mbx i (msgque_update (\<lambda>_. q)) s\<lparr>nodes := st\<rparr>) Q W T"
proof (rule kinvw_objects [OF K])
  let ?s = "upd_mbx i (msgque_update (\<lambda>_. q)) s\<lparr>nodes := st\<rparr>"
  show "obj_ok ?s W"
    using kinvw_obj [OF K] obj_ok_cong [of ?s s W] by (simp add: upd_mbx_def)
  show "lists_ok ?s"
    using kinvw_lists [OF K] q by (auto simp: lists_ok_def links_in_def upd_mbx_def)
  show "wqueue ?s = wqueue s"
    by (auto simp: fun_eq_iff wqueue_def upd_mbx_def split: wq.splits)
qed (use st in \<open>auto simp: upd_mbx_def\<close>)

lemma kinvw_extract_msg:
  assumes "kinvw s Q W T"
  shows "kinvw (snd (mbx_extract_msg i s)) Q W T" "ctl_kept s (snd (mbx_extract_msg i s))"
proof -
  obtain v q st where r: "queue_extract (msgque (mbx_pool s i)) (nodes s) = (v, q, st)"
    by (rule prod_cases3)
  then show "kinvw (snd (mbx_extract_msg i s)) Q W T"
    using kinvw_msgque [OF assms] queue_extract_links_in [OF lists_ok_links [OF kinvw_lists [OF assms]] r]
    by (simp add: mbx_extract_msg_def)
  show "ctl_kept s (snd (mbx_extract_msg i s))"
    by (simp add: mbx_extract_msg_def Let_def ctl_kept_def upd_mbx_def)
qed

lemma kinvw_msg_free: "kinvw (msg_free m s) Q W T = kinvw s Q W T" "ctl_kept s (msg_free m u) = ctl_kept s u"
  by (simp_all add: msg_free_def ctl_kept_def)

lemma extracts_mbx: "extracts (WMbx i) (mbx_extract_task i)"
  using wq_update_mbx by (simp add: extracts_def mbx_extract_task_def Let_def wqueue_def)

lemma keeps_del_mbx:
  assumes K: "kinvw s Q W T" "user_level s"
  shows "call_safe s (del_mbx_sys mbxid s)"
proof (cases "mbxid < 1 \<or> mbxid > int CONFIG_MAX_MAILBOX \<or> \<not> isbitset (mbxbmap s) (nat (mbxid - 1))")
  case True
  then show ?thesis
    using call_ok_error [OF K] by (auto simp: call_safe_def del_mbx_sys_def Let_def)
next
  case False
  define i where "i = nat (mbxid - 1)"
  let ?l = "write_log TFN_DEL_MBX mbxid E_OK s"
  have l: "kinvw ?l Q W T"
    using K(1) by simp
  obtain u Q' where u: "del_mbx_wake_loop i ?l = Some u" "kinvw u Q' (W(WMbx i := [])) T" "ctl_kept s u"
    using drain_wakes [OF extracts_mbx l, of "\<lambda>t s. set_wobjid t E_DLT (rq_insert t (set_stat t TTS_RDY s))"]
      kinvw_ready_dlt(2) unfolding del_mbx_wake_loop_def by force
  show ?thesis
  proof (cases "del_mbx_msg_loop i u")
    case None
    then show ?thesis
      using False u by (simp add: call_safe_def del_mbx_sys_def Let_def i_def [symmetric])
  next
    case (Some v)
    define I where "I x \<longleftrightarrow> kinvw x Q' (W(WMbx i := [])) T \<and> ctl_kept s x" for x
    have "I v"
      by (rule drain_inv [OF Some [unfolded del_mbx_msg_loop_def]])
        (use u(2,3) kinvw_extract_msg ctl_kept_trans in \<open>unfold I_def kinvw_msg_free, blast+\<close>)
    then have "kinvw v Q' (W(WMbx i := [])) T \<and> ctl_kept s v"
      by (simp add: I_def)
    then show ?thesis
      using False Some u(1) kinvw_delete(3) [of v Q' "W(WMbx i := [])" T i]
      by (auto simp: call_safe_def del_mbx_sys_def Let_def i_def [symmetric] ctl_kept_def intro!: call_ok_resched)
  qed
qed

lemma kinvw_fill_mbx:
  assumes K: "kinvw s Q W T" and i: "\<not> bit (mbxbmap s) i"
    and x: "mbxque x = queue_init" "msgque x = queue_init" and b: "b = mbxbmap s"
  shows "kinvw (upd_mbx i (\<lambda>_. x) s\<lparr>mbxbmap := setbit b i\<rparr>) Q W T"
proof -
  let ?s = "upd_mbx i (\<lambda>_. x) s\<lparr>mbxbmap := setbit b i\<rparr>"
  have empty: "mbxque (mbx_pool s i) = queue_init"
    using kinvw_no_obj [OF K, of "WMbx i"] kinvw_empty_queue [OF K, of "WMbx i"] i
    by (simp add: obj_exists_def wqueue_def)
  show ?thesis
  proof (rule kinvw_objects [OF K])
    show "obj_ok ?s W"
      using kinvw_obj [OF K] b by (auto simp: obj_ok_def obj_exists_def upd_mbx_def split: wq.splits)
    show "lists_ok ?s"
      using kinvw_lists [OF K] x(2) by (auto simp: lists_ok_def upd_mbx_def queue_init_def)
    show "wqueue ?s = wqueue s"
      using empty x(1) by (auto simp: fun_eq_iff wqueue_def upd_mbx_def split: wq.splits)
  qed (simp_all add: upd_mbx_def)
qed

lemma keeps_new_mbx:
  assumes K: "kinvw s Q W T" "user_level s"
  shows "call_ok s (acre_mbx_sys p s)" "call_ok s (cre_mbx_sys mbxid p s)"
proof -
  have new: "call_ok s (Ret v, write_log e a b (upd_mbx i
      (\<lambda>_. mbx_zero\<lparr>mbxatr := x, maxmpri := y\<rparr>) s\<lparr>mbxbmap := setbit (mbxbmap s) i\<rparr>))"
    if "\<not> bit (mbxbmap s) i" for v e a b i x y
    using kinvw_fill_mbx [OF K(1) that, of "mbx_zero\<lparr>mbxatr := x, maxmpri := y\<rparr>"] K(2)
    by (auto simp: mbx_zero_def upd_mbx_def intro!: call_ok_ret)
  have "mbxbmap (upd_mbx i f s) = mbxbmap s" for i f
    by (simp add: upd_mbx_def)
  then show "call_ok s (cre_mbx_sys mbxid p s)" "call_ok s (acre_mbx_sys p s)"
    using new call_ok_error [OF K] ffc_free [of "mbxbmap s"]
    by (auto simp: acre_mbx_sys_def cre_mbx_sys_def Let_def split: option.split)
qed

lemma call_safe_take:
  assumes K: "kinvw s Q W T" "user_level s"
  shows "call_safe s (mbx_take e a i mbxid p s)"
proof -
  obtain m u where r: "mbx_extract_msg i s = (m, u)"
    by fastforce
  have u: "kinvw u Q W T" "ctl_kept s u"
    using kinvw_extract_msg [OF K(1), of i] r by simp_all
  then have "call_ok s (Ret v, write_log e a b (msg_free x (u\<lparr>kmem := k\<rparr>)))" for v a b x k
    using K(2) by (intro call_ok_ret) (auto simp: kinvw_msg_free ctl_kept_def msg_free_def)
  then show ?thesis
    by (simp add: mbx_take_def r call_safe_def Let_def split: option.split)
qed

lemma keeps_rcv_mbx:
  assumes K: "kinvw s Q W T" "user_level s"
  shows "call_safe s (rcv_mbx_sys mbxid p s)"
proof (cases "mbxid < 1 \<or> mbxid > int CONFIG_MAX_MAILBOX \<or> p = 0 \<or> \<not> isbitset (mbxbmap s) (nat (mbxid - 1)) \<or>
    \<not> queue_is_empty (msgque (mbx_pool s (nat (mbxid - 1))))")
  case True
  then show ?thesis
    using call_ok_error [OF K] call_safe_take [OF K] by (auto simp: call_safe_def rcv_mbx_sys_def Let_def)
next
  case False
  define i where "i = nat (mbxid - 1)"
  let ?f = "\<lambda>x. x\<lparr>tskstat := TTS_WAI, tskwait := TTW_MBX, wobjid := mbxid\<rparr>" and ?c = "current_task s"
  define r where "r = queue_insert (wqueue s (WMbx i)) (Syn ?c) (nodes s)"
  define u where "u = write_log TFN_RCV_MBX mbxid (uint TTS_WAI)
    (upd_mbx i (mbxque_update (\<lambda>_. fst r)) s\<lparr>nodes := snd r\<rparr>)"
  have "wq_update (WMbx i) (fst r) (snd r) s u"
    by (simp add: u_def wq_update_mbx)
  then have "\<exists>Q' W'. kinvw (calling ?c (K_rcv_mbx mbxid p) (rq_remove ?c (upd_task ?c ?f u))) Q' W' T"
    using kinvw_wait [OF K refl refl _ _ r_def, of u ?f] False by (auto simp: obj_exists_def i_def)
  moreover have "rcv_mbx_sys mbxid p s = (Sched (K_rcv_mbx mbxid p), rq_remove ?c (upd_task ?c ?f u))"
    using False by (simp add: rcv_mbx_sys_def mbx_enqueue_def Let_def i_def r_def u_def wqueue_def)
  ultimately show ?thesis
    by (auto simp: call_safe_def u_def upd_mbx_def intro!: call_ok_sched)
qed

lemma kinvw_new_msg:
  assumes K: "kinvw s Q W T"
  shows "kinvw (s\<lparr>nodes := set_this (MsgQ m) v (nodes s)\<rparr>) Q W T"
proof -
  let ?s = "s\<lparr>nodes := set_this (MsgQ m) v (nodes s)\<rparr>"
  show ?thesis
  proof (rule kinvw_objects [OF K])
    show "obj_ok ?s W"
      using kinvw_obj [OF K] obj_ok_cong [of ?s s W] by simp
    show "lists_ok ?s"
      using kinvw_lists [OF K] by (simp add: lists_ok_def)
  qed (simp_all add: set_this_def)
qed

lemma keeps_snd_mbx:
  assumes K: "kinvw s Q W T" "user_level s"
  shows "call_safe s (snd_mbx_sys mbxid p s)"
proof (cases "mbxid < 1 \<or> mbxid > int CONFIG_MAX_MAILBOX \<or> p = 0 \<or> \<not> isbitset (mbxbmap s) (nat (mbxid - 1)) \<or>
    fst (mpalloc (msg_pool s) (kmem s)) = 0")
  case True
  then show ?thesis
    using call_ok_error [OF K] by (auto simp: call_safe_def snd_mbx_sys_def Let_def)
next
  case False
  define i where "i = nat (mbxid - 1)"
  define m where "m = fst (mpalloc (msg_pool s) (kmem s))"
  define u where "u = write_log TFN_SND_MBX mbxid E_OK
    (s\<lparr>kmem := (snd (mpalloc (msg_pool s) (kmem s)))(m := p), nodes := set_this (MsgQ m) (Some (Msg m)) (nodes s)\<rparr>)"
  have u: "kinvw u Q W T" "ctl_kept s u"
    using kinvw_new_msg [of "s\<lparr>kmem := (snd (mpalloc (msg_pool s) (kmem s)))(m := p)\<rparr>" Q W T m "Some (Msg m)"] K(1)
    by (simp_all add: u_def) (simp add: ctl_kept_def)
  have run: "snd_mbx_sys mbxid p s = (if \<not> queue_is_empty (mbxque (mbx_pool u i)) then
      (case mbx_extract_task i u of (None, s) \<Rightarrow> (Fault, s) | (Some t, s) \<Rightarrow>
        (Sched (K_ret E_OK), rq_insert t (upd_task t (\<lambda>x. x\<lparr>tskstat := TTS_RDY, extdat := m\<rparr>) s)))
      else let r = queue_insert (msgque (mbx_pool u i)) (MsgQ m) (nodes u)
        in (Sched (K_ret E_OK), upd_mbx i (msgque_update (\<lambda>_. fst r)) u\<lparr>nodes := snd r\<rparr>))"
    using False unfolding u_def m_def i_def by (simp add: snd_mbx_sys_def Let_def)
  have empty: "queue_is_empty (mbxque (mbx_pool u i)) \<longleftrightarrow> W (WMbx i) = []"
    using krep_wq_is_empty [OF kinvw_krep [OF u(1)], of "WMbx i"] by (simp add: wqueue_def)
  show ?thesis
  proof (cases "W (WMbx i)")
    case Nil
    have "kinvw (upd_mbx i (msgque_update (\<lambda>_. fst r)) u\<lparr>nodes := snd r\<rparr>) Q W T"
      if "r = queue_insert (msgque (mbx_pool u i)) (MsgQ m) (nodes u)" for r
      unfolding that by (rule kinvw_msgque [OF u(1)])
        (use queue_insert_links_in [OF lists_ok_links [OF kinvw_lists [OF u(1)]]] in auto)
    then show ?thesis
      unfolding run using Nil empty u(2)
      by (auto simp: call_safe_def Let_def ctl_kept_def upd_mbx_def intro!: call_ok_resched)
  next
    case (Cons t ts)
    then obtain v where v: "mbx_extract_task i u = (Some t, v)" "kinvw v Q (W(WMbx i := ts)) T" "ctl_kept u v"
      "bit (taskbmap v) t" "t \<noteq> idle_task v" "off_queues Q (W(WMbx i := ts)) T t"
      using extracts_head [OF extracts_mbx u(1) Cons] by auto
    then have "\<exists>Q'. kinvw (rq_insert t (upd_task t (\<lambda>x. x\<lparr>tskstat := TTS_RDY, extdat := m\<rparr>) v)) Q' (W(WMbx i := ts)) T"
      using kinvw_ready [OF v(2,4-6) refl refl, of "\<lambda>x. x\<lparr>tskstat := TTS_RDY, extdat := m\<rparr>"] by (auto simp: stat_defs)
    then show ?thesis
      unfolding run using Cons empty v(1) ctl_kept_trans [OF u(2) v(3)]
      by (auto simp: call_safe_def ctl_kept_def intro!: call_ok_resched)
  qed
qed

lemma keeps_ref_mbx:
  assumes "kinvw s Q W T" "user_level s"
  shows "call_ok s (ref_mbx_sys mbxid p s)"
  using call_ok_error [OF assms] call_ok_kmem [OF assms]
  by (auto simp: ref_mbx_sys_def Let_def)

section \<open>Fixed-size memory pools\<close>

lemma extracts_mpf: "extracts (WMpf i) (mpf_extract i)"
  using wq_update_mpf by (simp add: extracts_def mpf_extract_def Let_def wqueue_def)

lemma keeps_cre_mpf:
  assumes K: "kinvw s Q W T" "user_level s"
  shows "call_ok s (cre_mpf_sys mpfid p s)"
proof -
  have "call_ok s (Ret v, write_log e a b (upd_mpf i (\<lambda>_. x) s\<lparr>kmem := k, mpfbmap := setbit (mpfbmap s) i\<rparr>))"
    if i: "\<not> bit (mpfbmap s) i" and x: "mpfque x = queue_init" for v e a b i x k
  proof (rule call_ok_ret)
    let ?s = "upd_mpf i (\<lambda>_. x) s\<lparr>kmem := k, mpfbmap := setbit (mpfbmap s) i\<rparr>"
    have empty: "mpfque (mpf_pool s i) = queue_init"
      using kinvw_no_obj [OF K(1), of "WMpf i"] kinvw_empty_queue [OF K(1), of "WMpf i"] i
      by (simp add: obj_exists_def wqueue_def)
    have "kinvw ?s Q W T"
    proof (rule kinvw_objects [OF K(1)])
      show "obj_ok ?s W"
        using kinvw_obj [OF K(1)] by (auto simp: obj_ok_def obj_exists_def upd_mpf_def split: wq.splits)
      show "lists_ok ?s"
        using kinvw_lists [OF K(1)] by (simp add: lists_ok_def upd_mpf_def)
      show "wqueue ?s = wqueue s"
        using empty x by (auto simp: fun_eq_iff wqueue_def upd_mpf_def split: wq.splits)
    qed (simp_all add: upd_mpf_def)
    then show "kinvw (write_log e a b ?s) Q W T"
      by simp
  qed (use K(2) in \<open>simp_all add: upd_mpf_def\<close>)
  moreover have "mpfque (mpf_zero\<lparr>blksz := a, mpf := b, blkcnt := c, mpfatr := d\<rparr>) = queue_init" for a b c d
    by (simp add: mpf_zero_def)
  moreover have "mpfbmap (upd_mpf i f s) = mpfbmap s" for i f
    by (simp add: upd_mpf_def)
  ultimately show ?thesis
    using call_ok_error [OF K] by (auto simp: cre_mpf_sys_def Let_def split: option.split)
qed

lemma keeps_del_mpf:
  assumes K: "kinvw s Q W T" "user_level s"
  shows "call_ok s (del_mpf_sys mpfid s)"
proof (cases "mpfid < 1 \<or> mpfid > int CONFIG_MAX_FMPOOL \<or> \<not> isbitset (mpfbmap s) (nat (mpfid - 1))")
  case True
  then show ?thesis
    using call_ok_error [OF K] by (auto simp: del_mpf_sys_def Let_def)
next
  case False
  define i where "i = nat (mpfid - 1)"
  let ?l = "write_log TFN_DEL_MPF mpfid E_OK s"
  have l: "kinvw ?l Q W T"
    using K(1) by simp
  obtain u Q' where u: "del_mpf_loop i ?l = Some u" "kinvw u Q' (W(WMpf i := [])) T" "ctl_kept s u"
    using drain_wakes [OF extracts_mpf l, of "\<lambda>t s. rq_insert t (set_stat t TTS_RDY (set_wobjid t E_DLT s))"]
      kinvw_ready_dlt(3) unfolding del_mpf_loop_def by force
  have "queue_is_empty (mpfque (mpf_pool s i)) \<longleftrightarrow> W (WMpf i) = []"
    using krep_wq_is_empty [OF kinvw_krep [OF K(1)], of "WMpf i"] by (simp add: wqueue_def)
  then show ?thesis
    using False u kinvw_delete(4) [OF u(2), of i] kinvw_delete(4) [OF l, of i]
    by (auto simp: del_mpf_sys_def Let_def i_def [symmetric] ctl_kept_def intro!: call_ok_resched)
qed

lemma keeps_get_mpf:
  assumes K: "kinvw s Q W T" "user_level s"
  shows "call_ok s (get_mpf_sys mpfid p s)"
proof (cases "mpfid < 1 \<or> mpfid > int CONFIG_MAX_FMPOOL \<or> p = 0 \<or> \<not> isbitset (mpfbmap s) (nat (mpfid - 1)) \<or>
    fst (mpalloc (mpf (mpf_pool s (nat (mpfid - 1)))) (kmem s)) \<noteq> 0")
  case True
  then show ?thesis
    using call_ok_error [OF K] call_ok_kmem [OF K] by (auto simp: get_mpf_sys_def Let_def)
next
  case False
  define i where "i = nat (mpfid - 1)"
  define v where "v = s\<lparr>kmem := snd (mpalloc (mpf (mpf_pool s i)) (kmem s))\<rparr>"
  let ?f = "\<lambda>x. x\<lparr>tskstat := TTS_WAI, tskwait := TTW_MPF\<rparr>" and ?c = "current_task s"
  define r where "r = queue_insert (wqueue v (WMpf i)) (Syn ?c) (nodes v)"
  define u where "u = write_log TFN_GET_MPF mpfid (uint TTS_WAI)
    (upd_mpf i (mpfque_update (\<lambda>_. fst r)) v\<lparr>nodes := snd r\<rparr>)"
  have v: "kinvw v Q W T" "user_level v" "current_task v = ?c"
    using K by (simp_all add: v_def user_level_def)
  have "wq_update (WMpf i) (fst r) (snd r) v u"
    by (simp add: u_def wq_update_mpf)
  then have "\<exists>Q' W'. kinvw (calling ?c (K_get_mpf mpfid p) (rq_remove ?c (upd_task ?c ?f u))) Q' W' T"
    using kinvw_wait [OF v(1,2) v(3) [symmetric] refl _ _ r_def, of u ?f] False
    by (auto simp: obj_exists_def v_def i_def)
  moreover have "get_mpf_sys mpfid p s = (Sched (K_get_mpf mpfid p), rq_remove ?c (upd_task ?c ?f u))"
    using False by (simp add: get_mpf_sys_def Let_def i_def r_def u_def v_def wqueue_def)
  ultimately show ?thesis
    by (auto simp: u_def v_def upd_mpf_def intro!: call_ok_sched)
qed

lemma keeps_rel_mpf:
  assumes K: "kinvw s Q W T" "user_level s"
  shows "call_ok s (rel_mpf_sys mpfid b s)"
proof -
  let ?l = "write_log TFN_REL_MPF mpfid E_OK s"
  have l: "kinvw ?l Q W T"
    using K(1) by simp
  have "call_ok s (case mpf_extract i ?l of (None, s) \<Rightarrow> (Fault, s) | (Some t, s) \<Rightarrow>
      (Sched (K_ret E_OK), rq_insert t (upd_task t (extdat_update (\<lambda>_. b)) s)))"
    if i: "\<not> queue_is_empty (mpfque (mpf_pool s i))" for i
  proof -
    obtain t ts where w: "W (WMpf i) = t # ts"
      using krep_wq_is_empty [OF kinvw_krep [OF K(1)], of "WMpf i"] i by (cases "W (WMpf i)") (auto simp: wqueue_def)
    then obtain v where v: "mpf_extract i ?l = (Some t, v)" "kinvw v Q (W(WMpf i := ts)) T" "ctl_kept s v"
      "bit (taskbmap v) t" "t \<noteq> idle_task v" "off_queues Q (W(WMpf i := ts)) T t" "tskstat (task_pool v t) = TTS_WAI"
      using extracts_head [OF extracts_mpf l w] by auto
    then have "\<exists>Q'. kinvw (rq_insert t (upd_task t (extdat_update (\<lambda>_. b)) v)) Q' (W(WMpf i := ts)) T"
      using kinvw_ready [OF v(2,4-6) refl refl, of "extdat_update (\<lambda>_. b)"] by (auto simp: stat_defs)
    then show ?thesis
      using v(1,3) by (auto simp: ctl_kept_def intro!: call_ok_resched)
  qed
  moreover have "call_ok s (Sched k, s\<lparr>kmem := m\<rparr>)" for k m
    using K(1) by (intro call_ok_resched) auto
  ultimately show ?thesis
    using call_ok_error [OF K] by (simp add: rel_mpf_sys_def Let_def)
qed

section \<open>The calls meet the contract\<close>

interpretation acre_mbx: kernel_call "\<lambda>_. True" "acre_mbx_sys p" for p
  by unfold_locales (rule keeps_new_mbx)

interpretation cre_mbx: kernel_call "\<lambda>_. True" "cre_mbx_sys i p" for i p
  by unfold_locales (rule keeps_new_mbx)

interpretation del_mbx: safe_call "\<lambda>_. True" "del_mbx_sys i" for i
  by unfold_locales (rule keeps_del_mbx)

interpretation rcv_mbx: safe_call "\<lambda>_. True" "rcv_mbx_sys i p" for i p
  by unfold_locales (rule keeps_rcv_mbx)

interpretation snd_mbx: safe_call "\<lambda>_. True" "snd_mbx_sys i p" for i p
  by unfold_locales (rule keeps_snd_mbx)

interpretation ref_mbx: kernel_call "\<lambda>_. True" "ref_mbx_sys i p" for i p
  by unfold_locales (rule keeps_ref_mbx)

interpretation cre_mpf: kernel_call "\<lambda>_. True" "cre_mpf_sys i p" for i p
  by unfold_locales (rule keeps_cre_mpf)

interpretation del_mpf: kernel_call "\<lambda>_. True" "del_mpf_sys i" for i
  by unfold_locales (rule keeps_del_mpf)

interpretation get_mpf: kernel_call "\<lambda>_. True" "get_mpf_sys i p" for i p
  by unfold_locales (rule keeps_get_mpf)

interpretation rel_mpf: kernel_call "\<lambda>_. True" "rel_mpf_sys i b" for i b
  by unfold_locales (rule keeps_rel_mpf)

end
