(* ===== verification/Syscalls.thy ===== *)
theory Syscalls
  imports Semaphores Eventflags Mailboxes Mempools
begin

text \<open>
  The system call entry (\<open>core/kernel/blackfin/entry.S\<close>, \<open>syscall_tab.S\<close>) and the user side
  stubs that trap into it (\<open>user/ulibc\<close>). The number of a call is in \<open>p0\<close>, its arguments in
  \<open>r0\<close> to \<open>r2\<close>; a packet is read from memory at the address in its argument. The stubs take the
  number of a call from \<open>fncodes.h\<close>, the kernel from the position in its table.
\<close>

definition TFN_GET_PRI :: int where "TFN_GET_PRI = -0x0e"
definition TFN_REL_WAI :: int where "TFN_REL_WAI = -0x15"
definition TFN_CLR_FLG :: int where "TFN_CLR_FLG = -0x2c"
definition TFN_REF_MBX :: int where "TFN_REF_MBX = -0x44"
definition TFN_CRE_MPL :: int where "TFN_CRE_MPL = -0xa1"
definition TFN_GET_MPL :: int where "TFN_GET_MPL = -0xa5"
definition TFN_REL_MPL :: int where "TFN_REL_MPL = -0xa3"
definition TFN_ACCEPT :: int where "TFN_ACCEPT = -0xd8"
definition TFN_BIND :: int where "TFN_BIND = -0xd9"
definition TFN_SHUTDOWN :: int where "TFN_SHUTDOWN = -0xda"
definition TFN_GETPEERNAME :: int where "TFN_GETPEERNAME = -0xdb"
definition TFN_GETSOCKNAME :: int where "TFN_GETSOCKNAME = -0xdc"
definition TFN_GETSOCKOPT :: int where "TFN_GETSOCKOPT = -0xdd"
definition TFN_SETSOCKOPT :: int where "TFN_SETSOCKOPT = -0xde"
definition TFN_CLOSE :: int where "TFN_CLOSE = -0xdf"
definition TFN_CONNECT :: int where "TFN_CONNECT = -0xe0"
definition TFN_LISTEN :: int where "TFN_LISTEN = -0xe1"
definition TFN_RECV :: int where "TFN_RECV = -0xe2"
definition TFN_READ :: int where "TFN_READ = -0xe3"
definition TFN_RECVFROM :: int where "TFN_RECVFROM = -0xe4"
definition TFN_SEND :: int where "TFN_SEND = -0xe5"
definition TFN_SENDTO :: int where "TFN_SENDTO = -0xe6"
definition TFN_SOCKET :: int where "TFN_SOCKET = -0xe7"
definition TFN_WRITE :: int where "TFN_WRITE = -0xe8"
definition TFN_SELECT :: int where "TFN_SELECT = -0xe9"
definition TFN_IOCTL :: int where "TFN_IOCTL = -0xea"
definition TFN_REA8_MMR :: int where "TFN_REA8_MMR = -0xd0"
definition TFN_WRI8_MMR :: int where "TFN_WRI8_MMR = -0xd1"
definition TFN_REA16_MMR :: int where "TFN_REA16_MMR = -0xd2"
definition TFN_WRI16_MMR :: int where "TFN_WRI16_MMR = -0xd3"
definition TFN_REA32_MMR :: int where "TFN_REA32_MMR = -0xd4"
definition TFN_WRI32_MMR :: int where "TFN_WRI32_MMR = -0xd5"

definition NR_SYSCALLS :: int where "NR_SYSCALLS = 256"
definition UNKNOWN_SYSCALL :: int where "UNKNOWN_SYSCALL = -1"

section \<open>The table\<close>

datatype tsk_fn =
    F_cre_tsk | F_del_tsk | F_act_tsk | F_can_act | F_ext_tsk | F_exd_tsk
  | F_ter_tsk | F_chg_pri | F_get_pri | F_ref_tsk | F_ref_tst | F_slp_tsk
  | F_tslp_tsk | F_wup_tsk | F_can_wup | F_rel_wai | F_acre_tsk

datatype sem_fn =
    F_cre_sem | F_del_sem | F_sig_sem | F_wai_sem | F_twai_sem | F_acre_sem

datatype flg_fn =
    F_cre_flg | F_del_flg | F_set_flg | F_clr_flg | F_wai_flg

datatype mbx_fn =
    F_cre_mbx | F_del_mbx | F_snd_mbx | F_rcv_mbx | F_trcv_mbx | F_ref_mbx
  | F_acre_mbx

datatype mpf_fn =
    F_cre_mpf | F_del_mpf | F_rel_mpf | F_get_mpf

datatype sys_fn =
    F_get_tim | F_def_inh

datatype mpl_fn =
    F_cre_mpl | F_rel_mpl | F_get_mpl

datatype mmr_fn =
    F_rea8_mmr | F_wri8_mmr | F_rea16_mmr | F_wri16_mmr | F_rea32_mmr | F_wri32_mmr

datatype sock_fn =
    F_lwip_accept | F_lwip_bind | F_lwip_shutdown | F_lwip_getpeername | F_lwip_getsockname | F_lwip_getsockopt
  | F_lwip_setsockopt | F_lwip_close | F_lwip_connect | F_lwip_listen | F_lwip_recv | F_lwip_read
  | F_lwip_recvfrom | F_lwip_send | F_lwip_sendto | F_lwip_socket | F_lwip_write | F_lwip_select
  | F_lwip_ioctl

datatype sysfn =
    TSK tsk_fn | SEM sem_fn | FLG flg_fn | MBX mbx_fn | MPF mpf_fn | SYS sys_fn | MPL mpl_fn | MMR mmr_fn | SOCK sock_fn

definition syscall_table :: "sysfn option list" where
  "syscall_table =
     [
      None, None, None, None, None, Some (TSK F_cre_tsk), Some (TSK F_del_tsk), Some (TSK F_act_tsk),
      Some (TSK F_can_act), None, Some (TSK F_ext_tsk), Some (TSK F_exd_tsk), Some (TSK F_ter_tsk), Some (TSK F_chg_pri), Some (TSK F_get_pri), Some (TSK F_ref_tsk),
      Some (TSK F_ref_tst), Some (TSK F_slp_tsk), Some (TSK F_tslp_tsk), Some (TSK F_wup_tsk), Some (TSK F_can_wup), Some (TSK F_rel_wai), None, None,
      None, None, None, None, None, None, None, None,
      None, Some (SEM F_cre_sem), Some (SEM F_del_sem), Some (SEM F_sig_sem), None, Some (SEM F_wai_sem), None, Some (SEM F_twai_sem),
      None, Some (FLG F_cre_flg), Some (FLG F_del_flg), Some (FLG F_set_flg), Some (FLG F_clr_flg), Some (FLG F_wai_flg), None, None,
      None, None, None, None, None, None, None, None,
      None, None, None, None, None, Some (MBX F_cre_mbx), Some (MBX F_del_mbx), Some (MBX F_snd_mbx),
      None, Some (MBX F_rcv_mbx), None, Some (MBX F_trcv_mbx), Some (MBX F_ref_mbx), Some (MPF F_cre_mpf), Some (MPF F_del_mpf), Some (MPF F_rel_mpf),
      None, Some (MPF F_get_mpf), None, None, None, None, Some (SYS F_get_tim), None,
      None, None, None, None, None, None, None, None,
      None, None, None, None, None, None, None, None,
      None, None, None, None, None, Some (SYS F_def_inh), None, None,
      None, None, None, None, None, None, None, None,
      None, None, None, None, None, None, None, None,
      None, None, None, None, None, None, None, None,
      None, None, None, None, None, None, None, None,
      None, None, None, None, None, None, None, None,
      None, None, None, None, None, None, None, None,
      None, None, None, None, None, None, None, None,
      Some (MPL F_cre_mpl), None, Some (MPL F_rel_mpl), None, None, Some (MPL F_get_mpl), None, None,
      None, None, None, None, None, None, None, None,
      None, None, None, None, None, None, None, None,
      None, None, None, None, None, None, None, None,
      None, Some (TSK F_acre_tsk), Some (SEM F_acre_sem), None, None, Some (MBX F_acre_mbx), None, None,
      None, None, None, None, None, None, None, None,
      Some (MMR F_rea8_mmr), Some (MMR F_wri8_mmr), Some (MMR F_rea16_mmr), Some (MMR F_wri16_mmr), Some (MMR F_rea32_mmr), Some (MMR F_wri32_mmr), None, None,
      Some (SOCK F_lwip_accept), Some (SOCK F_lwip_bind), Some (SOCK F_lwip_shutdown), Some (SOCK F_lwip_getpeername), Some (SOCK F_lwip_getsockname), Some (SOCK F_lwip_getsockopt), Some (SOCK F_lwip_setsockopt), Some (SOCK F_lwip_close),
      Some (SOCK F_lwip_connect), Some (SOCK F_lwip_listen), Some (SOCK F_lwip_recv), Some (SOCK F_lwip_read), Some (SOCK F_lwip_recvfrom), Some (SOCK F_lwip_send), Some (SOCK F_lwip_sendto), Some (SOCK F_lwip_socket),
      Some (SOCK F_lwip_write), Some (SOCK F_lwip_select), Some (SOCK F_lwip_ioctl)]"

section \<open>Packets\<close>

definition read_ctsk :: "u32 \<Rightarrow> mem \<Rightarrow> T_CTSK option" where
  "read_ctsk p m =
     (if p = 0 then None
      else Some \<lparr>ct_exinf = m p, ct_tskatr = m (p + 4), ct_task = m (p + 8), ct_itskpri = m (p + 12),
                 ct_stksz = sint (m (p + 16)), ct_stk = m (p + 20), ct_extdat = m (p + 24)\<rparr>)"

definition read_csem :: "u32 \<Rightarrow> mem \<Rightarrow> T_CSEM option" where
  "read_csem p m =
     (if p = 0 then None
      else Some \<lparr>cs_sematr = sint (m p), cs_isemcnt = sint (m (p + 4)), cs_maxsem = sint (m (p + 8))\<rparr>)"

definition read_cflg :: "u32 \<Rightarrow> mem \<Rightarrow> T_CFLG option" where
  "read_cflg p m =
     (if p = 0 then None
      else Some \<lparr>cf_exinf = m p, cf_flgatr = m (p + 4), cf_iflgptn = m (p + 8)\<rparr>)"

definition read_cmbx :: "u32 \<Rightarrow> mem \<Rightarrow> T_CMBX option" where
  "read_cmbx p m =
     (if p = 0 then None
      else Some \<lparr>cm_mbxatr = m p, cm_maxmpri = m (p + 4), cm_mprihd = m (p + 8)\<rparr>)"

definition read_cmpf :: "u32 \<Rightarrow> mem \<Rightarrow> T_CMPF option" where
  "read_cmpf p m =
     (if p = 0 then None
      else Some \<lparr>cp_mpfatr = m p, cp_blkcnt = m (p + 4), cp_blksz = m (p + 8), cp_mpf = m (p + 12)\<rparr>)"

section \<open>The entry\<close>

text \<open>\<open>invoke f a b c d s\<close> is \<open>call (p4)\<close>: the function of the table applied to the arguments. The
  calling convention passes a fourth argument on the stack and not in a register; \<open>d\<close> is the word
  found there. \<open>None\<close> is a function that is not part of this model.\<close>

fun invoke :: "sysfn \<Rightarrow> u32 \<Rightarrow> u32 \<Rightarrow> u32 \<Rightarrow> u32 \<Rightarrow> kernel \<Rightarrow> (outcome \<times> kernel) option" where
  "invoke (TSK F_cre_tsk) a b c d s = Some (cre_tsk_sys (sint a) (read_ctsk b (kmem s)) s)"
| "invoke (TSK F_acre_tsk) a b c d s = Some (acre_tsk_sys (read_ctsk a (kmem s)) s)"
| "invoke (TSK F_del_tsk) a b c d s = Some (del_tsk_sys (sint a) s)"
| "invoke (TSK F_act_tsk) a b c d s = Some (act_tsk_sys (sint a) s)"
| "invoke (TSK F_can_act) a b c d s = Some (can_act_sys (sint a) s)"
| "invoke (TSK F_can_wup) a b c d s = Some (can_wup_sys (sint a) s)"
| "invoke (TSK F_ext_tsk) a b c d s = Some (ext_tsk_sys s)"
| "invoke (TSK F_exd_tsk) a b c d s = Some (exd_tsk_sys s)"
| "invoke (TSK F_ter_tsk) a b c d s = Some (ter_tsk_sys (sint a) s)"
| "invoke (TSK F_chg_pri) a b c d s = Some (chg_pri_sys (sint a) b s)"
| "invoke (TSK F_get_pri) a b c d s = Some (get_pri_sys (sint a) b s)"
| "invoke (TSK F_ref_tsk) a b c d s = Some (ref_tsk_sys (sint a) b s)"
| "invoke (TSK F_ref_tst) a b c d s = Some (ref_tst_sys (sint a) b s)"
| "invoke (TSK F_slp_tsk) a b c d s = Some (slp_tsk_sys s)"
| "invoke (TSK F_tslp_tsk) a b c d s = Some (tslp_tsk_sys a s)"
| "invoke (TSK F_wup_tsk) a b c d s = Some (wup_tsk_sys (sint a) s)"
| "invoke (TSK F_rel_wai) a b c d s = Some (rel_wai_sys (sint a) s)"
| "invoke (SEM F_cre_sem) a b c d s = Some (cre_sem_sys (sint a) (read_csem b (kmem s)) s)"
| "invoke (SEM F_acre_sem) a b c d s = Some (acre_sem_sys (read_csem a (kmem s)) s)"
| "invoke (SEM F_del_sem) a b c d s = Some (del_sem_sys (sint a) s)"
| "invoke (SEM F_sig_sem) a b c d s = Some (sig_sem_sys (sint a) s)"
| "invoke (SEM F_wai_sem) a b c d s = Some (wai_sem_sys (sint a) s)"
| "invoke (SEM F_twai_sem) a b c d s = Some (twai_sem_sys (sint a) b s)"
| "invoke (FLG F_cre_flg) a b c d s = Some (cre_flg_sys (sint a) (read_cflg b (kmem s)) s)"
| "invoke (FLG F_del_flg) a b c d s = Some (del_flg_sys (sint a) s)"
| "invoke (FLG F_set_flg) a b c d s = Some (set_flg_sys (sint a) b s)"
| "invoke (FLG F_clr_flg) a b c d s = Some (clr_flg_sys (sint a) b s)"
| "invoke (FLG F_wai_flg) a b c d s = Some (wai_flg_sys (sint a) b c d s)"
| "invoke (MBX F_cre_mbx) a b c d s = Some (cre_mbx_sys (sint a) (read_cmbx b (kmem s)) s)"
| "invoke (MBX F_acre_mbx) a b c d s = Some (acre_mbx_sys (read_cmbx a (kmem s)) s)"
| "invoke (MBX F_del_mbx) a b c d s = Some (del_mbx_sys (sint a) s)"
| "invoke (MBX F_snd_mbx) a b c d s = Some (snd_mbx_sys (sint a) b s)"
| "invoke (MBX F_rcv_mbx) a b c d s = Some (rcv_mbx_sys (sint a) b s)"
| "invoke (MBX F_trcv_mbx) a b c d s = Some (trcv_mbx_sys (sint a) b c s)"
| "invoke (MBX F_ref_mbx) a b c d s = Some (ref_mbx_sys (sint a) b s)"
| "invoke (MPF F_cre_mpf) a b c d s = Some (cre_mpf_sys (sint a) (read_cmpf b (kmem s)) s)"
| "invoke (MPF F_del_mpf) a b c d s = Some (del_mpf_sys (sint a) s)"
| "invoke (MPF F_get_mpf) a b c d s = Some (get_mpf_sys (sint a) b s)"
| "invoke (MPF F_rel_mpf) a b c d s = Some (rel_mpf_sys (sint a) b s)"
| "invoke (SYS F_get_tim) a b c d s = Some (get_tim_sys a s)"
| "invoke _ a b c d s = None"

text \<open>The function a number selects. A number that passes the check against \<open>NR_SYSCALLS\<close> but lies
  beyond the end of the table selects whatever follows it in memory.\<close>

datatype target = Unknown | Fn sysfn | Beyond

definition dispatch :: "int \<Rightarrow> target" where
  "dispatch nr =
     (if NR_SYSCALLS < nr \<or> nr < 0 then Unknown
      else if nat nr < length syscall_table
      then (case syscall_table ! nat nr of None \<Rightarrow> Unknown | Some f \<Rightarrow> Fn f)
      else Beyond)"

definition system_call :: "int \<Rightarrow> u32 \<Rightarrow> u32 \<Rightarrow> u32 \<Rightarrow> u32 \<Rightarrow> kernel \<Rightarrow> (outcome \<times> kernel) option" where
  "system_call nr a b c d s =
     (case dispatch nr of
        Unknown \<Rightarrow> Some (Ret UNKNOWN_SYSCALL, s)
      | Fn f \<Rightarrow> invoke f a b c d s
      | Beyond \<Rightarrow> None)"

section \<open>The stubs of the user library\<close>

text \<open>A stub: its name, the number of its parameters, the number of registers its \<open>_syscall\<close> macro
  loads, the function code whose negation it traps with, and the kernel function it documents. The
  macros \<open>_syscall4\<close> to \<open>_syscall6\<close> all load four registers. The stubs \<open>wup_tsk\<close>,
  \<open>sus_tsk\<close> and \<open>ter_tsk\<close> do not trap and return \<open>E_SYS\<close>.\<close>

type_synonym stub = "string \<times> nat \<times> nat \<times> int \<times> sysfn"

definition task_stubs :: "stub list" where
  "task_stubs =
     [(''acre_tsk'', 1, 1, TFN_ACRE_TSK, TSK F_acre_tsk),
      (''act_tsk'', 1, 1, TFN_ACT_TSK, TSK F_act_tsk),
      (''can_act'', 1, 1, TFN_CAN_ACT, TSK F_can_act),
      (''chg_pri'', 2, 2, TFN_CHG_PRI, TSK F_chg_pri),
      (''cre_tsk'', 2, 2, TFN_CRE_TSK, TSK F_cre_tsk),
      (''del_tsk'', 1, 1, TFN_DEL_TSK, TSK F_del_tsk),
      (''ext_tsk'', 0, 0, TFN_EXT_TSK, TSK F_ext_tsk),
      (''exd_tsk'', 0, 0, TFN_EXD_TSK, TSK F_exd_tsk),
      (''get_pri'', 2, 2, TFN_GET_PRI, TSK F_get_pri),
      (''rel_wai'', 1, 1, TFN_REL_WAI, TSK F_rel_wai),
      (''slp_tsk'', 0, 0, TFN_SLP_TSK, TSK F_slp_tsk),
      (''tslp_tsk'', 1, 1, TFN_TSLP_TSK, TSK F_tslp_tsk)]"

definition semaphore_stubs :: "stub list" where
  "semaphore_stubs =
     [(''acre_sem'', 1, 1, TFN_ACRE_SEM, SEM F_acre_sem),
      (''cre_sem'', 2, 2, TFN_CRE_SEM, SEM F_cre_sem),
      (''del_sem'', 1, 1, TFN_DEL_SEM, SEM F_del_sem),
      (''sig_sem'', 1, 1, TFN_SIG_SEM, SEM F_sig_sem),
      (''wai_sem'', 1, 1, TFN_WAI_SEM, SEM F_wai_sem),
      (''twai_sem'', 2, 2, TFN_TWAI_SEM, SEM F_twai_sem)]"

definition event_stubs :: "stub list" where
  "event_stubs =
     [(''clr_flg'', 2, 2, TFN_CLR_FLG, FLG F_clr_flg),
      (''cre_flg'', 2, 2, TFN_CRE_FLG, FLG F_cre_flg),
      (''del_flg'', 1, 1, TFN_DEL_FLG, FLG F_del_flg),
      (''set_flg'', 2, 2, TFN_SET_FLG, FLG F_set_flg),
      (''wai_flg'', 4, 4, TFN_WAI_FLG, FLG F_wai_flg)]"

definition mailbox_stubs :: "stub list" where
  "mailbox_stubs =
     [(''acre_mbx'', 1, 1, TFN_ACRE_MBX, MBX F_acre_mbx),
      (''cre_mbx'', 2, 2, TFN_CRE_MBX, MBX F_cre_mbx),
      (''del_mbx'', 1, 1, TFN_DEL_MBX, MBX F_del_mbx),
      (''rcv_mbx'', 2, 2, TFN_RCV_MBX, MBX F_rcv_mbx),
      (''trcv_mbx'', 3, 3, TFN_TRCV_MBX, MBX F_trcv_mbx),
      (''ref_mbx'', 2, 2, TFN_REF_MBX, MBX F_ref_mbx),
      (''snd_mbx'', 2, 2, TFN_SND_MBX, MBX F_snd_mbx)]"

definition mempool_stubs :: "stub list" where
  "mempool_stubs =
     [(''cre_mpf'', 2, 2, TFN_CRE_MPF, MPF F_cre_mpf),
      (''del_mpf'', 1, 1, TFN_DEL_MPF, MPF F_del_mpf),
      (''get_mpf'', 2, 2, TFN_GET_MPF, MPF F_get_mpf),
      (''rel_mpf'', 2, 2, TFN_REL_MPF, MPF F_rel_mpf),
      (''cre_mpl'', 2, 2, TFN_CRE_MPL, MPL F_cre_mpl),
      (''get_mpl'', 3, 3, TFN_GET_MPL, MPL F_get_mpl),
      (''rel_mpl'', 2, 2, TFN_REL_MPL, MPL F_rel_mpl)]"

definition socket_stubs :: "stub list" where
  "socket_stubs =
     [(''accept'', 3, 3, TFN_ACCEPT, SOCK F_lwip_accept),
      (''bind'', 3, 3, TFN_BIND, SOCK F_lwip_bind),
      (''shutdown'', 2, 2, TFN_SHUTDOWN, SOCK F_lwip_shutdown),
      (''getpeername'', 3, 3, TFN_GETPEERNAME, SOCK F_lwip_getpeername),
      (''getsockname'', 3, 3, TFN_GETSOCKNAME, SOCK F_lwip_getsockname),
      (''getsockopt'', 5, 4, TFN_GETSOCKOPT, SOCK F_lwip_getsockopt),
      (''setsockopt'', 5, 4, TFN_SETSOCKOPT, SOCK F_lwip_setsockopt),
      (''close'', 1, 1, TFN_CLOSE, SOCK F_lwip_close),
      (''connect'', 3, 3, TFN_CONNECT, SOCK F_lwip_connect),
      (''listen'', 2, 2, TFN_LISTEN, SOCK F_lwip_listen),
      (''recv'', 4, 4, TFN_RECV, SOCK F_lwip_recv),
      (''read'', 3, 3, TFN_READ, SOCK F_lwip_read),
      (''recvfrom'', 6, 4, TFN_RECVFROM, SOCK F_lwip_recvfrom),
      (''send'', 4, 4, TFN_SEND, SOCK F_lwip_send),
      (''sendto'', 6, 4, TFN_SENDTO, SOCK F_lwip_sendto),
      (''socket'', 3, 3, TFN_SOCKET, SOCK F_lwip_socket),
      (''write'', 3, 3, TFN_WRITE, SOCK F_lwip_write),
      (''select'', 5, 4, TFN_SELECT, SOCK F_lwip_select),
      (''ioctl'', 3, 3, TFN_IOCTL, SOCK F_lwip_ioctl)]"

definition mmr_stubs :: "stub list" where
  "mmr_stubs =
     [(''rea8_mmr'', 2, 2, TFN_REA8_MMR, MMR F_rea8_mmr),
      (''wri8_mmr'', 2, 2, TFN_WRI8_MMR, MMR F_wri8_mmr),
      (''rea16_mmr'', 2, 2, TFN_REA16_MMR, MMR F_rea16_mmr),
      (''wri16_mmr'', 2, 2, TFN_WRI16_MMR, MMR F_wri16_mmr),
      (''rea32_mmr'', 2, 2, TFN_REA32_MMR, MMR F_rea32_mmr),
      (''wri32_mmr'', 2, 2, TFN_WRI32_MMR, MMR F_wri32_mmr)]"

definition stubs :: "stub list" where
  "stubs = task_stubs @ semaphore_stubs @ event_stubs @ mailbox_stubs @ mempool_stubs @ socket_stubs @ mmr_stubs"

definition reaches :: "stub \<Rightarrow> bool" where
  "reaches = (\<lambda>(_, _, _, code, f). dispatch (- code) = Fn f)"

lemma stubs_reaching: "map fst (filter (\<lambda>st. \<not> reaches st) stubs) = [''cre_mpl'', ''rel_mpl'']"
  by code_simp

lemma table_length: "length syscall_table = 235"
  by code_simp

end
