(* ===== verification/Machine.thy ===== *)
theory Machine
  imports Inv_Mbx Syscalls
begin

text \<open>
  The kernel as a state machine. A step is a trap of the running task up to its return or its call of
  \<open>scheduler()\<close>, the call of \<open>scheduler()\<close> itself, the rest of a system call after it, a tick of the
  timer, the preemption that follows an interrupt, or work of the running task on its own memory.
  \<open>start_kernel\<close> gives the initial states.
\<close>

section \<open>Boot\<close>

text \<open>\<open>inicalls\<close> runs the registered initialisation functions in order; their negative results are
  ignored (the macro that would log them is never defined).\<close>

definition inicalls :: "(kernel \<Rightarrow> int \<times> kernel) list \<Rightarrow> kernel \<Rightarrow> kernel" where
  "inicalls calls s = fold (\<lambda>call s. snd (call s)) calls s"

text \<open>\<open>start_kernel\<close> up to its call of \<open>scheduler()\<close>. Left out are \<open>init_mmu\<close>,
  \<open>init_syspools\<close>, \<open>init_mpl_pool\<close>, \<open>init_devices\<close> and the network stack: the memory
  protection, the variable-sized pools and the device table are not part of the kernel state here. The arguments are
  the initialisation functions of the drivers, the block \<open>malloc_ex\<close> returns for the messages, the entry
  point of the main task and its stack. What \<open>start_kernel\<close> does after \<open>scheduler()\<close> returns to it is
  the idle loop.\<close>

definition start_kernel ::
  "(kernel \<Rightarrow> int \<times> kernel) list \<Rightarrow> u32 \<Rightarrow> u32 \<Rightarrow> u32 \<Rightarrow> int \<Rightarrow> kernel \<Rightarrow> kernel" where
  "start_kernel calls pool main user_stack user_stack_size s =
     (let s = init_sched s;
          s = init_syslog s;
          s = inicalls calls s;
          s = init_mpf_pool s;
          s = init_task_pool s;
          s = init_sem_pool s;
          s = init_flg_pool s;
          s = init_mbox_pool pool s;
          s = create_idle_task s;
          s = create_main_task main user_stack user_stack_size s;
          s = init_time s;
          s = snd (ena_dsp_sys s)
      in calling (current_task s) K_idle s)"

section \<open>Steps\<close>

text \<open>What the running task does when it continues after \<open>scheduler()\<close>: the rest of its system call.
  After \<open>ext_tsk\<close> and \<open>exd_tsk\<close> there is nothing left but the return to the caller.\<close>

fun resume :: "kcont \<Rightarrow> kernel \<Rightarrow> outcome \<times> kernel" where
  "resume (K_ret v) s = (Ret v, s)"
| "resume (K_wai_sem i) s = wai_sem_resume i s"
| "resume (K_twai_sem i) s = twai_sem_resume i s"
| "resume (K_wai_flg i) s = wai_flg_resume i s"
| "resume (K_rcv_mbx i p) s = rcv_mbx_resume i p s"
| "resume (K_trcv_mbx i p tm) s = trcv_mbx_resume i p tm s"
| "resume (K_get_mpf i p) s = get_mpf_resume i p s"
| "resume _ s = (NoValue, s)"

definition leave_kernel :: "kernel \<Rightarrow> kernel" where
  "leave_kernel s = s\<lparr>kctx := (kctx s)(current_task s := None)\<rparr>"

text \<open>The calls the machine covers. Left out are \<open>chg_pri\<close> on the idle task, \<open>rel_wai\<close>, \<open>ter_tsk\<close>,
  \<open>ref_tsk\<close>, \<open>ref_tst\<close>, polling with \<open>tslp_tsk\<close>, waits on a semaphore or a mailbox with a timeout,
  and semaphores with a negative initial count.\<close>

fun served :: "sysfn \<Rightarrow> u32 \<Rightarrow> u32 \<Rightarrow> u32 \<Rightarrow> kernel \<Rightarrow> bool" where
  "served (TSK F_chg_pri) a b c s = (sint a \<noteq> int (idle_task s) + 1)"
| "served (TSK F_tslp_tsk) a b c s = (a \<noteq> TMO_POL)"
| "served (TSK f) a b c s = (f \<notin> {F_ter_tsk, F_ref_tsk, F_ref_tst, F_rel_wai})"
| "served (SEM F_cre_sem) a b c s = csem_ok (read_csem b (kmem s))"
| "served (SEM F_acre_sem) a b c s = csem_ok (read_csem a (kmem s))"
| "served (SEM F_twai_sem) a b c s = (b = TMO_FEVR)"
| "served (MBX F_trcv_mbx) a b c s = (c = TMO_FEVR)"
| "served _ a b c s = True"

inductive kstep :: "kernel \<Rightarrow> kernel \<Rightarrow> bool" where
  trap_ret: "user_level s \<Longrightarrow> (\<And>f. dispatch nr = Fn f \<Longrightarrow> served f a b c s) \<Longrightarrow>
    system_call nr a b c d s = Some (Ret v, s') \<Longrightarrow> kstep s s'"
| trap_sched: "user_level s \<Longrightarrow> (\<And>f. dispatch nr = Fn f \<Longrightarrow> served f a b c s) \<Longrightarrow>
    system_call nr a b c d s = Some (Sched k, s') \<Longrightarrow> kstep s (calling (current_task s) k s')"
| schedule: "kctx s (current_task s) = Some (Calling k) \<Longrightarrow>
    kstep s (scheduler (s\<lparr>kctx := (kctx s)(current_task s \<mapsto> Resuming k)\<rparr>))"
| continue: "kctx s (current_task s) = Some (Resuming k) \<Longrightarrow> resume k s = (r, s') \<Longrightarrow> r \<noteq> Fault \<Longrightarrow>
    kstep s (leave_kernel s')"
| tick: "evt_tmr_isr s = Some s' \<Longrightarrow> kstep s s'"
| preempt: "kctx s (current_task s) = None \<Longrightarrow> kstep s (calling (current_task s) K_user s)"
| memory: "user_level s \<Longrightarrow> kstep s (s\<lparr>kmem := m\<rparr>)"
| clock: "kstep s (s\<lparr>cycles := n\<rparr>)"

inductive_cases kstepE: "kstep s s'"

definition ksteps :: "kernel \<Rightarrow> kernel \<Rightarrow> bool" where
  "ksteps = kstep\<^sup>*\<^sup>*"

section \<open>The calls\<close>

lemma tmo_fevr [simp]:
  "twai_sem_sys i TMO_FEVR s = wai_sem_sys i s" "trcv_mbx_sys i p TMO_FEVR s = rcv_mbx_sys i p s"
  by (simp_all add: twai_sem_sys_def trcv_mbx_sys_def)

definition may_fault :: "sysfn \<Rightarrow> bool" where
  "may_fault f \<longleftrightarrow> f \<in> {MBX F_del_mbx, MBX F_snd_mbx, MBX F_rcv_mbx, MBX F_trcv_mbx}"

lemma invoke_ok:
  assumes "kinv s" "user_level s" "served f a b c s" "invoke f a b c d s = Some r" "\<not> may_fault f"
  shows "call_ok s r"
proof (cases f)
  case (TSK g)
  then show ?thesis
    using assms acre_tsk.call_ok cre_tsk.call_ok del_tsk.call_ok act_tsk.call_ok can_act.call_ok
      can_wup.call_ok chg_pri.call_ok get_pri.call_ok ext_tsk.call_ok exd_tsk.call_ok slp_tsk.call_ok
      tslp_tsk.call_ok wup_tsk.call_ok
    by (cases g) auto
next
  case (SEM g)
  then show ?thesis
    using assms acre_sem.call_ok cre_sem.call_ok del_sem.call_ok sig_sem.call_ok wai_sem.call_ok
    by (cases g) auto
next
  case (FLG g)
  then show ?thesis
    using assms cre_flg.call_ok del_flg.call_ok set_flg.call_ok clr_flg.call_ok wai_flg.call_ok
    by (cases g) auto
next
  case (MBX g)
  then show ?thesis
    using assms acre_mbx.call_ok cre_mbx.call_ok ref_mbx.call_ok
    by (cases g) (auto simp: may_fault_def)
next
  case (MPF g)
  then show ?thesis
    using assms cre_mpf.call_ok del_mpf.call_ok get_mpf.call_ok rel_mpf.call_ok
    by (cases g) auto
next
  case (SYS g)
  then show ?thesis
    using assms get_tim.call_ok by (cases g) auto
qed (use assms(4) in auto)

lemma invoke_safe:
  assumes "kinv s" "user_level s" "served f a b c s" "invoke f a b c d s = Some r"
  shows "call_safe s r"
proof (cases "may_fault f")
  case True
  then show ?thesis
    using assms del_mbx.call_safe snd_mbx.call_safe rcv_mbx.call_safe by (auto simp: may_fault_def)
next
  case False
  then show ?thesis
    using invoke_ok [OF assms] by (simp add: call_safe_def)
qed

lemma system_call_safe:
  assumes "kinv s" "user_level s" "\<And>f. dispatch nr = Fn f \<Longrightarrow> served f a b c s"
    and "system_call nr a b c d s = Some r"
  shows "call_safe s r"
proof (cases "dispatch nr")
  case Unknown
  then show ?thesis
    using assms(1,2,4) by (auto simp: system_call_def call_safe_def call_ok_def)
next
  case (Fn f)
  then show ?thesis
    using assms invoke_safe by (auto simp: system_call_def)
qed (use assms(4) in \<open>simp add: system_call_def\<close>)

section \<open>The rest of a call\<close>

lemma kinvw_current_off:
  assumes "kinvw s Q W T" "c = current_task s" "kctx s c = Some (Resuming k)"
  shows "c \<notin> set (W w)" "c \<notin> set T"
proof -
  have "c = idle_task s \<or> c \<in> set (Q (tskpri (task_pool s c)))"
    using kinvw_sys [OF assms(1)] assms(2,3) by (auto simp: sys_ok_def)
  then show "c \<notin> set (W w)" "c \<notin> set T"
    using kinvw_task [OF assms(1), of c] by (auto simp: task_ok_def)
qed

lemma tq_remove_absent:
  assumes "kinvw s Q W T" "t \<notin> set T"
  shows "tq_remove t s = s"
proof -
  have "list_rep (nodes s) (timeout_queue s) (map Slp T)" "isolated (nodes s) (Slp t)"
    using krep_tq [OF kinvw_krep [OF assms(1)]] assms(2) by (simp_all add: tq_rep_def)
  then show ?thesis
    using remove_linked_list_absent [of "nodes s" "timeout_queue s" "map Slp T" "Slp t"] assms(2)
    by (auto simp: tq_remove_def Let_def)
qed

lemma mbx_remove_absent:
  assumes "kinvw s Q W T" "t \<notin> set (W (WMbx i))" "\<And>w. t \<notin> set (W w)"
    and "r = queue_remove (mbxque (mbx_pool s i)) (Syn t) (nodes s)"
  shows "upd_mbx i (mbxque_update (\<lambda>_. fst r)) s\<lparr>nodes := snd r\<rparr> = s"
proof -
  have "queue_rep (nodes s) (mbxque (mbx_pool s i)) (map Syn (W (WMbx i)))" "isolated (nodes s) (Syn t)"
    using family_rep_queue [OF krep_family [OF kinvw_krep [OF assms(1)]], of "WMbx i"]
      family_rep_isolated [OF krep_family [OF kinvw_krep [OF assms(1)]], of t] assms(3)
    by (simp_all add: wqueue_def)
  then show ?thesis
    using queue_remove_absent [of "nodes s" "mbxque (mbx_pool s i)" "map Syn (W (WMbx i))" "Syn t"] assms(2,4)
    by (auto simp: upd_mbx_def)
qed

lemma msg_free_frame [simp]:
  "current_task (msg_free m s) = current_task s" "kctx (msg_free m s) = kctx s"
  by (simp_all add: msg_free_def)

lemma resume_keeps:
  assumes K: "kinvw s Q W T" and c: "kctx s (current_task s) = Some (Resuming k)"
    and r: "resume k s = (r, s')" "r \<noteq> Fault"
  shows "kinvw s' Q W T \<and> current_task s' = current_task s \<and> kctx s' = kctx s"
proof -
  note off = kinvw_current_off [OF K refl c]
  note simps = tq_remove_absent [OF K off(2)] mbx_remove_absent [OF K off(1) off(1) refl]
  have free: "tq_remove (current_task s) (msg_free m (s\<lparr>kmem := q\<rparr>)) = msg_free m (s\<lparr>kmem := q\<rparr>)" for m q
    using K off(2) by (intro tq_remove_absent) (auto simp: kinvw_msg_free)
  show ?thesis
    using K r free simps
    by (cases k) (auto simp: wai_sem_resume_def twai_sem_resume_def wai_flg_resume_def rcv_mbx_resume_def
        mbx_accept_def trcv_mbx_resume_def get_mpf_resume_def Let_def kinvw_upd_task kinvw_msg_free
        split: if_splits)
qed

lemma kinvw_leave_kernel:
  assumes K: "kinvw s Q W T" "kctx s (current_task s) = Some (Resuming k)"
  shows "kinvw (leave_kernel s) Q W T"
proof -
  have "krep (leave_kernel s) Q W T = krep s Q W T"
    unfolding leave_kernel_def by (rule krep_cong) simp_all
  moreover have "task_ok (leave_kernel s) Q W T t = task_ok s Q W T t" for t
    unfolding leave_kernel_def by (rule task_ok_cong) simp_all
  moreover have "obj_ok (leave_kernel s) W = obj_ok s W" "lists_ok (leave_kernel s) = lists_ok s"
    unfolding leave_kernel_def by (rule obj_ok_cong lists_ok_cong; simp)+
  moreover have "sys_ok (leave_kernel s) Q"
    using kinvw_sys [OF K(1)] K(2) by (auto simp: sys_ok_def leave_kernel_def)
  ultimately show ?thesis
    using K(1) by (simp add: kinvw_def)
qed

section \<open>The invariant of the machine\<close>

lemma kstep_inv:
  assumes "kstep s s'" "kinv s"
  shows "kinv s'"
  using assms
proof (induction rule: kstep.induct)
  case (trap_ret s nr a b c d v s')
  then show ?case
    using system_call_safe [of s nr a b c d "(Ret v, s')"] by (simp add: call_safe_def call_ok_def)
next
  case (trap_sched s nr a b c d k s')
  then show ?case
    using system_call_safe [of s nr a b c d "(Sched k, s')"] by (simp add: call_safe_def call_ok_def)
next
  case (schedule s k)
  then show ?case
    using kinvw_scheduler(1) [OF _ refl schedule(1) refl] unfolding kinv_def by blast
next
  case (continue s k r s')
  then obtain Q W T where K: "kinvw s Q W T"
    by (auto simp: kinv_def)
  have "kinvw s' Q W T" "current_task s' = current_task s" "kctx s' = kctx s"
    using resume_keeps [OF K continue(1-3)] by simp_all
  then show ?case
    using kinvw_leave_kernel [of s' Q W T k] continue(1) by (auto simp: kinv_def)
next
  case (tick s s')
  then show ?case
    using kinvw_tick unfolding kinv_def by (metis option.inject)
next
  case (preempt s)
  then show ?case
    using kinvw_calling unfolding kinv_def by blast
qed (auto simp: kinv_def)

section \<open>The invariant after boot\<close>

text \<open>What boot relies on: no interrupt is being handled, and the words that will be message headers
  are zero, because \<open>snd_mbx_sys\<close> links a fresh message without clearing its \<open>next\<close> pointer.\<close>

definition boot_ok :: "kernel \<Rightarrow> bool" where
  "boot_ok s \<longleftrightarrow> int_nest_count s = 0 \<and> (\<forall>m. isolated (nodes s) (MsgQ m))"

text \<open>The initialisation functions of the drivers leave the scheduler alone.\<close>

definition driver_call :: "(kernel \<Rightarrow> int \<times> kernel) \<Rightarrow> bool" where
  "driver_call f \<longleftrightarrow> (\<forall>s. let s' = snd (f s) in prioqueue s' = prioqueue s \<and> priobmap s' = priobmap s \<and>
     timeout_queue s' = timeout_queue s \<and> int_nest_count s' = int_nest_count s \<and>
     (\<forall>m. nodes s' (MsgQ m) = nodes s (MsgQ m)))"

lemma inicalls_keep:
  assumes "list_all driver_call calls"
  shows "prioqueue (inicalls calls s) = prioqueue s \<and> priobmap (inicalls calls s) = priobmap s \<and>
    timeout_queue (inicalls calls s) = timeout_queue s \<and> int_nest_count (inicalls calls s) = int_nest_count s \<and>
    (\<forall>m. nodes (inicalls calls s) (MsgQ m) = nodes s (MsgQ m))"
  using assms by (induction calls arbitrary: s) (auto simp: inicalls_def driver_call_def Let_def)

lemma family_rep_init:
  assumes "\<And>k. qs k = queue_init" "\<And>x. isolated st (nd x)"
  shows "family_rep nd st qs (\<lambda>_. [])"
  using assms by (simp add: family_rep_def queue_rep_def queue_init_def)

lemma wqueue_dispatching [simp]: "wqueue (s\<lparr>dispatching := b\<rparr>) = wqueue s"
  by (auto simp: wqueue_def fun_eq_iff split: wq.splits)

text \<open>The state just before the main task is put into the ready queue.\<close>

definition pre_main :: "kernel \<Rightarrow> bool" where
  "pre_main s \<longleftrightarrow> prioqueue s = (\<lambda>_. queue_init) \<and> priobmap s = 0 \<and> timeout_queue s = None \<and>
     (\<forall>w. wqueue s w = queue_init) \<and> (\<forall>n. isolated (nodes s) n) \<and>
     (\<forall>t. bit (taskbmap s) t \<longleftrightarrow> t < 2) \<and> idle_task s = 0 \<and> current_task s = 0 \<and> int_nest_count s = 0 \<and>
     (\<exists>k. kctx s 1 = Some (Resuming k)) \<and>
     (\<forall>t. tskid (task_pool s t) = (if t < 2 then int t + 1 else 0)) \<and> (\<forall>t. tskpri (task_pool s t) < PRIORITY_LEVELS) \<and>
     tskpri (task_pool s 1) = 0 \<and>
     (\<forall>t. tskstat (task_pool s t) = (if t = 1 then TTS_RDY else 0)) \<and>
     (\<forall>n \<in> {Rdy 1, Syn 1, Slp 1}. ll_this (nodes s n) = Some (Tsk 1)) \<and>
     sembmap s = 0 \<and> (\<forall>i. msgque (mbx_pool s i) = queue_init) \<and> active_sem s = None \<and> active_flg s = None"

lemma pre_main_kinvw:
  assumes P: "pre_main s"
  shows "kinvw (calling 0 K_idle ((rq_insert 1 s)\<lparr>dispatching := True, system_time := 0\<rparr>))
    ((\<lambda>_. [])(0 := [1])) (\<lambda>_. []) []" (is "kinvw ?s ?Q ?W ?T")
proof -
  have rep: "krep s (\<lambda>_. []) ?W ?T"
    using P by (auto simp: pre_main_def krep_def rq_rep_def wq_rep_def tq_rep_def list_rep_def
        intro!: family_rep_init)
  then have "krep (rq_insert 1 s) ?Q ?W ?T"
    using krep_rq_insert [OF rep, of 1 0] P by (simp add: pre_main_def cfg_defs)
  moreover have "krep ?s ?Q ?W ?T = krep (rq_insert 1 s) ?Q ?W ?T"
    by (rule krep_cong) simp_all
  moreover have "nodes (rq_insert 1 s) (MsgQ m) = nodes s (MsgQ m)" for m
    using rq_insert_nodes [OF krep_rq [OF rep]] by auto
  then have "lists_ok ?s"
    using P by (auto simp: pre_main_def lists_ok_def isolated_def queue_init_def)
  moreover have "task_ok ?s ?Q ?W ?T t" for t
    using P by (auto simp: pre_main_def task_ok_def stat_defs cfg_defs less_2_cases_iff)
  moreover have "sys_ok ?s ?Q"
    using P by (auto simp: pre_main_def sys_ok_def stat_defs less_2_cases_iff)
  moreover have "obj_ok ?s ?W"
    using P by (simp add: pre_main_def obj_ok_def)
  ultimately show ?thesis
    by (auto simp: kinvw_def)
qed

text \<open>The idle task takes slot 0 and the main task slot 1.\<close>

definition boot_idle :: "(kernel \<Rightarrow> int \<times> kernel) list \<Rightarrow> u32 \<Rightarrow> kernel \<Rightarrow> kernel" where
  "boot_idle calls pool s = create_idle_task (init_mbox_pool pool (init_flg_pool (init_sem_pool (init_task_pool
     (init_mpf_pool (inicalls calls (init_syslog (init_sched s))))))))"

definition boot_main :: "u32 \<Rightarrow> u32 \<Rightarrow> int \<Rightarrow> kernel \<Rightarrow> kernel" where
  "boot_main main stack sz s =
     init_stack 1 (set_task_nodes 1 (upd_task 1 (\<lambda>x. x\<lparr>tskpri := MAX_TASK_PRIORITY, tskid := 2, task_fn := main,
       tskstat := TTS_RDY, stk := stack, stksz := sz, exinf := 0\<rparr>) (s\<lparr>taskbmap := setbit (taskbmap s) 1\<rparr>)))"

lemma ffc_boot: "ffc 0 = 0" "ffc (setbit 0 0) = 1"
  by code_simp+

lemma boot_idle_ids: "taskbmap (boot_idle calls pool s) = setbit 0 0" "current_task (boot_idle calls pool s) = 0"
  "idle_task (boot_idle calls pool s) = 0"
  by (simp_all add: boot_idle_def create_idle_task_def init_mbox_pool_def init_flg_pool_def init_sem_pool_def
      init_task_pool_def clearbitmap_def ffc_boot Let_def upd_task_def)

lemma boot_main_frame: "current_task (boot_main main stack sz s) = current_task s"
  by (simp add: boot_main_def init_stack_def set_task_nodes_def Let_def)

lemma start_kernel_eq:
  "start_kernel calls pool main stack sz s = calling 0 K_idle
     ((rq_insert 1 (boot_main main stack sz (boot_idle calls pool s)))\<lparr>dispatching := True, system_time := 0\<rparr>)"
proof -
  define v where "v = boot_idle calls pool s"
  have "create_main_task main stack sz v = rq_insert 1 (boot_main main stack sz v)"
    using boot_idle_ids(1) [of calls pool s]
    by (simp add: v_def [symmetric] create_main_task_def boot_main_def ffc_boot Let_def)
  moreover have "start_kernel calls pool main stack sz s =
      (let s = snd (ena_dsp_sys (init_time (create_main_task main stack sz v))) in calling (current_task s) K_idle s)"
    by (simp only: start_kernel_def v_def boot_idle_def Let_def)
  moreover have "current_task v = 0"
    by (simp add: v_def boot_idle_ids)
  ultimately show ?thesis
    by (simp add: v_def [symmetric] init_time_def ena_dsp_sys_def boot_main_frame)
qed

lemmas init_defs = create_idle_task_def init_mbox_pool_def init_flg_pool_def init_sem_pool_def init_task_pool_def
  init_mpf_pool_def Let_def upd_task_def clearbitmap_def ffc_boot

lemma boot_idle_scheduler:
  assumes "list_all driver_call calls" "v = boot_idle calls pool s"
  shows "prioqueue v = (\<lambda>_. queue_init)" "priobmap v = 0" "timeout_queue v = None"
    and "int_nest_count v = int_nest_count s"
  using inicalls_keep [OF assms(1), of "init_syslog (init_sched s)"]
  by (simp_all add: assms(2) boot_idle_def init_defs init_syslog_def init_sched_def)

lemma boot_idle_nodes:
  assumes "list_all driver_call calls" "boot_ok s" "v = boot_idle calls pool s"
  shows "isolated (nodes v) n"
  using inicalls_keep [OF assms(1), of "init_syslog (init_sched s)"] assms(2)
  by (cases n) (simp_all add: assms(3) boot_idle_def init_defs boot_ok_def isolated_def node_zero_def
      init_syslog_def init_sched_def)

lemma boot_idle_objects:
  assumes "v = boot_idle calls pool s"
  shows "wqueue v w = queue_init" "sembmap v = 0" "msgque (mbx_pool v i) = queue_init"
    and "active_sem v = None" "active_flg v = None"
  by (cases w; simp add: assms boot_idle_def init_defs wqueue_def sem_zero_def flg_zero_def mbx_zero_def mpf_zero_def)
    (simp_all add: assms boot_idle_def init_defs mbx_zero_def)

lemma boot_idle_tasks:
  assumes "v = boot_idle calls pool s"
  shows "task_pool v t = (if t = 0 then task_zero\<lparr>tskpri := MIN_TASK_PRIORITY, tskid := 1, exinf := TSK_KERNEL\<rparr>
    else task_zero)"
  by (simp add: assms boot_idle_def init_defs)

lemma boot_main_parts:
  "nodes (boot_main main stack sz v) = set_this (Rdy 1) (Some (Tsk 1)) (set_this (Syn 1) (Some (Tsk 1))
    (set_this (Slp 1) (Some (Tsk 1)) (nodes v)))"
  "kctx (boot_main main stack sz v) = (kctx v)(1 \<mapsto> Resuming K_start)"
  "taskbmap (boot_main main stack sz v) = setbit (taskbmap v) 1"
  "t \<noteq> 1 \<Longrightarrow> task_pool (boot_main main stack sz v) t = task_pool v t"
  "tskid (task_pool (boot_main main stack sz v) 1) = 2" "tskpri (task_pool (boot_main main stack sz v) 1) = 0"
  "tskstat (task_pool (boot_main main stack sz v) 1) = TTS_RDY"
  "idle_task (boot_main main stack sz v) = idle_task v" "prioqueue (boot_main main stack sz v) = prioqueue v"
  "priobmap (boot_main main stack sz v) = priobmap v" "timeout_queue (boot_main main stack sz v) = timeout_queue v"
  "wqueue (boot_main main stack sz v) = wqueue v" "int_nest_count (boot_main main stack sz v) = int_nest_count v"
  "sembmap (boot_main main stack sz v) = sembmap v" "mbx_pool (boot_main main stack sz v) = mbx_pool v"
  "active_sem (boot_main main stack sz v) = active_sem v" "active_flg (boot_main main stack sz v) = active_flg v"
  by (simp_all add: boot_main_def init_stack_def set_task_nodes_def Let_def cfg_defs)

lemma boot_pre_main:
  assumes "list_all driver_call calls" "boot_ok s"
  shows "pre_main (boot_main main stack sz (boot_idle calls pool s))"
proof -
  define v where "v = boot_idle calls pool s"
  have "isolated (nodes v) n" for n
    by (rule boot_idle_nodes [OF assms v_def])
  then have "\<forall>n. isolated (nodes (boot_main main stack sz v)) n"
    by (simp add: boot_main_parts isolated_def)
  moreover have "int_nest_count s = 0"
    using assms(2) by (simp add: boot_ok_def)
  moreover have "task_pool (boot_main main stack sz v) t = task_pool v t" if "t \<noteq> 1" for t
    by (rule boot_main_parts(4) [OF that])
  then have "tskid (task_pool (boot_main main stack sz v) t) = (if t < 2 then int t + 1 else 0)"
    "tskpri (task_pool (boot_main main stack sz v) t) < PRIORITY_LEVELS"
    "tskstat (task_pool (boot_main main stack sz v) t) = (if t = 1 then TTS_RDY else 0)" for t
    by (cases "t = 1"; simp add: boot_main_parts(5-7) [unfolded One_nat_def] boot_idle_tasks [OF v_def]
        task_zero_def cfg_defs)+
  ultimately show ?thesis
    unfolding v_def [symmetric] pre_main_def
    by (simp add: boot_main_parts boot_main_parts(6) [unfolded One_nat_def] boot_main_frame boot_idle_scheduler [OF assms(1) v_def] boot_idle_objects [OF v_def]
        boot_idle_ids [of calls pool s, folded v_def] less_2_cases_iff disj_commute)
qed

lemma start_kernel_inv:
  assumes "list_all driver_call calls" "boot_ok s"
  shows "kinv (start_kernel calls pool main stack sz s)"
  unfolding start_kernel_eq kinv_def using pre_main_kinvw [OF boot_pre_main [OF assms]] by blast

section \<open>Reachable states\<close>

definition reachable :: "kernel \<Rightarrow> bool" where
  "reachable s \<longleftrightarrow> (\<exists>calls pool main stack sz s0. list_all driver_call calls \<and> boot_ok s0 \<and>
     ksteps (start_kernel calls pool main stack sz s0) s)"

lemma reachable_step: "reachable s \<Longrightarrow> kstep s s' \<Longrightarrow> reachable s'"
  unfolding reachable_def ksteps_def by (meson rtranclp.rtrancl_into_rtrancl)

lemma reachable_kinv:
  assumes "reachable s"
  shows "kinv s"
proof -
  obtain calls pool main stack sz s0 where b: "list_all driver_call calls" "boot_ok s0"
    and steps: "kstep\<^sup>*\<^sup>* (start_kernel calls pool main stack sz s0) s"
    using assms by (auto simp: reachable_def ksteps_def)
  show ?thesis
    using steps by (induction rule: rtranclp_induct) (use start_kernel_inv [OF b] kstep_inv in blast)+
qed

lemma boot_reachable:
  "list_all driver_call calls \<Longrightarrow> boot_ok s0 \<Longrightarrow> reachable (start_kernel calls pool main stack sz s0)"
  unfolding reachable_def ksteps_def by blast

text \<open>The first call of \<open>scheduler()\<close> starts the main task.\<close>

definition resuming :: "kcont \<Rightarrow> kernel \<Rightarrow> kernel" where
  "resuming k s = s\<lparr>kctx := (kctx s)(current_task s \<mapsto> Resuming k)\<rparr>"

lemma start_kernel_parts:
  assumes "list_all driver_call calls" "boot_ok s0" "b = start_kernel calls pool main stack sz s0"
  shows "current_task b = 0" "idle_task b = 0" "kctx b 0 = Some (Calling K_idle)"
    and "kctx b 1 = Some (Resuming K_start)" "kinvw b ((\<lambda>_. [])(0 := [1])) (\<lambda>_. []) []"
  unfolding assms(3) start_kernel_eq
  using pre_main_kinvw [OF boot_pre_main [OF assms(1,2), of main stack sz pool]]
  by (simp_all add: boot_idle_ids boot_main_parts boot_main_frame)

lemma boot_runs_main:
  assumes "list_all driver_call calls" "boot_ok s0" "b = start_kernel calls pool main stack sz s0"
  shows "current_task (scheduler (resuming K_idle b)) = 1"
proof -
  note p = start_kernel_parts [OF assms]
  have "highest_ready ((\<lambda>_. [])(0 := [1])) = Some 1"
    by (simp add: highest_ready_def cfg_defs find_upt_least [of _ 0])
  then show ?thesis
    using kinvw_scheduler(2) [OF p(5) refl _ refl, of K_idle] p(1-3)
    by (simp add: resuming_def next_task_def)
qed

end
