(* ===== verification/Sem_Spec.thy ===== *)
theory Sem_Spec
  imports Machine
begin

text \<open>
  What the semaphore calls promise, without pointers: counts, first-in first-out wait queues and ready
  queues by priority. \<open>sem_abs\<close> relates a kernel state to such an abstract state; \<open>sig_sem_sys\<close>
  and \<open>wai_sem_sys\<close> implement the abstract operations.
\<close>

record asys =
  aready :: "nat \<Rightarrow> nat list"
  await :: "wq \<Rightarrow> nat list"
  atimed :: "nat list"
  acnt :: "nat \<Rightarrow> int"

definition sem_abs :: "kernel \<Rightarrow> asys \<Rightarrow> bool" where
  "sem_abs s A \<longleftrightarrow> kinvw s (aready A) (await A) (atimed A) \<and> (\<forall>i. acnt A i = semcnt (sem_pool s i))"

definition make_ready :: "nat \<Rightarrow> nat \<Rightarrow> asys \<Rightarrow> asys" where
  "make_ready p t A = A\<lparr>aready := (aready A)(p := aready A p @ [t])\<rparr>"

text \<open>Release: the task that has waited longest gets the resource, otherwise the count grows.\<close>

definition asig :: "nat \<Rightarrow> (nat \<Rightarrow> nat) \<Rightarrow> asys \<Rightarrow> asys" where
  "asig i pri A =
     (case await A (WSem i) of
        [] \<Rightarrow> A\<lparr>acnt := (acnt A)(i := acnt A i + 1)\<rparr>
      | t # ts \<Rightarrow> make_ready (pri t) t (A\<lparr>await := (await A)(WSem i := ts)\<rparr>))"

text \<open>Acquisition by the task \<open>c\<close>: it takes a resource or goes to the end of the queue.\<close>

definition await_sem :: "nat \<Rightarrow> nat \<Rightarrow> (nat \<Rightarrow> nat) \<Rightarrow> asys \<Rightarrow> asys" where
  "await_sem i c pri A =
     (if acnt A i \<ge> 1 then A\<lparr>acnt := (acnt A)(i := acnt A i - 1)\<rparr>
      else A\<lparr>await := (await A)(WSem i := await A (WSem i) @ [c]),
             aready := (aready A)(pri c := remove1 c (aready A (pri c)))\<rparr>)"

abbreviation (input) pri_of :: "kernel \<Rightarrow> nat \<Rightarrow> nat" where
  "pri_of s \<equiv> \<lambda>t. tskpri (task_pool s t)"

lemma sig_sem_refines:
  assumes A: "sem_abs s A" and i: "bit (sembmap s) i" "i < CONFIG_MAX_SEM"
    and room: "semcnt (sem_pool s i) \<noteq> maxsem (sem_pool s i)"
  shows "\<exists>s'. sig_sem_sys (int i + 1) s = (Sched (K_ret E_OK), s') \<and> sem_abs s' (asig i (pri_of s) A)"
proof -
  have K: "kinvw s (aready A) (await A) (atimed A)" and cnt: "\<And>i. acnt A i = semcnt (sem_pool s i)"
    using A by (simp_all add: sem_abs_def)
  show ?thesis
    using sig_sem_counted [OF K i room] sig_sem_woken [OF K i room _ refl] cnt
    by (cases "await A (WSem i)") (auto simp: asig_def make_ready_def sem_abs_def)
qed

text \<open>For the acquisition the caller is running; while it calls \<open>scheduler()\<close> it is no longer ready.\<close>

lemma wai_sem_refines:
  assumes A: "sem_abs s A" "user_level s" "c = current_task s" and i: "bit (sembmap s) i" "i < CONFIG_MAX_SEM"
  shows "\<exists>s'. wai_sem_sys (int i + 1) s =
      (if semcnt (sem_pool s i) \<ge> 1 then Ret E_OK else Sched (K_wai_sem (int i + 1)), s') \<and>
    sem_abs (if semcnt (sem_pool s i) \<ge> 1 then s' else calling c (K_wai_sem (int i + 1)) s')
      (await_sem i c (pri_of s) A)"
proof -
  have K: "kinvw s (aready A) (await A) (atimed A)" and cnt: "\<And>i. acnt A i = semcnt (sem_pool s i)"
    using A by (simp_all add: sem_abs_def)
  show ?thesis
  proof (cases "semcnt (sem_pool s i) \<ge> 1")
    case True
    then show ?thesis
      using wai_sem_taken [OF K i True] cnt by (auto simp: await_sem_def sem_abs_def)
  next
    case False
    then show ?thesis
      using wai_sem_blocked [OF K A(2,3) refl i] cnt by (auto simp: await_sem_def sem_abs_def)
  qed
qed

end
