(* ===== verification/Example_States.thy ===== *)
theory Example_States
  imports Machine Sem_Spec
begin

text \<open>
  Closed states of the machine: zeroed memory, the kernel after boot, and the main task running at user
  level. They show that the hypotheses of the theorems about reachable states can be met.
\<close>

definition zero_kernel :: kernel where
  "zero_kernel =
     \<lparr>nodes = (\<lambda>_. node_zero), task_pool = (\<lambda>_. task_zero), taskbmap = 0, prioqueue = (\<lambda>_. queue_init),
      priobmap = 0, timeout_queue = None, current_task = 0, idle_task = 0, dispatching = False,
      start_idle = 0, end_idle = 0, tot_idle = 0, cycles = 0, int_nest_count = 0, need_resched = 0,
      system_time = 0, system_log = (\<lambda>_. log_zero), log_index = 0,
      sem_pool = (\<lambda>_. sem_zero), sembmap = 0, active_sem = None,
      flg_pool = (\<lambda>_. flg_zero), flgbmap = 0, active_flg = None,
      mbx_pool = (\<lambda>_. mbx_zero), mbxbmap = 0, msg_pool = 0,
      mpf_pool = (\<lambda>_. mpf_zero), mpfbmap = 0, kmem = (\<lambda>_. 0), kctx = (\<lambda>_. None)\<rparr>"

definition boot0 :: kernel where
  "boot0 = start_kernel [] 0x1000 0x2000 0x3000 256 zero_kernel"

definition run0 :: kernel where
  "run0 = scheduler (resuming K_idle boot0)"

definition user0 :: kernel where
  "user0 = leave_kernel run0"

lemma zero_boot_ok: "boot_ok zero_kernel"
  by (simp add: boot_ok_def zero_kernel_def isolated_def node_zero_def)

lemma no_drivers: "list_all driver_call []"
  by simp

lemmas boot0_parts = start_kernel_parts [OF no_drivers zero_boot_ok boot0_def]

lemma boot0_reachable: "reachable boot0"
  unfolding boot0_def by (rule boot_reachable) (simp_all add: zero_boot_ok)

lemma run0_step: "kstep boot0 run0"
  using kstep.schedule [of boot0 K_idle] boot0_parts by (simp add: run0_def resuming_def)

lemma run0_current: "current_task run0 = 1"
  unfolding run0_def by (rule boot_runs_main [OF no_drivers zero_boot_ok boot0_def])

lemma run0_kctx: "kctx run0 1 = Some (Resuming K_start)" "idle_task run0 = 0"
  using boot0_parts by (simp_all add: run0_def resuming_def)

lemma user0_step: "kstep run0 user0"
  using kstep.continue [of run0 K_start NoValue run0] run0_current run0_kctx by (simp add: user0_def)

lemma user0_reachable: "reachable user0"
  using boot0_reachable run0_step user0_step reachable_step by blast

lemma user0_kinvw: "kinvw user0 ((\<lambda>_. [])(0 := [1])) (\<lambda>_. []) []"
proof -
  have "kinvw run0 ((\<lambda>_. [])(0 := [1])) (\<lambda>_. []) []"
    using kinvw_scheduler(1) [OF boot0_parts(5) refl, of K_idle] boot0_parts(1,3)
    by (simp add: run0_def resuming_def)
  then show ?thesis
    using kinvw_leave_kernel [of run0] run0_current run0_kctx(1) by (simp add: user0_def)
qed

lemma user0_user: "user_level user0" "current_task user0 = 1" "idle_task user0 = 0"
  using run0_current run0_kctx by (simp_all add: user0_def leave_kernel_def user_level_def)

lemma user0_objects: "sembmap user0 = 0" "flgbmap user0 = 0" "mbxbmap user0 = 0" "mpfbmap user0 = 0"
  by (simp_all add: user0_def leave_kernel_def run0_def resuming_def boot0_def start_kernel_eq boot_main_def
      set_task_nodes_def init_stack_def Let_def boot_idle_def init_defs inicalls_def init_syslog_def init_sched_def
      zero_kernel_def)

text \<open>A trap that creates a semaphore with one resource of two: the packet is at address 64.\<close>

definition mem0 :: mem where
  "mem0 = (\<lambda>_. 0)(68 := 1, 72 := 2)"

definition sem0 :: kernel where
  "sem0 = fill_sem TFN_CRE_SEM 0 \<lparr>cs_sematr = 0, cs_isemcnt = 1, cs_maxsem = 2\<rparr> (user0\<lparr>kmem := mem0\<rparr>)"

lemma sem0_call:
  "dispatch 33 = Fn (SEM F_cre_sem)"
  "system_call 33 1 64 0 0 (user0\<lparr>kmem := mem0\<rparr>) = Some (Ret E_OK, sem0)"
proof -
  show nr: "dispatch 33 = Fn (SEM F_cre_sem)"
    by code_simp
  have "read_csem 64 mem0 = Some \<lparr>cs_sematr = 0, cs_isemcnt = 1, cs_maxsem = 2\<rparr>"
    by (simp add: read_csem_def mem0_def)
  then show "system_call 33 1 64 0 0 (user0\<lparr>kmem := mem0\<rparr>) = Some (Ret E_OK, sem0)"
    using user0_objects(1) by (simp add: system_call_def nr cre_sem_sys_def sem0_def cfg_defs)
qed

lemma sem0_reachable: "reachable sem0"
proof -
  have "user_level (user0\<lparr>kmem := mem0\<rparr>)"
    using user0_user(1) by (simp add: user_level_def)
  moreover have "csem_ok (read_csem 64 mem0)"
    by (simp add: csem_ok_def read_csem_def mem0_def)
  ultimately have "kstep (user0\<lparr>kmem := mem0\<rparr>) sem0"
    using kstep.trap_ret [of "user0\<lparr>kmem := mem0\<rparr>" 33 1 64 0 0 E_OK sem0] sem0_call by simp
  then show ?thesis
    using kstep.memory [OF user0_user(1), of mem0] user0_reachable reachable_step by blast
qed

lemma sem0_parts: "sembmap sem0 = setbit 0 0" "semcnt (sem_pool sem0 0) = 1" "maxsem (sem_pool sem0 0) = 2"
  "user_level sem0" "kinvw sem0 ((\<lambda>_. [])(0 := [1])) (\<lambda>_. []) []"
  using user0_objects user0_user kinvw_fill_sem [of "user0\<lparr>kmem := mem0\<rparr>"] user0_kinvw
  by (simp_all add: sem0_def user_level_def) (simp_all add: fill_sem_def Let_def upd_sem_def)

definition asem0 :: asys where
  "asem0 = \<lparr>aready = (\<lambda>_. [])(0 := [1]), await = (\<lambda>_. []), atimed = [], acnt = (\<lambda>i. semcnt (sem_pool sem0 i))\<rparr>"

lemma asem0_abs: "sem_abs sem0 asem0"
  using sem0_parts(5) by (simp add: sem_abs_def asem0_def)

text \<open>The main task waits for the pattern 6 of event flag 1.\<close>

definition flg0 :: kernel where
  "flg0 = fill_flg 0 \<lparr>cf_exinf = 0, cf_flgatr = 0, cf_iflgptn = 0\<rparr> user0"

definition flgwait0 :: kernel where
  "flgwait0 = calling 1 (K_wai_flg 1) (snd (wai_flg_sys 1 6 0 64 flg0))"

lemma flg0_parts: "flgbmap flg0 = setbit 0 0" "user_level flg0" "current_task flg0 = 1" "flgptn (flg_pool flg0 0) = 0"
  "kinvw flg0 ((\<lambda>_. [])(0 := [1])) (\<lambda>_. []) []" "tskpri (task_pool flg0 1) = 0"
proof -
  have "bit (taskbmap user0) 1"
    using kinvw_running(2) [OF user0_kinvw user0_user(1) user0_user(2) [symmetric]] .
  then show "tskpri (task_pool flg0 1) = 0"
    using kinvw_task [OF user0_kinvw, of 1] by (auto simp: task_ok_def flg0_def fill_flg_def Let_def upd_flg_def)
  show "kinvw flg0 ((\<lambda>_. [])(0 := [1])) (\<lambda>_. []) []"
    unfolding flg0_def by (rule kinvw_fill_flg [OF user0_kinvw]) (simp add: user0_objects)
qed (use user0_objects user0_user in
  \<open>simp_all add: flg0_def user_level_def fill_flg_def Let_def upd_flg_def flg_zero_def\<close>)

lemma flgwait0_kinvw: "kinvw flgwait0 ((\<lambda>_. [])(0 := [])) ((\<lambda>_. [])(WFlg 0 := [1])) []"
  using wai_flg_blocked [OF flg0_parts(5,2) flg0_parts(3) [symmetric] refl, of 0 6 0 64] flg0_parts
    krep_wq_is_empty [OF kinvw_krep [OF flg0_parts(5)], of "WFlg 0"]
  by (auto simp: flgwait0_def wai_flg_match_def cfg_defs wqueue_def)

end
