(* ===== verification/Libc_String.thy ===== *)
theory Libc_String
  imports Mpool
begin

text \<open>
  The memory and string functions of \<open>core/libc/string.c\<close> on the byte view of the word memory
  (the processor is little-endian; \<open>char\<close> is signed, as the compiler has it for this target). Loops
  over strings run until they meet a zero byte and are partial; \<open>cstr\<close> says that a string lies at
  an address, and under it every loop is shown to return.
\<close>

unbundle bit_operations_syntax

type_synonym u8 = "8 word"

section \<open>Bytes of a word memory\<close>

definition get_byte :: "mem \<Rightarrow> u32 \<Rightarrow> u8" where
  "get_byte m a = ucast (drop_bit (8 * unat (a AND 3)) (m (a AND NOT 3)))"

definition put_byte :: "u32 \<Rightarrow> u8 \<Rightarrow> mem \<Rightarrow> mem" where
  "put_byte a v m =
     m(a AND NOT 3 :=
         m (a AND NOT 3) AND NOT (push_bit (8 * unat (a AND 3)) 0xff) OR
         push_bit (8 * unat (a AND 3)) (ucast v))"

section \<open>Memory functions\<close>

lemma unat_dec: "w \<noteq> 0 \<Longrightarrow> unat (w - 1) < unat w" for w :: "'a :: len word"
  by (simp add: unat_minus_one unat_gt_0)

lemma unat_dec2: "w \<noteq> 1 \<Longrightarrow> unat (w - 2) < unat (w - 1)" for w :: "'a :: len word"
  using unat_dec [of "w - 1"] by (simp add: diff_diff_eq)

function memset_loop :: "u32 \<Rightarrow> u32 \<Rightarrow> u8 \<Rightarrow> mem \<Rightarrow> mem" where
  "memset_loop count p v m =
     (if count > 0 then memset_loop (count - 1) (p + 1) v (put_byte p v m) else m)"
  by auto
termination
  by (relation "measure (\<lambda>(count, _). unat count)") (auto intro: unat_dec)

definition memset :: "u32 \<Rightarrow> u32 \<Rightarrow> u32 \<Rightarrow> mem \<Rightarrow> mem" where
  "memset dst s count m = memset_loop count dst (ucast s) m"

text \<open>\<open>++count; while (--count) { ... }\<close>\<close>

function memcpy_loop :: "u32 \<Rightarrow> u32 \<Rightarrow> u32 \<Rightarrow> mem \<Rightarrow> mem" where
  "memcpy_loop count d s m =
     (let count = count - 1
      in if count \<noteq> 0 then memcpy_loop count (d + 1) (s + 1) (put_byte d (get_byte m s) m) else m)"
  by auto
termination
  by (relation "measure (\<lambda>(count, _). unat (count - 1))") (auto intro: unat_dec2)

definition memcpy :: "u32 \<Rightarrow> u32 \<Rightarrow> u32 \<Rightarrow> mem \<Rightarrow> mem" where
  "memcpy dst src count m = memcpy_loop (count + 1) dst src m"

function memcmp_loop :: "u32 \<Rightarrow> u32 \<Rightarrow> u32 \<Rightarrow> mem \<Rightarrow> int" where
  "memcmp_loop count d s m =
     (let count = count - 1
      in if count \<noteq> 0 then
           let r = sint (get_byte m d) - sint (get_byte m s)
           in if r \<noteq> 0 then r else memcmp_loop count (d + 1) (s + 1) m
         else 0)"
  by auto
termination
  by (relation "measure (\<lambda>(count, _). unat (count - 1))") (auto intro: unat_dec2)

definition memcmp :: "u32 \<Rightarrow> u32 \<Rightarrow> u32 \<Rightarrow> mem \<Rightarrow> int" where
  "memcmp dst src count m = memcmp_loop (count + 1) dst src m"

text \<open>The two loops \<open>while (count--)\<close> of \<open>memmove\<close>.\<close>

function memmove_up :: "u32 \<Rightarrow> u32 \<Rightarrow> u32 \<Rightarrow> mem \<Rightarrow> mem" where
  "memmove_up count a b m =
     (if count \<noteq> 0 then memmove_up (count - 1) (a + 1) (b + 1) (put_byte a (get_byte m b) m) else m)"
  by auto
termination
  by (relation "measure (\<lambda>(count, _). unat count)") (auto intro: unat_dec)

function memmove_down :: "u32 \<Rightarrow> u32 \<Rightarrow> u32 \<Rightarrow> mem \<Rightarrow> mem" where
  "memmove_down count a b m =
     (if count \<noteq> 0 then memmove_down (count - 1) (a - 1) (b - 1) (put_byte a (get_byte m b) m) else m)"
  by auto
termination
  by (relation "measure (\<lambda>(count, _). unat count)") (auto intro: unat_dec)

definition memmove :: "u32 \<Rightarrow> u32 \<Rightarrow> u32 \<Rightarrow> mem \<Rightarrow> mem" where
  "memmove dst src count m =
     (if src \<noteq> dst then
        if src > dst then memmove_up count dst src m
        else memmove_down count (dst + (count - 1)) (src + (count - 1)) m
      else m)"

declare memset_loop.simps [simp del] memcpy_loop.simps [simp del] memcmp_loop.simps [simp del]
  memmove_up.simps [simp del] memmove_down.simps [simp del]

section \<open>String functions\<close>

partial_function (option) strlen_loop :: "u32 \<Rightarrow> u32 \<Rightarrow> mem \<Rightarrow> u32 option" where
  "strlen_loop i s m = (if get_byte m s \<noteq> 0 then strlen_loop (i + 1) (s + 1) m else Some i)"

definition strlen :: "u32 \<Rightarrow> mem \<Rightarrow> u32 option" where
  "strlen s m = (if s = 0 then Some 0 else strlen_loop 0 s m)"

partial_function (option) strcpy_loop :: "u32 \<Rightarrow> u32 \<Rightarrow> mem \<Rightarrow> mem option" where
  "strcpy_loop aux src m =
     (let c = get_byte m src; m = put_byte aux c m
      in if c \<noteq> 0 then strcpy_loop (aux + 1) (src + 1) m else Some m)"

definition strcpy :: "u32 \<Rightarrow> u32 \<Rightarrow> mem \<Rightarrow> mem option" where
  "strcpy dst src m = strcpy_loop dst src m"

text \<open>\<open>while ((n-- > 0) && (*aux++ = *src++));\<close> with a signed count.\<close>

function strncpy_loop :: "int \<Rightarrow> u32 \<Rightarrow> u32 \<Rightarrow> mem \<Rightarrow> mem" where
  "strncpy_loop n aux src m =
     (if n > 0 then
        let c = get_byte m src; m = put_byte aux c m
        in if c \<noteq> 0 then strncpy_loop (n - 1) (aux + 1) (src + 1) m else m
      else m)"
  by auto
termination
  by (relation "measure (\<lambda>(n, _). nat n)") auto

definition strncpy :: "u32 \<Rightarrow> u32 \<Rightarrow> int \<Rightarrow> mem \<Rightarrow> mem" where
  "strncpy dst src n m = strncpy_loop n dst src m"

declare strncpy_loop.simps [simp del]

text \<open>The loop of \<open>strcat\<close> is the copying loop of \<open>strcpy\<close>: it stores a byte and stops after a
  zero.\<close>

definition strcat :: "u32 \<Rightarrow> u32 \<Rightarrow> mem \<Rightarrow> mem option" where
  "strcat s t m = Option.bind (strlen s m) (\<lambda>n. strcpy_loop (s + n) t m)"

partial_function (option) strcmp :: "u32 \<Rightarrow> u32 \<Rightarrow> mem \<Rightarrow> int option" where
  "strcmp s t m =
     (let x = get_byte m s
      in if x \<noteq> get_byte m t \<or> x = 0 then Some (uint x - uint (get_byte m t))
         else strcmp (s + 1) (t + 1) m)"

partial_function (option) strncmp_loop :: "u32 \<Rightarrow> u32 \<Rightarrow> u32 \<Rightarrow> mem \<Rightarrow> int option" where
  "strncmp_loop fini a b m =
     (if a < fini then
        let res = uint (get_byte m a) - uint (get_byte m b)
        in if res \<noteq> 0 then Some res
           else if get_byte m a = 0 then Some 0
           else strncmp_loop fini (a + 1) (b + 1) m
      else Some 0)"

definition strncmp :: "u32 \<Rightarrow> u32 \<Rightarrow> u32 \<Rightarrow> mem \<Rightarrow> int option" where
  "strncmp s1 s2 n m = strncmp_loop (s1 + n) s1 s2 m"

partial_function (option) strrchr_loop :: "u32 \<Rightarrow> u32 \<Rightarrow> u8 \<Rightarrow> mem \<Rightarrow> u32 option" where
  "strrchr_loop l t ch m =
     (let l = (if get_byte m t = ch then t else l)
      in if get_byte m t = 0 then Some l else strrchr_loop l (t + 1) ch m)"

definition strrchr :: "u32 \<Rightarrow> u32 \<Rightarrow> mem \<Rightarrow> u32 option" where
  "strrchr t c m = strrchr_loop 0 t (ucast c) m"

partial_function (option) strchr_loop :: "u32 \<Rightarrow> u8 \<Rightarrow> mem \<Rightarrow> u32 option" where
  "strchr_loop t ch m =
     (if get_byte m t = ch then Some t
      else if get_byte m t = 0 then Some 0
      else strchr_loop (t + 1) ch m)"

definition strchr :: "u32 \<Rightarrow> u32 \<Rightarrow> mem \<Rightarrow> u32 option" where
  "strchr t c m = strchr_loop t (ucast c) m"

text \<open>The loop of \<open>strstr\<close>; its counter \<open>i\<close> is an \<open>int\<close> that starts at the number of
  positions where the needle fits.\<close>

function strstr_loop :: "u32 \<Rightarrow> u32 \<Rightarrow> u32 \<Rightarrow> u32 \<Rightarrow> mem \<Rightarrow> u32" where
  "strstr_loop i haystack needle nl m =
     (if i \<noteq> 0 then
        if get_byte m haystack = get_byte m needle \<and> memcmp haystack needle nl m = 0 then haystack
        else strstr_loop (i - 1) (haystack + 1) needle nl m
      else 0)"
  by auto
termination
  by (relation "measure (\<lambda>(i, _). unat i)") (auto intro: unat_dec)

declare strstr_loop.simps [simp del]

definition strstr :: "u32 \<Rightarrow> u32 \<Rightarrow> mem \<Rightarrow> u32 option" where
  "strstr haystack needle m =
     Option.bind (strlen needle m) (\<lambda>nl. Option.bind (strlen haystack m) (\<lambda>hl.
       Some (if nl = 0 then haystack else if nl > hl then 0
             else strstr_loop (hl - nl + 1) haystack needle nl m)))"

section \<open>Reading back\<close>

lemma byte_addr_eq: "a AND NOT 3 = b AND NOT 3 \<Longrightarrow> a AND 3 = b AND 3 \<Longrightarrow> a = b" for a b :: u32
proof -
  assume *: "a AND NOT 3 = b AND NOT 3" "a AND 3 = b AND 3"
  have split: "x = (x AND NOT 3) OR (x AND 3)" for x :: u32
    by (auto intro!: bit_word_eqI simp: bit_simps)
  show ?thesis
    by (subst split [of a], subst split [of b]) (simp only: *)
qed

lemma byte_offset: "unat (a AND 3 :: u32) < 4"
proof -
  have "a AND 3 \<le> 3"
    by (simp add: word_and_le1 word_and_le2)
  then show ?thesis
    by (simp add: word_le_nat_alt)
qed

lemma byte_mask: "(0xff :: u32) = mask 8"
  by (simp add: mask_eq_exp_minus_1)

lemma put_same: "p < 4 \<Longrightarrow>
  ucast (drop_bit (8 * p) (w AND NOT (push_bit (8 * p) 0xff) OR push_bit (8 * p) (ucast v))) = v"
  for w :: u32 and v :: u8
  unfolding byte_mask by (rule bit_word_eqI) (auto simp: bit_simps)

lemma put_other: "p < 4 \<Longrightarrow> q < 4 \<Longrightarrow> p \<noteq> q \<Longrightarrow>
  ucast (drop_bit (8 * q) (w AND NOT (push_bit (8 * p) 0xff) OR push_bit (8 * p) (ucast v))) =
    (ucast (drop_bit (8 * q) w) :: u8)"
  for w :: u32 and v :: u8
  unfolding byte_mask by (rule bit_word_eqI) (auto simp: bit_simps dest: bit_imp_le_length)

lemma get_put [simp]: "get_byte (put_byte a v m) b = (if a = b then v else get_byte m b)"
proof (cases "a AND NOT 3 = b AND NOT 3 \<and> a \<noteq> b")
  case True
  then have "unat (a AND 3) \<noteq> unat (b AND 3)"
    using byte_addr_eq [of a b] by (metis word_unat_eq_iff)
  then show ?thesis
    using put_other [OF byte_offset [of a] byte_offset [of b]] True by (simp add: get_byte_def put_byte_def)
next
  case False
  then show ?thesis
    using put_same [OF byte_offset [of a]] by (auto simp: get_byte_def put_byte_def)
qed

section \<open>What the copying loops do\<close>

text \<open>An address \<open>x\<close> lies in the area of \<open>n\<close> bytes at \<open>a\<close> when \<open>unat (x - a) < n\<close>.\<close>

lemma in_area_Suc: "unat w < Suc n \<longleftrightarrow> w = 0 \<or> unat (w - 1) < n" for w :: u32
proof (cases "w = 0")
  case False
  then have "unat (w - 1) = unat w - 1" "unat w > 0"
    by (simp_all add: unat_minus_one unat_gt_0)
  then show ?thesis
    using False by auto
qed simp

lemma of_nat_Suc_neq: "Suc n < 2 ^ 32 \<Longrightarrow> (of_nat (Suc n) :: u32) \<noteq> 0"
  using unat_of_nat [of "Suc n", where 'a = 32] by (auto simp del: of_nat_Suc)

lemma memmove_up_bytes:
  assumes "n < 2 ^ 32" "n \<le> unat (a - b)"
  shows "get_byte (memmove_up (of_nat n) a b m) x =
    (if unat (x - a) < n then get_byte m (b + (x - a)) else get_byte m x)"
  using assms
proof (induction n arbitrary: a b m)
  case 0
  then show ?case
    by (simp add: memmove_up.simps)
next
  case (Suc n)
  have "b + (x - a) \<noteq> a" if "unat (x - a) < Suc n"
    using that Suc.prems(2) by (metis add_diff_cancel_left' not_less)
  moreover have "memmove_up (of_nat (Suc n)) a b m =
      memmove_up (of_nat n) (a + 1) (b + 1) (put_byte a (get_byte m b) m)"
    using of_nat_Suc_neq [OF Suc.prems(1)] by (subst memmove_up.simps) simp
  ultimately show ?case
    using Suc.IH [of "a + 1" "b + 1" "put_byte a (get_byte m b) m"] Suc.prems in_area_Suc [of "x - a" n]
    by (auto simp: algebra_simps)
qed

lemma memmove_down_bytes:
  assumes "n < 2 ^ 32" "n \<le> unat (b - a)"
  shows "get_byte (memmove_down (of_nat n) a b m) x =
    (if unat (a - x) < n then get_byte m (b - (a - x)) else get_byte m x)"
  using assms
proof (induction n arbitrary: a b m)
  case 0
  then show ?case
    by (simp add: memmove_down.simps)
next
  case (Suc n)
  have "y = b - a" if "b - y = a" for y
    using that by (simp add: algebra_simps)
  then have "b - (a - x) \<noteq> a" if "unat (a - x) < Suc n"
    using that Suc.prems(2) by (metis not_less)
  moreover have "memmove_down (of_nat (Suc n)) a b m =
      memmove_down (of_nat n) (a - 1) (b - 1) (put_byte a (get_byte m b) m)"
    using of_nat_Suc_neq [OF Suc.prems(1)] by (subst memmove_down.simps) simp
  moreover have "get_byte (memmove_down (of_nat n) (a - 1) (b - 1) m') x =
      (if unat (a - x - 1) < n then get_byte m' (b - (a - x)) else get_byte m' x)" for m'
  proof -
    have "a - 1 - x = a - x - 1" "b - 1 - (a - x - 1) = b - (a - x)" "b - 1 - (a - 1) = b - a"
      by (simp_all add: algebra_simps)
    then show ?thesis
      using Suc.IH [where a = "a - 1" and b = "b - 1" and m = m'] Suc.prems by (metis Suc_leD Suc_lessD)
  qed
  ultimately show ?case
    using in_area_Suc [of "a - x" n] by auto
qed

lemma unat_u32: "unat (w :: u32) < 2 ^ 32"
  by (rule order_less_le_trans [OF unsigned_less]) simp

lemma unat_diff_wrap: "x < y \<Longrightarrow> unat (x - y) = unat x + 2 ^ 32 - unat y" for x y :: u32
  by (simp add: unat_sub_if' word_less_nat_alt not_le [symmetric])

lemma area_mirror: "unat (n - 1 - w) < unat n \<longleftrightarrow> unat w < unat n" for n w :: u32
proof (cases "n = 0")
  case False
  then have "unat (n - 1) = unat n - 1" "unat n > 0" "unat w < 2 ^ 32"
    using unat_u32 [of w] by (simp_all add: unat_minus_one unat_gt_0)
  then show ?thesis
    using unat_sub_if' [of "n - 1" w] by auto
qed simp

lemma memmove_bytes:
  assumes "unat dst + unat n \<le> 2 ^ 32" "unat src + unat n \<le> 2 ^ 32"
  shows "get_byte (memmove dst src n m) x =
    (if unat (x - dst) < unat n then get_byte m (src + (x - dst)) else get_byte m x)"
proof -
  have n: "unat n < 2 ^ 32" "of_nat (unat n) = n"
    using unat_u32 [of n] by simp_all
  consider "src = dst" | "dst < src" | "src < dst"
    by (rule linorder_cases [of src dst]) auto
  then show ?thesis
  proof cases
    case 2
    then have "unat n \<le> unat (dst - src)"
      using assms(2) unat_diff_wrap [OF 2] by simp
    then show ?thesis
      using memmove_up_bytes [OF n(1), of dst src m x] 2 n(2) by (simp add: memmove_def)
  next
    case 3
    then have le: "unat n \<le> unat (src + (n - 1) - (dst + (n - 1)))"
      using assms(1) unat_diff_wrap [OF 3] by simp
    have eqs: "dst + (n - 1) - x = n - 1 - (x - dst)"
      "src + (n - 1) - (n - 1 - (x - dst)) = src + (x - dst)"
      by (simp_all add: algebra_simps)
    have "memmove dst src n m = memmove_down n (dst + (n - 1)) (src + (n - 1)) m"
      using 3 by (auto simp: memmove_def)
    then show ?thesis
      using memmove_down_bytes [OF n(1) le, of m x] unfolding n(2) eqs area_mirror by metis
  qed (simp add: memmove_def)
qed

lemma memcpy_loop_up: "memcpy_loop (n + 1) d s m = memmove_up n d s m"
proof (induction n d s m rule: memmove_up.induct)
  case (1 n d s m)
  then show ?case
    by (subst memcpy_loop.simps, subst memmove_up.simps) (auto simp: Let_def)
qed

lemma memcpy_bytes:
  assumes "unat n \<le> unat (dst - src)"
  shows "get_byte (memcpy dst src n m) x =
    (if unat (x - dst) < unat n then get_byte m (src + (x - dst)) else get_byte m x)"
  using memmove_up_bytes [of "unat n" dst src m x] assms unat_u32 [of n]
  by (simp add: memcpy_def memcpy_loop_up)

lemma memset_loop_bytes:
  assumes "n < 2 ^ 32"
  shows "get_byte (memset_loop (of_nat n) p v m) x = (if unat (x - p) < n then v else get_byte m x)"
  using assms
proof (induction n arbitrary: p m)
  case 0
  then show ?case
    by (simp add: memset_loop.simps)
next
  case (Suc n)
  have "memset_loop (of_nat (Suc n)) p v m = memset_loop (of_nat n) (p + 1) v (put_byte p v m)"
    using of_nat_Suc_neq [OF Suc.prems] by (subst memset_loop.simps) (simp add: word_neq_0_conv)
  then show ?case
    using Suc.IH [of "p + 1" "put_byte p v m"] Suc.prems in_area_Suc [of "x - p" n]
    by (auto simp: algebra_simps)
qed

lemma memset_bytes:
  "get_byte (memset dst c n m) x = (if unat (x - dst) < unat n then ucast c else get_byte m x)"
  using memset_loop_bytes [of "unat n" dst "ucast c" m x] unat_u32 [of n] by (simp add: memset_def)

lemma memcmp_loop_eq:
  assumes "n < 2 ^ 32"
  shows "memcmp_loop (of_nat n + 1) d s m = 0 \<longleftrightarrow>
    (\<forall>i < n. get_byte m (d + of_nat i) = get_byte m (s + of_nat i))"
  using assms
proof (induction n arbitrary: d s)
  case 0
  then show ?case
    by (simp add: memcmp_loop.simps)
next
  case (Suc n)
  have "memcmp_loop (of_nat (Suc n) + 1) d s m =
      (if get_byte m d = get_byte m s then memcmp_loop (of_nat n + 1) (d + 1) (s + 1) m
       else sint (get_byte m d) - sint (get_byte m s))"
    using of_nat_Suc_neq [OF Suc.prems]
    by (subst memcmp_loop.simps) (auto simp: Let_def add_ac dest: signed_word_eqI)
  then show ?case
    using Suc.IH [of "d + 1" "s + 1"] Suc.prems by (auto simp: All_less_Suc2 add_ac dest: signed_word_eqI)
qed

lemma memcmp_eq:
  "memcmp d s n m = 0 \<longleftrightarrow> (\<forall>i < unat n. get_byte m (d + of_nat i) = get_byte m (s + of_nat i))"
  using memcmp_loop_eq [of "unat n" d s m] unat_u32 [of n] by (simp add: memcmp_def)

section \<open>Strings\<close>

text \<open>The bytes \<open>xs\<close>, none of them zero, lie at \<open>s\<close> and a zero byte follows.\<close>

fun cstr :: "mem \<Rightarrow> u32 \<Rightarrow> u8 list \<Rightarrow> bool" where
  "cstr m s [] \<longleftrightarrow> get_byte m s = 0"
| "cstr m s (x # xs) \<longleftrightarrow> get_byte m s = x \<and> x \<noteq> 0 \<and> cstr m (s + 1) xs"

lemma cstr_iff:
  "cstr m s xs \<longleftrightarrow> (\<forall>i < length xs. get_byte m (s + of_nat i) = xs ! i \<and> xs ! i \<noteq> 0) \<and>
     get_byte m (s + of_nat (length xs)) = 0"
  by (induction xs arbitrary: s) (auto simp: All_less_Suc2 add.assoc [symmetric])

lemma cstr_append:
  "cstr m s (xs @ ys) \<longleftrightarrow>
     (\<forall>i < length xs. get_byte m (s + of_nat i) = xs ! i \<and> xs ! i \<noteq> 0) \<and> cstr m (s + of_nat (length xs)) ys"
  by (induction xs arbitrary: s) (auto simp: All_less_Suc2 add.assoc [symmetric])

lemma cstr_nth: "cstr m s xs \<Longrightarrow> i < length xs \<Longrightarrow> get_byte m (s + of_nat i) = xs ! i"
  by (simp add: cstr_iff)

lemma cstr_end: "cstr m s xs \<Longrightarrow> get_byte m (s + of_nat (length xs)) = 0"
  by (simp add: cstr_iff)

lemma strlen_loop_cstr: "cstr m s xs \<Longrightarrow> strlen_loop i s m = Some (i + of_nat (length xs))"
  by (induction xs arbitrary: s i) (auto simp: strlen_loop.simps add.assoc [symmetric])

lemma strlen_cstr: "cstr m s xs \<Longrightarrow> s \<noteq> 0 \<Longrightarrow> strlen s m = Some (of_nat (length xs))"
  using strlen_loop_cstr [of m s xs 0] by (simp add: strlen_def)

lemma strcmp_cstr:
  "cstr m s xs \<Longrightarrow> cstr m t ys \<Longrightarrow>
     \<exists>r. strcmp s t m = Some r \<and> (r = 0 \<longleftrightarrow> xs = ys) \<and> (r < 0 \<longleftrightarrow> ord_class.lexordp xs ys)"
proof (induction xs arbitrary: s t ys)
  case Nil
  then show ?case
    by (cases ys) (auto simp: strcmp.simps [of s t] Let_def word_neq_0_conv word_less_def)
next
  case (Cons x xs)
  show ?case
  proof (cases ys)
    case Nil
    then show ?thesis
      using Cons.prems by (auto simp: strcmp.simps [of s t] Let_def unsigned_eq_0_iff)
  next
    case (Cons y zs)
    show ?thesis
    proof (cases "x = y")
      case True
      then show ?thesis
        using Cons.IH [of "s + 1" "t + 1" zs] Cons.prems \<open>ys = y # zs\<close>
        by (auto simp: strcmp.simps [of s t] Let_def)
    next
      case False
      then have "uint x \<noteq> uint y"
        by (simp add: word_uint_eq_iff)
      then show ?thesis
        using False Cons.prems \<open>ys = y # zs\<close> by (auto simp: strcmp.simps [of s t] Let_def word_less_def)
    qed
  qed
qed

lemma strcpy_loop_up:
  assumes "cstr m src xs" "length xs < unat (dst - src)"
  shows "strcpy_loop dst src m = Some (memmove_up (of_nat (Suc (length xs))) dst src m)"
  using assms
proof (induction xs arbitrary: dst src m)
  case Nil
  then show ?case
    by (simp add: strcpy_loop.simps [of dst src] memmove_up.simps [of _ dst src] memmove_up.simps [of 0] Let_def)
next
  case (Cons x xs)
  let ?m = "put_byte dst x m"
  have len: "Suc (Suc (length xs)) < 2 ^ 32"
    using Cons.prems(2) unat_u32 [of "dst - src"] by simp
  have "dst \<noteq> src + 1 + of_nat i" if "i \<le> length xs" for i
  proof
    assume "dst = src + 1 + of_nat i"
    then have "dst - src = of_nat (Suc i)"
      by (simp add: add.assoc)
    then have "unat (dst - src) = Suc i"
      using unat_of_nat [of "Suc i", where 'a = 32] that len by (simp del: of_nat_Suc)
    then show False
      using Cons.prems(2) that by simp
  qed
  then have "cstr ?m (src + 1) xs"
    using Cons.prems(1) by (simp add: cstr_iff [of _ "src + 1"])
  then have "strcpy_loop (dst + 1) (src + 1) ?m = Some (memmove_up (of_nat (Suc (length xs))) (dst + 1) (src + 1) ?m)"
    using Cons.IH Cons.prems(2) by simp
  moreover have "memmove_up (of_nat (Suc (Suc (length xs)))) dst src m =
      memmove_up (of_nat (Suc (length xs))) (dst + 1) (src + 1) ?m"
    using of_nat_Suc_neq [OF len] Cons.prems(1) by (subst memmove_up.simps) (simp add: add.commute)
  ultimately show ?case
    using Cons.prems(1) by (simp add: strcpy_loop.simps [of dst src] Let_def del: of_nat_Suc)
qed

lemma strcpy_loop_cstr:
  assumes "cstr m src xs" "length xs < unat (dst - src)"
  obtains m' where "strcpy_loop dst src m = Some m'" "cstr m' dst xs"
    "\<And>x. length xs < unat (x - dst) \<Longrightarrow> get_byte m' x = get_byte m x"
proof -
  have len: "Suc (length xs) < 2 ^ 32"
    using assms(2) unat_u32 [of "dst - src"] by simp
  have *: "get_byte (memmove_up (of_nat (Suc (length xs))) dst src m) x =
      (if unat (x - dst) < Suc (length xs) then get_byte m (src + (x - dst)) else get_byte m x)" for x
    by (rule memmove_up_bytes) (use len assms(2) in simp_all)
  have "unat (of_nat i :: u32) = i" if "i \<le> length xs" for i
    using unat_of_nat [of i, where 'a = 32] that len by simp
  then have "cstr (memmove_up (of_nat (Suc (length xs))) dst src m) dst xs"
    using assms(1) by (simp add: cstr_iff * del: of_nat_Suc)
  then show ?thesis
    using that [OF strcpy_loop_up [OF assms]] * by (simp del: of_nat_Suc)
qed

lemma strcat_cstr:
  assumes "cstr m s xs" "s \<noteq> 0" "cstr m t ys" "length ys < unat (s + of_nat (length xs) - t)"
    and "length xs + length ys < 2 ^ 32"
  shows "\<exists>m'. strcat s t m = Some m' \<and> cstr m' s (xs @ ys)"
proof -
  let ?e = "s + of_nat (length xs)"
  obtain m' where m': "strcpy_loop ?e t m = Some m'" "cstr m' ?e ys"
    and other: "\<And>x. length ys < unat (x - ?e) \<Longrightarrow> get_byte m' x = get_byte m x"
    using strcpy_loop_cstr [OF assms(3,4)] by blast
  have "get_byte m' (s + of_nat i) = xs ! i" if i: "i < length xs" for i
  proof -
    have "unat (of_nat i :: u32) = i" "unat (of_nat (length xs) :: u32) = length xs"
      using unat_of_nat [of i, where 'a = 32] unat_of_nat [of "length xs", where 'a = 32] assms(5) i by simp_all
    then have "unat (of_nat i - of_nat (length xs) :: u32) = i + 2 ^ 32 - length xs"
      using unat_sub_if' [of "of_nat i :: u32" "of_nat (length xs)"] i by simp
    then have "length ys < unat (s + of_nat i - ?e)"
      using assms(5) by simp
    then show ?thesis
      using other cstr_nth [OF assms(1) i] by simp
  qed
  then have "cstr m' s (xs @ ys)"
    using assms(1) m'(2) by (simp add: cstr_append cstr_iff [of m s])
  then show ?thesis
    using m'(1) strlen_cstr [OF assms(1,2)] by (simp add: strcat_def)
qed

lemma strchr_loop_cstr:
  "cstr m t xs \<Longrightarrow> ch \<noteq> 0 \<Longrightarrow> strchr_loop t ch m =
     Some (if ch \<in> set xs then t + of_nat (length (takeWhile ((\<noteq>) ch) xs)) else 0)"
  by (induction xs arbitrary: t) (auto simp: strchr_loop.simps add.assoc [symmetric])

text \<open>The position \<open>strstr\<close> looks for.\<close>

definition occurrence :: "u8 list \<Rightarrow> u8 list \<Rightarrow> nat option" where
  "occurrence ys xs = find (\<lambda>j. take (length ys) (drop j xs) = ys) [0..<Suc (length xs) - length ys]"

lemma find_upt_Suc:
  "find P [0..<Suc n] = (if P 0 then Some 0 else map_option Suc (find (\<lambda>j. P (Suc j)) [0..<n]))"
proof -
  have "find P (map Suc xs) = map_option Suc (find (\<lambda>j. P (Suc j)) xs)" for xs
    by (induction xs) auto
  then show ?thesis
    by (simp add: upt_conv_Cons map_Suc_upt [symmetric] del: upt_Suc)
qed

lemma find_cong_set: "(\<And>x. x \<in> set xs \<Longrightarrow> P x = Q x) \<Longrightarrow> find P xs = find Q xs"
  by (induction xs) auto

lemma strstr_loop_find:
  assumes "k < 2 ^ 32" "nl \<noteq> 0"
  shows "strstr_loop (of_nat k) h n nl m =
    (case find (\<lambda>j. memcmp (h + of_nat j) n nl m = 0) [0..<k] of None \<Rightarrow> 0 | Some j \<Rightarrow> h + of_nat j)"
  using assms(1)
proof (induction k arbitrary: h)
  case 0
  then show ?case
    by (simp add: strstr_loop.simps)
next
  case (Suc k)
  have "get_byte m h = get_byte m n" if "memcmp h n nl m = 0"
    using that assms(2) by (auto simp: memcmp_eq unsigned_eq_0_iff dest!: spec [of _ 0])
  then have "strstr_loop (of_nat (Suc k)) h n nl m =
      (if memcmp h n nl m = 0 then h else strstr_loop (of_nat k) (h + 1) n nl m)"
    using of_nat_Suc_neq [OF Suc.prems] by (subst strstr_loop.simps) auto
  then show ?case
    using Suc.IH [of "h + 1"] Suc.prems
    by (auto simp: find_upt_Suc add.assoc [symmetric] simp del: upt_Suc split: option.splits)
qed

lemma memcmp_cstr:
  assumes "cstr m h xs" "cstr m n ys" "j + length ys \<le> length xs" "unat nl = length ys"
  shows "memcmp (h + of_nat j) n nl m = 0 \<longleftrightarrow> take (length ys) (drop j xs) = ys"
proof -
  have "get_byte m (h + of_nat j + of_nat i) = xs ! (j + i)" if "i < length ys" for i
    using cstr_nth [OF assms(1), of "j + i"] that assms(3) by (simp add: add.assoc)
  then show ?thesis
    using assms(2,3) by (auto simp: memcmp_eq assms(4) list_eq_iff_nth_eq cstr_nth)
qed

lemma strstr_cstr:
  assumes "cstr m h xs" "cstr m n ys" "h \<noteq> 0" "n \<noteq> 0" "length xs < 2 ^ 32" "length ys < 2 ^ 32"
  shows "strstr h n m = Some (case occurrence ys xs of None \<Rightarrow> 0 | Some j \<Rightarrow> h + of_nat j)"
proof -
  let ?k = "Suc (length xs) - length ys"
  have u: "unat (of_nat (length xs) :: u32) = length xs" "unat (of_nat (length ys) :: u32) = length ys"
    using unat_of_nat [of "length xs", where 'a = 32] unat_of_nat [of "length ys", where 'a = 32] assms(5,6)
    by simp_all
  note len = strlen_cstr [OF assms(2,4)] strlen_cstr [OF assms(1,3)]
  consider "ys = []" | "length xs < length ys" | "ys \<noteq> []" "length ys \<le> length xs"
    by linarith
  then show ?thesis
  proof cases
    case 3
    then have k: "of_nat (length xs) - of_nat (length ys) + 1 = (of_nat ?k :: u32)" "?k < 2 ^ 32"
      using assms(5) by (simp_all add: Suc_diff_le add.commute) (cases ys, auto)
    have nl: "(of_nat (length ys) :: u32) \<noteq> 0"
      using u(2) 3(1) by auto
    have "find (\<lambda>j. memcmp (h + of_nat j) n (of_nat (length ys)) m = 0) [0..<?k] = occurrence ys xs"
      unfolding occurrence_def
      by (rule find_cong_set, rule memcmp_cstr [OF assms(1,2)]) (use 3 u(2) in auto)
    then show ?thesis
      using strstr_loop_find [OF k(2) nl, of h n m, folded k(1)] len nl 3(2) u
      by (simp add: strstr_def word_less_nat_alt)
  qed (use len u in \<open>auto simp: strstr_def occurrence_def word_less_nat_alt upt_conv_Cons simp del: upt_Suc\<close>)
qed

end
