(* ===== verification/Tlsf.thy ===== *)
theory Tlsf
  imports Bitmaps Libc_String
begin

text \<open>
  The TLSF allocator (\<open>core/libc/tlsf.c\<close>) on word memory, as it is compiled here: without locks,
  statistics, \<open>sbrk\<close> and \<open>mmap\<close>. Pointers have four bytes. A \<open>tlsf_t\<close> has its signature at offset
  0, \<open>area_head\<close> at 4, \<open>fl_bitmap\<close> at 8, the 24 words of \<open>sl_bitmap\<close> at 12 and the matrix of
  24 times 32 list heads at 108; its size is 3180. A block header has \<open>prev_hdr\<close> at offset 0,
  \<open>size\<close> at 4 and, while the block is free, \<open>prev\<close> at 8 and \<open>next\<close> at 12; the buffer begins at 8.
\<close>

section \<open>Parameters and layout\<close>

definition MAX_LOG2_SLI :: nat where "MAX_LOG2_SLI = 5"
definition MAX_SLI :: nat where "MAX_SLI = 32"
definition FLI_OFFSET :: nat where "FLI_OFFSET = 6"
definition REAL_FLI :: nat where "REAL_FLI = 24"
definition SMALL_BLOCK :: u32 where "SMALL_BLOCK = 128"
definition MIN_BLOCK_SIZE :: u32 where "MIN_BLOCK_SIZE = 8"
definition BHDR_OVERHEAD :: u32 where "BHDR_OVERHEAD = 8"
definition TLSF_SIGNATURE :: u32 where "TLSF_SIGNATURE = 0x2A59FA59"
definition PTR_MASK :: u32 where "PTR_MASK = 3"
definition BLOCK_SIZE :: u32 where "BLOCK_SIZE = 0xFFFFFFFF - PTR_MASK"
definition MEM_ALIGN :: u32 where "MEM_ALIGN = 7"
definition PREV_STATE :: u32 where "PREV_STATE = 2"
definition FREE_BLOCK :: u32 where "FREE_BLOCK = 1"
definition USED_BLOCK :: u32 where "USED_BLOCK = 0"
definition PREV_FREE :: u32 where "PREV_FREE = 2"
definition PREV_USED :: u32 where "PREV_USED = 0"

definition ROUNDUP_SIZE :: "u32 \<Rightarrow> u32" where "ROUNDUP_SIZE r = (r + MEM_ALIGN) AND NOT MEM_ALIGN"
definition ROUNDDOWN_SIZE :: "u32 \<Rightarrow> u32" where "ROUNDDOWN_SIZE r = r AND NOT MEM_ALIGN"

definition sizeof_tlsf :: u32 where "sizeof_tlsf = 3180"
definition sizeof_bhdr :: u32 where "sizeof_bhdr = 16"
definition sizeof_area_info :: u32 where "sizeof_area_info = 8"

abbreviation (input) area_head_at :: "u32 \<Rightarrow> u32" where "area_head_at t \<equiv> t + 4"
abbreviation (input) fl_at :: "u32 \<Rightarrow> u32" where "fl_at t \<equiv> t + 8"

definition sl_at :: "u32 \<Rightarrow> int \<Rightarrow> u32" where
  "sl_at t fl = t + 12 + 4 * word_of_int fl"

definition matrix_at :: "u32 \<Rightarrow> int \<Rightarrow> int \<Rightarrow> u32" where
  "matrix_at t fl sl = t + 108 + 4 * (32 * word_of_int fl + word_of_int sl)"

abbreviation (input) prev_hdr_at :: "u32 \<Rightarrow> u32" where "prev_hdr_at b \<equiv> b"
abbreviation (input) size_at :: "u32 \<Rightarrow> u32" where "size_at b \<equiv> b + 4"
abbreviation (input) prev_at :: "u32 \<Rightarrow> u32" where "prev_at b \<equiv> b + 8"
abbreviation (input) next_at :: "u32 \<Rightarrow> u32" where "next_at b \<equiv> b + 12"
abbreviation (input) buffer_of :: "u32 \<Rightarrow> u32" where "buffer_of b \<equiv> b + 8"

definition GET_NEXT_BLOCK :: "u32 \<Rightarrow> u32 \<Rightarrow> u32" where "GET_NEXT_BLOCK addr r = addr + r"

section \<open>Bits\<close>

definition table :: "int list" where
  "table = [-1, 0] @ replicate 2 1 @ replicate 4 2 @ replicate 8 3 @ replicate 16 4 @ replicate 32 5 @
     replicate 64 6 @ replicate 128 7"

definition ms_bit :: "u32 \<Rightarrow> int" where
  "ms_bit x =
     (let a = (if x \<le> 0xffff then if x \<le> 0xff then 0 else 8 else if x \<le> 0xffffff then 16 else 24)
      in table ! unat (drop_bit a x) + int a)"

definition ls_bit :: "u32 \<Rightarrow> int" where
  "ls_bit i =
     (let x = i AND - i;
          a = (if x \<le> 0xffff then if x \<le> 0xff then 0 else 8 else if x \<le> 0xffffff then 16 else 24)
      in table ! unat (drop_bit a x) + int a)"

definition tlsf_set_bit :: "int \<Rightarrow> u32 \<Rightarrow> mem \<Rightarrow> mem" where
  "tlsf_set_bit nr addr m =
     (let w = addr + 4 * word_of_int (nr div 32) in m(w := m w OR push_bit (nat (nr mod 32)) 1))"

definition tlsf_clear_bit :: "int \<Rightarrow> u32 \<Rightarrow> mem \<Rightarrow> mem" where
  "tlsf_clear_bit nr addr m =
     (let w = addr + 4 * word_of_int (nr div 32) in m(w := m w AND NOT (push_bit (nat (nr mod 32)) 1)))"

section \<open>Size classes\<close>

text \<open>\<open>MAPPING_SEARCH\<close> returns the size rounded up to the next class and that class.\<close>

definition MAPPING_SEARCH :: "u32 \<Rightarrow> u32 \<times> int \<times> int" where
  "MAPPING_SEARCH r =
     (if r < SMALL_BLOCK then (r, 0, uint (r div (SMALL_BLOCK div of_nat MAX_SLI)))
      else
        let t = push_bit (nat (ms_bit r - int MAX_LOG2_SLI)) 1 - 1;
            r = r + t;
            fl = ms_bit r;
            sl = sint (drop_bit (nat (fl - int MAX_LOG2_SLI)) r - of_nat MAX_SLI);
            fl = fl - int FLI_OFFSET
        in (r AND NOT t, fl, sl))"

definition MAPPING_INSERT :: "u32 \<Rightarrow> int \<times> int" where
  "MAPPING_INSERT r =
     (if r < SMALL_BLOCK then (0, uint (r div (SMALL_BLOCK div of_nat MAX_SLI)))
      else
        let fl = ms_bit r;
            sl = sint (drop_bit (nat (fl - int MAX_LOG2_SLI)) r - of_nat MAX_SLI)
        in (fl - int FLI_OFFSET, sl))"

definition FIND_SUITABLE_BLOCK :: "u32 \<Rightarrow> int \<Rightarrow> int \<Rightarrow> mem \<Rightarrow> u32 \<times> int \<times> int" where
  "FIND_SUITABLE_BLOCK t fl sl m =
     (let tmp = m (sl_at t fl) AND push_bit (nat sl) (-1)
      in if tmp \<noteq> 0 then
           let sl = ls_bit tmp in (m (matrix_at t fl sl), fl, sl)
         else
           let fl = ls_bit (m (fl_at t) AND push_bit (nat (fl + 1)) (-1))
           in if fl > 0 then
                let sl = ls_bit (m (sl_at t fl)) in (m (matrix_at t fl sl), fl, sl)
              else (0, fl, sl))"

section \<open>Lists of free blocks\<close>

definition EXTRACT_BLOCK_HDR :: "u32 \<Rightarrow> u32 \<Rightarrow> int \<Rightarrow> int \<Rightarrow> mem \<Rightarrow> mem" where
  "EXTRACT_BLOCK_HDR b t fl sl m =
     (let m = m(matrix_at t fl sl := m (next_at b));
          m = (if m (matrix_at t fl sl) \<noteq> 0 then m(prev_at (m (matrix_at t fl sl)) := 0)
               else
                 let m = tlsf_clear_bit sl (sl_at t fl) m
                 in if m (sl_at t fl) = 0 then tlsf_clear_bit fl (fl_at t) m else m);
          m = m(prev_at b := 0)
      in m(next_at b := 0))"

definition EXTRACT_BLOCK :: "u32 \<Rightarrow> u32 \<Rightarrow> int \<Rightarrow> int \<Rightarrow> mem \<Rightarrow> mem" where
  "EXTRACT_BLOCK b t fl sl m =
     (let m = (if m (next_at b) \<noteq> 0 then m(prev_at (m (next_at b)) := m (prev_at b)) else m);
          m = (if m (prev_at b) \<noteq> 0 then m(next_at (m (prev_at b)) := m (next_at b)) else m);
          m = (if m (matrix_at t fl sl) = b then
                 let m = m(matrix_at t fl sl := m (next_at b))
                 in if m (matrix_at t fl sl) = 0 then
                      let m = tlsf_clear_bit sl (sl_at t fl) m
                      in if m (sl_at t fl) = 0 then tlsf_clear_bit fl (fl_at t) m else m
                    else m
               else m);
          m = m(prev_at b := 0)
      in m(next_at b := 0))"

definition INSERT_BLOCK :: "u32 \<Rightarrow> u32 \<Rightarrow> int \<Rightarrow> int \<Rightarrow> mem \<Rightarrow> mem" where
  "INSERT_BLOCK b t fl sl m =
     (let m = m(prev_at b := 0);
          m = m(next_at b := m (matrix_at t fl sl));
          m = (if m (matrix_at t fl sl) \<noteq> 0 then m(prev_at (m (matrix_at t fl sl)) := b) else m);
          m = m(matrix_at t fl sl := b);
          m = tlsf_set_bit sl (sl_at t fl) m
      in tlsf_set_bit fl (fl_at t) m)"

section \<open>The allocator\<close>

definition malloc_ex :: "u32 \<Rightarrow> u32 \<Rightarrow> mem \<Rightarrow> u32 \<times> mem" where
  "malloc_ex sz t m =
     (let sz = (if sz < MIN_BLOCK_SIZE then MIN_BLOCK_SIZE else ROUNDUP_SIZE sz);
          (sz, fl, sl) = MAPPING_SEARCH sz;
          (b, fl, sl) = FIND_SUITABLE_BLOCK t fl sl m
      in if b = 0 then (0, m)
         else
           let m = EXTRACT_BLOCK_HDR b t fl sl m;
               next_b = GET_NEXT_BLOCK (buffer_of b) (m (size_at b) AND BLOCK_SIZE);
               tmp_size = (m (size_at b) AND BLOCK_SIZE) - sz
           in if tmp_size \<ge> sizeof_bhdr then
                let tmp_size = tmp_size - BHDR_OVERHEAD;
                    b2 = GET_NEXT_BLOCK (buffer_of b) sz;
                    m = m(size_at b2 := tmp_size OR FREE_BLOCK OR PREV_USED);
                    m = m(prev_hdr_at next_b := b2);
                    (fl, sl) = MAPPING_INSERT tmp_size;
                    m = INSERT_BLOCK b2 t fl sl m;
                    m = m(size_at b := sz OR (m (size_at b) AND PREV_STATE))
                in (buffer_of b, m)
              else
                let m = m(size_at next_b := m (size_at next_b) AND NOT PREV_FREE);
                    m = m(size_at b := m (size_at b) AND NOT FREE_BLOCK)
                in (buffer_of b, m))"

definition free_ex :: "u32 \<Rightarrow> u32 \<Rightarrow> mem \<Rightarrow> mem" where
  "free_ex ptr t m =
     (if ptr = 0 then m
      else
        let b = ptr - BHDR_OVERHEAD;
            m = m(size_at b := m (size_at b) OR FREE_BLOCK);
            m = m(prev_at b := 0);
            m = m(next_at b := 0);
            tmp_b = GET_NEXT_BLOCK (buffer_of b) (m (size_at b) AND BLOCK_SIZE);
            m = (if m (size_at tmp_b) AND FREE_BLOCK \<noteq> 0 then
                   let (fl, sl) = MAPPING_INSERT (m (size_at tmp_b) AND BLOCK_SIZE);
                       m = EXTRACT_BLOCK tmp_b t fl sl m
                   in m(size_at b := m (size_at b) + ((m (size_at tmp_b) AND BLOCK_SIZE) + BHDR_OVERHEAD))
                 else m);
            (b, m) = (if m (size_at b) AND PREV_FREE \<noteq> 0 then
                        let tmp_b = m (prev_hdr_at b);
                            (fl, sl) = MAPPING_INSERT (m (size_at tmp_b) AND BLOCK_SIZE);
                            m = EXTRACT_BLOCK tmp_b t fl sl m
                        in (tmp_b, m(size_at tmp_b :=
                              m (size_at tmp_b) + ((m (size_at b) AND BLOCK_SIZE) + BHDR_OVERHEAD)))
                      else (b, m));
            (fl, sl) = MAPPING_INSERT (m (size_at b) AND BLOCK_SIZE);
            m = INSERT_BLOCK b t fl sl m;
            tmp_b = GET_NEXT_BLOCK (buffer_of b) (m (size_at b) AND BLOCK_SIZE);
            m = m(size_at tmp_b := m (size_at tmp_b) OR PREV_FREE)
        in m(prev_hdr_at tmp_b := b))"

definition calloc_ex :: "u32 \<Rightarrow> u32 \<Rightarrow> u32 \<Rightarrow> mem \<Rightarrow> u32 \<times> mem" where
  "calloc_ex nelem elem_size t m =
     (if nelem \<le> 0 \<or> elem_size \<le> 0 then (0, m)
      else
        let (ptr, m) = malloc_ex (nelem * elem_size) t m
        in if ptr = 0 then (0, m) else (ptr, memset ptr 0 (nelem * elem_size) m))"

text \<open>The part of \<open>realloc_ex\<close> that cuts the block \<open>b\<close> to \<open>new_size\<close> bytes: the
  \<open>tmp_size\<close> bytes behind it become a free block when they are enough for one.\<close>

definition realloc_split :: "u32 \<Rightarrow> u32 \<Rightarrow> u32 \<Rightarrow> u32 \<Rightarrow> u32 \<Rightarrow> mem \<Rightarrow> mem" where
  "realloc_split b next_b new_size tmp_size t m =
     (if tmp_size \<ge> sizeof_bhdr then
        let tmp_size = tmp_size - BHDR_OVERHEAD;
            tmp_b = GET_NEXT_BLOCK (buffer_of b) new_size;
            m = m(size_at tmp_b := tmp_size OR FREE_BLOCK OR PREV_USED);
            m = m(prev_hdr_at next_b := tmp_b);
            m = m(size_at next_b := m (size_at next_b) OR PREV_FREE);
            (fl, sl) = MAPPING_INSERT tmp_size;
            m = INSERT_BLOCK tmp_b t fl sl m
        in m(size_at b := new_size OR (m (size_at b) AND PREV_STATE))
      else m)"

definition realloc_ex :: "u32 \<Rightarrow> u32 \<Rightarrow> u32 \<Rightarrow> mem \<Rightarrow> u32 \<times> mem" where
  "realloc_ex ptr new_size t m =
     (if ptr = 0 then if new_size \<noteq> 0 then malloc_ex new_size t m else (0, m)
      else if new_size = 0 then (0, free_ex ptr t m)
      else
        let b = ptr - BHDR_OVERHEAD;
            next_b = GET_NEXT_BLOCK (buffer_of b) (m (size_at b) AND BLOCK_SIZE);
            new_size = (if new_size < MIN_BLOCK_SIZE then MIN_BLOCK_SIZE else ROUNDUP_SIZE new_size);
            tmp_size = m (size_at b) AND BLOCK_SIZE
        in if new_size \<le> tmp_size then
             let (tmp_size, next_b, m) =
                   (if m (size_at next_b) AND FREE_BLOCK \<noteq> 0 then
                      let (fl, sl) = MAPPING_INSERT (m (size_at next_b) AND BLOCK_SIZE);
                          m = EXTRACT_BLOCK next_b t fl sl m
                      in (tmp_size + ((m (size_at next_b) AND BLOCK_SIZE) + BHDR_OVERHEAD),
                          GET_NEXT_BLOCK (buffer_of next_b) (m (size_at next_b) AND BLOCK_SIZE), m)
                    else (tmp_size, next_b, m))
             in (buffer_of b, realloc_split b next_b new_size (tmp_size - new_size) t m)
           else if m (size_at next_b) AND FREE_BLOCK \<noteq> 0 \<and>
                   new_size \<le> tmp_size + (m (size_at next_b) AND BLOCK_SIZE) then
             let (fl, sl) = MAPPING_INSERT (m (size_at next_b) AND BLOCK_SIZE);
                 m = EXTRACT_BLOCK next_b t fl sl m;
                 m = m(size_at b := m (size_at b) + ((m (size_at next_b) AND BLOCK_SIZE) + BHDR_OVERHEAD));
                 next_b = GET_NEXT_BLOCK (buffer_of b) (m (size_at b) AND BLOCK_SIZE);
                 m = m(prev_hdr_at next_b := b);
                 m = m(size_at next_b := m (size_at next_b) AND NOT PREV_FREE)
             in (buffer_of b, realloc_split b next_b new_size ((m (size_at b) AND BLOCK_SIZE) - new_size) t m)
           else
             let (ptr_aux, m) = malloc_ex new_size t m
             in if ptr_aux = 0 then (0, m)
                else
                  let cpsize = (if (m (size_at b) AND BLOCK_SIZE) > new_size then new_size
                                else m (size_at b) AND BLOCK_SIZE)
                  in (ptr_aux, free_ex ptr t (memcpy ptr_aux ptr cpsize m)))"

section \<open>Pools and areas\<close>

definition process_area :: "u32 \<Rightarrow> u32 \<Rightarrow> mem \<Rightarrow> u32 \<times> mem" where
  "process_area area sz m =
     (let ib = area;
          m = m(size_at ib := (if sizeof_area_info < MIN_BLOCK_SIZE then MIN_BLOCK_SIZE
                               else ROUNDUP_SIZE sizeof_area_info OR USED_BLOCK OR PREV_USED));
          b = GET_NEXT_BLOCK (buffer_of ib) (m (size_at ib) AND BLOCK_SIZE);
          m = m(size_at b := ROUNDDOWN_SIZE (sz - 3 * BHDR_OVERHEAD - (m (size_at ib) AND BLOCK_SIZE))
                 OR USED_BLOCK OR PREV_USED);
          m = m(next_at b := 0);
          m = m(prev_at b := 0);
          lb = GET_NEXT_BLOCK (buffer_of b) (m (size_at b) AND BLOCK_SIZE);
          m = m(prev_hdr_at lb := b);
          m = m(size_at lb := 0 OR USED_BLOCK OR PREV_FREE);
          ai = buffer_of ib;
          m = m(ai + 4 := 0);
          m = m(ai := lb)
      in (ib, m))"

text \<open>The result, the default pool \<open>mp\<close> and the memory. The error result is \<open>(size_t) -1\<close>.\<close>

definition init_memory_pool :: "u32 \<Rightarrow> u32 \<Rightarrow> u32 \<Rightarrow> mem \<Rightarrow> u32 \<times> u32 \<times> mem" where
  "init_memory_pool mem_pool_size mem_pool mp m =
     (if mem_pool = 0 \<or> mem_pool_size = 0 \<or> mem_pool_size < sizeof_tlsf + BHDR_OVERHEAD * 8 then (-1, mp, m)
      else if mem_pool AND PTR_MASK \<noteq> 0 then (-1, mp, m)
      else if m mem_pool = TLSF_SIGNATURE then
        let mp = mem_pool; b = GET_NEXT_BLOCK mp (ROUNDUP_SIZE sizeof_tlsf)
        in (m (size_at b) AND BLOCK_SIZE, mp, m)
      else
        let mp = mem_pool;
            m = memset mem_pool 0 sizeof_tlsf m;
            m = m(mem_pool := TLSF_SIGNATURE);
            (ib, m) = process_area (GET_NEXT_BLOCK mem_pool (ROUNDUP_SIZE sizeof_tlsf))
                        (ROUNDDOWN_SIZE (mem_pool_size - sizeof_tlsf)) m;
            b = GET_NEXT_BLOCK (buffer_of ib) (m (size_at ib) AND BLOCK_SIZE);
            m = free_ex (buffer_of b) mem_pool m;
            m = m(area_head_at mem_pool := buffer_of ib)
        in (m (size_at b) AND BLOCK_SIZE, mp, m))"

text \<open>Unlinking of the area \<open>ptr\<close> from the list of areas, with the next area to look at.\<close>

definition unlink_area :: "u32 \<Rightarrow> u32 \<Rightarrow> u32 \<Rightarrow> mem \<Rightarrow> u32 \<times> mem" where
  "unlink_area t ptr ptr_prev m =
     (let m = (if m (area_head_at t) = ptr then m(area_head_at t := m (ptr + 4))
               else m(ptr_prev + 4 := m (ptr + 4)))
      in (m (ptr + 4), m))"

partial_function (option) add_area_loop ::
  "u32 \<Rightarrow> u32 \<Rightarrow> u32 \<Rightarrow> u32 \<Rightarrow> u32 \<Rightarrow> u32 \<Rightarrow> mem \<Rightarrow> (u32 \<times> u32 \<times> u32 \<times> mem) option" where
  "add_area_loop t ptr ptr_prev ib0 b0 lb0 m =
     (if ptr = 0 then Some (ib0, b0, lb0, m)
      else
        let ib1 = ptr - BHDR_OVERHEAD;
            b1 = GET_NEXT_BLOCK (buffer_of ib1) (m (size_at ib1) AND BLOCK_SIZE);
            lb1 = m ptr
        in if ib1 = lb0 + BHDR_OVERHEAD then
             let (ptr, m) = unlink_area t ptr ptr_prev m;
                 m = m(size_at b0 := ROUNDDOWN_SIZE ((m (size_at b0) AND BLOCK_SIZE) +
                        (m (size_at ib1) AND BLOCK_SIZE) + 2 * BHDR_OVERHEAD) OR USED_BLOCK OR PREV_USED);
                 m = m(prev_hdr_at b1 := b0)
             in add_area_loop t ptr ptr_prev ib0 b0 lb1 m
           else if buffer_of lb1 = ib0 then
             let (ptr, m) = unlink_area t ptr ptr_prev m;
                 m = m(size_at lb1 := ROUNDDOWN_SIZE ((m (size_at b0) AND BLOCK_SIZE) +
                        (m (size_at ib0) AND BLOCK_SIZE) + 2 * BHDR_OVERHEAD) OR USED_BLOCK OR
                        (m (size_at lb1) AND PREV_STATE));
                 next_b = GET_NEXT_BLOCK (buffer_of lb1) (m (size_at lb1) AND BLOCK_SIZE);
                 m = m(prev_hdr_at next_b := lb1)
             in add_area_loop t ptr ptr_prev ib1 lb1 lb0 m
           else add_area_loop t (m (ptr + 4)) ptr ib0 b0 lb0 m)"

definition add_new_area :: "u32 \<Rightarrow> u32 \<Rightarrow> u32 \<Rightarrow> mem \<Rightarrow> (u32 \<times> mem) option" where
  "add_new_area area area_size t m =
     (let m = memset area 0 area_size m;
          ptr = m (area_head_at t);
          (ib0, m) = process_area area area_size m;
          b0 = GET_NEXT_BLOCK (buffer_of ib0) (m (size_at ib0) AND BLOCK_SIZE);
          lb0 = GET_NEXT_BLOCK (buffer_of b0) (m (size_at b0) AND BLOCK_SIZE)
      in map_option (\<lambda>(ib0, b0, lb0, m).
            let ai = buffer_of ib0;
                m = m(ai + 4 := m (area_head_at t));
                m = m(ai := lb0);
                m = m(area_head_at t := ai);
                m = free_ex (buffer_of b0) t m
            in (m (size_at b0) AND BLOCK_SIZE, m))
          (add_area_loop t ptr 0 ib0 b0 lb0 m))"

definition get_used_size :: "u32 \<Rightarrow> u32" where
  "get_used_size mem_pool = 0"

definition get_max_size :: "u32 \<Rightarrow> u32" where
  "get_max_size mem_pool = 0"

definition destroy_memory_pool :: "u32 \<Rightarrow> mem \<Rightarrow> mem" where
  "destroy_memory_pool t m = m(t := 0)"

definition tlsf_malloc :: "u32 \<Rightarrow> u32 \<Rightarrow> mem \<Rightarrow> u32 \<times> mem" where
  "tlsf_malloc mp sz m = malloc_ex sz mp m"

definition tlsf_free :: "u32 \<Rightarrow> u32 \<Rightarrow> mem \<Rightarrow> mem" where
  "tlsf_free mp ptr m = free_ex ptr mp m"

definition tlsf_realloc :: "u32 \<Rightarrow> u32 \<Rightarrow> u32 \<Rightarrow> mem \<Rightarrow> u32 \<times> mem" where
  "tlsf_realloc mp ptr sz m = realloc_ex ptr sz mp m"

definition tlsf_calloc :: "u32 \<Rightarrow> u32 \<Rightarrow> u32 \<Rightarrow> mem \<Rightarrow> u32 \<times> mem" where
  "tlsf_calloc mp nelem elem_size m = calloc_ex nelem elem_size mp m"

end
