(* ===== verification/Tlsf_Fit.thy ===== *)
theory Tlsf_Fit
  imports Tlsf
begin

text \<open>
  Why the TLSF allocator returns blocks that are large enough. \<open>ms_bit\<close> and \<open>ls_bit\<close> are the greatest and
  the least bit; the class \<open>MAPPING_SEARCH\<close> computes for a request and every later class hold only blocks
  of at least the size asked for; \<open>FIND_SUITABLE_BLOCK\<close> finds a block in such a class whenever there is
  one; and \<open>malloc_ex\<close> returns it, cut to size.
\<close>

section \<open>What the bit functions compute\<close>

primrec log_table :: "nat \<Rightarrow> int list" where
  "log_table 0 = [-1]"
| "log_table (Suc k) = log_table k @ replicate (2 ^ k) (int k)"

lemma length_log_table [simp]: "length (log_table k) = 2 ^ k"
  by (induction k) simp_all

lemma log_table_nth:
  assumes "0 < b" "b < 2 ^ k"
  shows "\<exists>n. log_table k ! b = int n \<and> 2 ^ n \<le> b \<and> b < 2 ^ Suc n"
  using assms
proof (induction k)
  case (Suc k)
  then show ?case
    by (cases "b < 2 ^ k") (auto simp: nth_append intro!: exI [of _ k])
qed simp

lemma table_log:
  assumes "0 < b" "b < 256"
  obtains n where "table ! b = int n" "2 ^ n \<le> b" "b < 2 ^ Suc n"
proof -
  have "table = log_table 8"
    by (simp add: table_def eval_nat_numeral)
  then show ?thesis
    using log_table_nth [of b 8] assms that by auto
qed

text \<open>The byte both functions look up.\<close>

lemma table_shift:
  fixes x :: u32
  assumes "x \<noteq> 0"
    and "a = (if x \<le> 0xffff then if x \<le> 0xff then 0 else 8 else if x \<le> 0xffffff then 16 else 24 :: nat)"
  obtains n where "table ! unat (drop_bit a x) + int a = int n" "2 ^ n \<le> unat x" "unat x < 2 ^ Suc n"
proof -
  have d: "unat (drop_bit a x) = unat x div 2 ^ a"
    by (subst unsigned_drop_bit_eq) (simp add: drop_bit_eq_div take_bit_nat_eq_self [OF unat_u32])
  have "0 < unat x"
    using assms(1) by (simp add: unat_gt_0)
  then have "2 ^ a \<le> unat x" "unat x div 2 ^ a < 256"
    using assms(2) unat_u32 [of x] by (auto simp: word_le_nat_alt split: if_splits)
  then have "0 < unat x div 2 ^ a" "unat x div 2 ^ a < 256"
    by (simp_all add: div_greater_zero_iff)
  then obtain k where k: "table ! (unat x div 2 ^ a) = int k" "2 ^ k \<le> unat x div 2 ^ a" "unat x div 2 ^ a < 2 ^ Suc k"
    by (rule table_log)
  have "2 ^ (k + a) \<le> unat x"
    using k(2) by (simp add: power_add less_eq_div_iff_mult_less_eq)
  moreover have "unat x < 2 ^ Suc (k + a)"
    using k(3) by (simp add: power_add div_less_iff_less_mult mult.assoc)
  ultimately show ?thesis
    using that [of "k + a"] k(1) d by simp
qed

lemma ms_bit_log:
  assumes "x \<noteq> 0"
  obtains n where "ms_bit x = int n" "2 ^ n \<le> unat x" "unat x < 2 ^ Suc n"
  using table_shift [OF assms refl] unfolding ms_bit_def Let_def by blast

lemma lowest_bit:
  assumes "least_bit i n"
  shows "i AND - i = push_bit n 1"
proof -
  let ?j = "drop_bit n i"
  have n: "n < 32"
    using assms by (auto simp: least_bit_def dest: bit_imp_le_length)
  have "take_bit n i = 0"
    using assms by (auto simp: least_bit_def bit_simps intro!: bit_word_eqI)
  then have i: "i = push_bit n ?j"
    by (metis add.right_neutral bits_ident)
  have "odd ?j"
    using assms n by (simp add: least_bit_def even_drop_bit_iff_not_bit)
  then have "- ?j = NOT ?j OR 1"
    by (simp add: minus_eq_not_plus_1 or_one_eq even_not_iff)
  then have "?j AND - ?j = ?j AND 1"
    by (simp add: bit.conj_disj_distrib)
  then have "?j AND - ?j = 1"
    using \<open>odd ?j\<close> by (simp add: and_one_eq odd_iff_mod_2_eq_one)
  moreover have "- i = push_bit n (- ?j)"
    by (subst i) (simp add: push_bit_eq_mult)
  ultimately show ?thesis
    by (metis i push_bit_and)
qed

lemma ls_bit_least:
  assumes "least_bit i n"
  shows "ls_bit i = int n"
proof -
  have n: "n < 32"
    using assms by (auto simp: least_bit_def dest: bit_imp_le_length)
  define x where "x = (push_bit n 1 :: u32)"
  define a :: nat where
    "a = (if x \<le> 0xffff then if x \<le> 0xff then 0 else 8 else if x \<le> 0xffffff then 16 else 24)"
  have u: "unat x = 2 ^ n"
    using n unat_of_nat [of "2 ^ n", where 'a = 32] power_strict_increasing [OF n, of "2 :: nat"]
    by (simp add: x_def push_bit_eq_mult)
  then have "x \<noteq> 0"
    by auto
  then obtain k where "table ! unat (drop_bit a x) + int a = int k" "2 ^ k \<le> unat x" "unat x < 2 ^ Suc k"
    using a_def by (rule table_shift)
  moreover have "k = n" if "2 ^ k \<le> (2 :: nat) ^ n" "(2 :: nat) ^ n < 2 ^ Suc k"
    using that power_increasing_iff [of "2 :: nat" k n] power_strict_increasing_iff [of "2 :: nat" n "Suc k"]
    by simp
  moreover have "ls_bit i = table ! unat (drop_bit a x) + int a"
    unfolding ls_bit_def lowest_bit [OF assms] Let_def a_def x_def ..
  ultimately show ?thesis
    using u by simp
qed

section \<open>Size classes\<close>

text \<open>The least size in a class.\<close>

definition class_min :: "nat \<Rightarrow> nat \<Rightarrow> nat" where
  "class_min fl sl = (if fl = 0 then 4 * sl else (32 + sl) * 2 ^ Suc fl)"

lemma class_min_mono:
  assumes "fl < fl' \<or> fl = fl' \<and> sl \<le> sl'" "sl \<le> 32"
  shows "class_min fl sl \<le> class_min fl' sl'"
proof (cases "fl < fl'")
  case True
  have "class_min fl sl \<le> 32 * 2 ^ Suc (Suc fl)"
    using assms(2) by (auto simp: class_min_def)
  also have "\<dots> \<le> (32 + sl') * 2 ^ Suc fl'"
    using True by (intro mult_le_mono power_increasing) auto
  finally show ?thesis
    using True by (simp add: class_min_def)
next
  case False
  then show ?thesis
    using assms(1) by (simp add: class_min_def)
qed

lemma insert_large:
  assumes "128 \<le> unat r" "ms_bit r = int n" "2 ^ n \<le> unat r" "unat r < 2 ^ Suc n"
  shows "7 \<le> n" "32 \<le> unat r div 2 ^ (n - 5)" "unat r div 2 ^ (n - 5) < 64"
    "MAPPING_INSERT r = (int (n - 6), int (unat r div 2 ^ (n - 5) - 32))"
proof -
  have "(2 :: nat) ^ 7 < 2 ^ Suc n"
    using assms(1,4) by simp
  then show n: "7 \<le> n"
    using power_strict_increasing_iff [of "2 :: nat" 7 "Suc n"] by simp
  then have p: "(2 :: nat) ^ n = 32 * 2 ^ (n - 5)"
    using power_add [of "2 :: nat" 5 "n - 5"] by simp
  show q: "32 \<le> unat r div 2 ^ (n - 5)" "unat r div 2 ^ (n - 5) < 64"
    using assms(3,4) p by (simp_all add: less_eq_div_iff_mult_less_eq div_less_iff_less_mult)
  define d where "d = drop_bit (n - 5) r"
  have d: "unat d = unat r div 2 ^ (n - 5)"
    unfolding d_def by (subst unsigned_drop_bit_eq) (simp add: drop_bit_eq_div take_bit_nat_eq_self [OF unat_u32])
  have "unat (d - 32) = unat d - 32"
    using q d by (simp add: unat_sub_if')
  then have "uint (d - 32) = int (unat d - 32)"
    by (metis uint_nat)
  moreover have "sint (d - 32) = uint (d - 32)" if "uint (d - 32) < 2 ^ 31"
    unfolding sint_uint using that by (intro signed_take_bit_int_eq_self) (simp_all add: order_trans [OF _ uint_ge_0])
  ultimately have "sint (d - 32) = int (unat d - 32)"
    using q d by simp
  moreover have "\<not> r < 128"
    using assms(1) by (simp add: word_less_nat_alt)
  ultimately show "MAPPING_INSERT r = (int (n - 6), int (unat r div 2 ^ (n - 5) - 32))"
    using n assms(2) d
    by (simp add: MAPPING_INSERT_def Let_def SMALL_BLOCK_def MAX_LOG2_SLI_def MAX_SLI_def FLI_OFFSET_def
        nat_diff_distrib d_def of_nat_diff)
qed

lemma class_min_large:
  assumes "7 \<le> n" "32 \<le> q"
  shows "class_min (n - 6) (q - 32) = q * 2 ^ (n - 5)" "class_min (n - 6) (Suc (q - 32)) = Suc q * 2 ^ (n - 5)"
proof -
  have "n - 6 \<noteq> 0" "Suc (n - 6) = n - 5" "32 + (q - 32) = q" "32 + Suc (q - 32) = Suc q"
    using assms by simp_all
  then show "class_min (n - 6) (q - 32) = q * 2 ^ (n - 5)"
    "class_min (n - 6) (Suc (q - 32)) = Suc q * 2 ^ (n - 5)"
    unfolding class_min_def by presburger+
qed

lemma insert_class:
  obtains fl sl where "MAPPING_INSERT r = (int fl, int sl)" "fl \<le> 25" "sl < 32"
    "class_min fl sl \<le> unat r" "unat r < class_min fl (Suc sl)" "unat r < 2 ^ (fl + 7)"
proof (cases "unat r < 128")
  case True
  then have "MAPPING_INSERT r = (int 0, int (unat r div 4))"
    by (simp add: MAPPING_INSERT_def SMALL_BLOCK_def MAX_SLI_def word_less_nat_alt uint_div zdiv_int)
  then show ?thesis
    using True by (intro that [of 0 "unat r div 4"]) (simp_all add: class_min_def)
next
  case False
  then have "r \<noteq> 0"
    by auto
  then obtain n where n: "ms_bit r = int n" "2 ^ n \<le> unat r" "unat r < 2 ^ Suc n"
    by (rule ms_bit_log)
  note L = insert_large [OF _ n]
  define q where "q = unat r div 2 ^ (n - 5)"
  have "(2 :: nat) ^ n < 2 ^ 32"
    using n(2) unat_u32 [of r] by simp
  then have "n < 32"
    using power_strict_increasing_iff [of "2 :: nat" n 32] by simp
  have min: "class_min (n - 6) (q - 32) = q * 2 ^ (n - 5)" "class_min (n - 6) (Suc (q - 32)) = Suc q * 2 ^ (n - 5)"
    using class_min_large [OF L(1,2)] False unfolding q_def by simp_all
  show ?thesis
  proof (rule that [of "n - 6" "q - 32"])
    show "class_min (n - 6) (q - 32) \<le> unat r" "unat r < class_min (n - 6) (Suc (q - 32))"
      using dividend_less_div_times [of "2 ^ (n - 5)" "unat r"] div_times_less_eq_dividend [of "unat r" "2 ^ (n - 5)"]
      unfolding min by (simp_all add: q_def)
  qed (use False L n \<open>n < 32\<close> in \<open>auto simp: q_def\<close>)
qed

lemma search_large:
  assumes "128 \<le> unat r" "unat r < 2 ^ 31"
  obtains r' r1 where "MAPPING_SEARCH r = (r', MAPPING_INSERT r1)" "128 \<le> unat r1"
    "\<And>fl sl. MAPPING_INSERT r1 = (int fl, int sl) \<Longrightarrow> unat r' = class_min fl sl"
    "unat r \<le> unat r'" "unat r' \<le> 2 * unat r"
proof -
  have "r \<noteq> 0"
    using assms(1) by auto
  then obtain n where n: "ms_bit r = int n" "2 ^ n \<le> unat r" "unat r < 2 ^ Suc n"
    by (rule ms_bit_log)
  have "(2 :: nat) ^ n < 2 ^ 31"
    using n(2) assms(2) by simp
  then have n31: "n < 31" "7 \<le> n"
    using power_strict_increasing_iff [of "2 :: nat" n 31] insert_large(1) [OF assms(1) n] by simp_all
  define j r1 where "j = n - 5" and "r1 = r + mask j"
  have p: "(2 :: nat) ^ n = 32 * 2 ^ j" "(2 :: nat) ^ j \<le> 2 ^ 25"
    using power_add [of "2 :: nat" 5 j] n31 power_increasing [of j 25 "2 :: nat"] by (simp_all add: j_def)
  have "unat (mask j :: u32) = 2 ^ j - 1"
    using unat_of_nat [of "2 ^ j - 1", where 'a = 32] p(2) by (simp add: mask_eq_exp_minus_1 of_nat_diff)
  then have r1: "unat r1 = unat r + (2 ^ j - 1)"
    using assms(2) p(2) unfolding r1_def by (simp add: unat_word_ariths)
  have r1_128: "128 \<le> unat r1"
    using r1 assms(1) by linarith
  have "\<not> r < 128" "\<not> r1 < 128" "nat (ms_bit r - 5) = j" "push_bit j 1 - 1 = (mask j :: u32)"
    using assms(1) r1_128 n(1) n31 by (simp_all add: word_less_nat_alt j_def push_bit_eq_mult mask_eq_exp_minus_1)
  then have S: "MAPPING_SEARCH r = (r1 AND NOT (mask j), MAPPING_INSERT r1)"
    by (simp add: MAPPING_SEARCH_def MAPPING_INSERT_def Let_def SMALL_BLOCK_def MAX_LOG2_SLI_def flip: r1_def)
  have c: "unat (r1 AND NOT (mask j)) = class_min fl sl" if "MAPPING_INSERT r1 = (int fl, int sl)" for fl sl
  proof -
    have "r1 \<noteq> 0"
      using r1_128 by auto
    then obtain k where k: "ms_bit r1 = int k" "2 ^ k \<le> unat r1" "unat r1 < 2 ^ Suc k"
      by (rule ms_bit_log)
    note L = insert_large [OF r1_128 k]
    have "(2 :: nat) ^ n < 2 ^ Suc k" "(2 :: nat) ^ k < 2 ^ Suc (Suc n)"
      using k(2,3) n r1 p by simp_all
    then have "k = n \<or> k = Suc n"
      using power_strict_increasing_iff [of "2 :: nat" n "Suc k"]
        power_strict_increasing_iff [of "2 :: nat" k "Suc (Suc n)"] by auto
    moreover have "fl = k - 6" "sl = unat r1 div 2 ^ (k - 5) - 32"
      using that L(4) by (simp_all only: prod.inject of_nat_eq_iff)
    then have "class_min fl sl = unat r1 div 2 ^ (k - 5) * 2 ^ (k - 5)"
      using class_min_large(1) [OF L(1,2)] by simp
    moreover have "unat r1 div 2 ^ j = 64" "unat r1 div 2 ^ Suc j = 32" if "k = Suc n"
      using k(2) n(3) r1 p(1) that by (auto intro!: div_nat_eqI)
    moreover have "n - 5 = j" "Suc n - 5 = Suc j"
      using n31 by (simp_all add: j_def)
    ultimately show ?thesis
      by (auto simp: unat_and_not_mask)
  qed
  have "unat r1 div 2 ^ j * 2 ^ j = unat r1 - unat r1 mod 2 ^ j" "unat r1 mod 2 ^ j < 2 ^ j"
    by (simp_all add: minus_mod_eq_div_mult)
  then have "unat r \<le> unat (r1 AND NOT (mask j))" "unat (r1 AND NOT (mask j)) \<le> 2 * unat r"
    unfolding unat_and_not_mask using r1 p(1) n(2) by linarith+
  then show ?thesis
    using that [OF S r1_128] c by blast
qed

lemma search_class:
  assumes "4 dvd unat r" "unat r < 2 ^ 31"
  obtains r' fl sl where "MAPPING_SEARCH r = (r', int fl, int sl)" "fl \<le> 25" "sl < 32"
    "unat r' = class_min fl sl" "unat r \<le> unat r'" "unat r' \<le> 2 * unat r"
proof (cases "unat r < 128")
  case True
  then have "MAPPING_SEARCH r = (r, int 0, int (unat r div 4))"
    by (simp add: MAPPING_SEARCH_def SMALL_BLOCK_def MAX_SLI_def word_less_nat_alt uint_div zdiv_int)
  then show ?thesis
    using True assms(1) by (intro that [of r 0 "unat r div 4"]) (simp_all add: class_min_def)
next
  case False
  then obtain r' r1 where r': "MAPPING_SEARCH r = (r', MAPPING_INSERT r1)" "unat r \<le> unat r'" "unat r' \<le> 2 * unat r"
    "\<And>fl sl. MAPPING_INSERT r1 = (int fl, int sl) \<Longrightarrow> unat r' = class_min fl sl"
    using search_large [OF _ assms(2)] by (metis linorder_not_less)
  obtain fl sl where "MAPPING_INSERT r1 = (int fl, int sl)" "fl \<le> 25" "sl < 32"
    by (rule insert_class)
  then show ?thesis
    using that r' by simp
qed

lemma class_size_bounds:
  assumes "MAPPING_INSERT z = (int f, int s)"
  shows "class_min f s \<le> unat z" "unat z < class_min f (Suc s)" "unat z < 2 ^ (f + 7)" "s < 32"
  using insert_class [of z] assms by auto

text \<open>Good fit: every block in the class found for a request, or in a later class, is large enough.\<close>

lemma good_fit:
  assumes "4 dvd unat r" "unat r < 2 ^ 31" "MAPPING_SEARCH r = (r', fl, sl)" "MAPPING_INSERT z = (fl', sl')"
    and "fl < fl' \<or> fl = fl' \<and> sl \<le> sl'"
  shows "unat r \<le> unat r'" "unat r' \<le> unat z"
proof -
  obtain r2 f s where S: "MAPPING_SEARCH r = (r2, int f, int s)" "s < 32" "unat r2 = class_min f s" "unat r \<le> unat r2"
    by (rule search_class [OF assms(1,2)])
  obtain f' s' where I: "MAPPING_INSERT z = (int f', int s')" "class_min f' s' \<le> unat z"
    by (rule insert_class)
  show "unat r \<le> unat r'" "unat r' \<le> unat z"
    using S I assms(3-5) class_min_mono [of f f' s s'] by auto
qed

section \<open>Finding a block\<close>

text \<open>The bitmaps tell which lists are empty, and the head of every list has a size of its class.\<close>

definition index_ok :: "u32 \<Rightarrow> mem \<Rightarrow> bool" where
  "index_ok t m \<longleftrightarrow>
     (\<forall>fl. bit (m (fl_at t)) fl \<longleftrightarrow> fl < REAL_FLI \<and> m (sl_at t (int fl)) \<noteq> 0) \<and>
     (\<forall>fl < REAL_FLI. \<forall>sl < MAX_SLI. bit (m (sl_at t (int fl))) sl \<longleftrightarrow> m (matrix_at t (int fl) (int sl)) \<noteq> 0)"

lemma ls_bit_0: "ls_bit 0 = -1"
  by (simp add: ls_bit_def table_def)

lemma bit_from: "bit (w AND push_bit k (-1)) n \<longleftrightarrow> bit w n \<and> k \<le> n"
  "bit (w AND NOT (mask k)) n \<longleftrightarrow> bit w n \<and> k \<le> n" for w :: u32
  by (auto simp: bit_simps dest: bit_imp_le_length)

lemma find_suitable:
  assumes ok: "index_ok t m" and fl: "fl < REAL_FLI" "sl < MAX_SLI"
    and F: "FIND_SUITABLE_BLOCK t (int fl) (int sl) m = (b, fl', sl')"
  shows "b \<noteq> 0 \<Longrightarrow> \<exists>f s. fl' = int f \<and> sl' = int s \<and> f < REAL_FLI \<and> s < MAX_SLI \<and>
      (fl < f \<or> fl = f \<and> sl \<le> s) \<and> b = m (matrix_at t (int f) (int s))"
    and "b = 0 \<Longrightarrow> f < REAL_FLI \<Longrightarrow> s < MAX_SLI \<Longrightarrow> fl < f \<or> fl = f \<and> sl \<le> s \<Longrightarrow>
      m (matrix_at t (int f) (int s)) = 0"
proof -
  let ?w = "m (sl_at t (int fl)) AND push_bit sl (-1)"
  let ?v = "m (fl_at t) AND push_bit (fl + 1) (-1)"
  have bits: "\<And>f s. f < REAL_FLI \<Longrightarrow> s < MAX_SLI \<Longrightarrow>
      bit (m (sl_at t (int f))) s \<longleftrightarrow> m (matrix_at t (int f) (int s)) \<noteq> 0"
    and fls: "\<And>f. bit (m (fl_at t)) f \<longleftrightarrow> f < REAL_FLI \<and> m (sl_at t (int f)) \<noteq> 0"
    using ok by (auto simp: index_ok_def)
  have nats: "nat (int sl) = sl" "nat (int fl + 1) = fl + 1"
    by auto
  have F': "(b, fl', sl') =
      (if ?w \<noteq> 0 then (m (matrix_at t (int fl) (ls_bit ?w)), int fl, ls_bit ?w)
       else if ls_bit ?v > 0 then
         (m (matrix_at t (ls_bit ?v) (ls_bit (m (sl_at t (ls_bit ?v))))), ls_bit ?v, ls_bit (m (sl_at t (ls_bit ?v))))
       else (0, ls_bit ?v, int sl))"
    using F unfolding FIND_SUITABLE_BLOCK_def Let_def nats by (rule sym)
  have least: "\<exists>n. ls_bit x = int n \<and> bit x n \<and> n < MAX_SLI" if "x \<noteq> 0" for x
    using least_bit_exists [OF that] ls_bit_least by (auto simp: least_bit_def MAX_SLI_def)
  consider (row) n where "?w \<noteq> 0" "ls_bit ?w = int n" "bit ?w n" "n < MAX_SLI"
    | (later) f s where "?w = 0" "ls_bit ?v = int f" "bit ?v f" "ls_bit (m (sl_at t (int f))) = int s"
        "bit (m (sl_at t (int f))) s" "s < MAX_SLI"
    | (none) "?w = 0" "?v = 0"
  proof (cases "?w = 0"; cases "?v = 0")
    assume *: "?w = 0" "?v \<noteq> 0"
    then obtain f where f: "ls_bit ?v = int f" "bit ?v f"
      using least by blast
    then have "m (sl_at t (int f)) \<noteq> 0"
      using fls bit_from by blast
    then show ?thesis
      using least later [OF *(1) f] by blast
  qed (use least row none in blast)+
  then have "(b \<noteq> 0 \<longrightarrow> (\<exists>f s. fl' = int f \<and> sl' = int s \<and> f < REAL_FLI \<and> s < MAX_SLI \<and>
      (fl < f \<or> fl = f \<and> sl \<le> s) \<and> b = m (matrix_at t (int f) (int s)))) \<and>
    (b = 0 \<longrightarrow> ?w = 0 \<and> ?v = 0)"
  proof cases
    case row
    then show ?thesis
      using F' fl bits by (auto simp: bit_from)
  next
    case later
    then have "f < REAL_FLI" "fl < f"
      using fls by (auto simp: bit_from)
    then show ?thesis
      using F' later bits by auto
  next
    case none
    then show ?thesis
      using F' by (simp add: ls_bit_0)
  qed
  note R = this
  show "b \<noteq> 0 \<Longrightarrow> \<exists>f s. fl' = int f \<and> sl' = int s \<and> f < REAL_FLI \<and> s < MAX_SLI \<and>
      (fl < f \<or> fl = f \<and> sl \<le> s) \<and> b = m (matrix_at t (int f) (int s))"
    using R by blast
  assume "b = 0" and fs: "f < REAL_FLI" "s < MAX_SLI" "fl < f \<or> fl = f \<and> sl \<le> s"
  then have "\<not> bit ?w s" "\<not> bit ?v f"
    using R by auto
  then have "\<not> bit (m (sl_at t (int f))) s"
  proof (cases "fl < f")
    case True
    then have "m (sl_at t (int f)) = 0"
      using \<open>\<not> bit ?v f\<close> fs(1) unfolding bit_from fls by linarith
    then show ?thesis
      by simp
  next
    case False
    then show ?thesis
      using \<open>\<not> bit ?w s\<close> fs(3) unfolding bit_from by blast
  qed
  then show "m (matrix_at t (int f) (int s)) = 0"
    using bits [OF fs(1,2)] by simp
qed

section \<open>Allocation\<close>

text \<open>What \<open>malloc_ex\<close> needs of the heads of the lists: their size is of the class of the list, their
  header lies outside the control structure and does not overlap the one of the next free block.\<close>

definition head_ok :: "u32 \<Rightarrow> mem \<Rightarrow> nat \<Rightarrow> nat \<Rightarrow> bool" where
  "head_ok t m fl sl \<longleftrightarrow>
     (let b = m (matrix_at t (int fl) (int sl))
      in b \<noteq> 0 \<longrightarrow> MAPPING_INSERT (m (size_at b) AND BLOCK_SIZE) = (int fl, int sl) \<and>
           unat sizeof_tlsf \<le> unat (size_at b - t) \<and> unat sizeof_tlsf \<le> unat (next_at b - t) \<and>
           m (next_at b) \<noteq> b - 4 \<and> buffer_of b \<noteq> 0)"

definition tlsf_ok :: "u32 \<Rightarrow> mem \<Rightarrow> bool" where
  "tlsf_ok t m \<longleftrightarrow> index_ok t m \<and> (\<forall>fl < REAL_FLI. \<forall>sl < MAX_SLI. head_ok t m fl sl)"

lemma control_words:
  assumes "fl < REAL_FLI" "sl < MAX_SLI" "unat sizeof_tlsf \<le> unat (x - t)"
  shows "fl_at t \<noteq> x" "sl_at t (int fl) \<noteq> x" "matrix_at t (int fl) (int sl) \<noteq> x"
proof -
  have small: "x \<noteq> t + of_nat n" if "n < 3180" for n
    using unat_of_nat [of n, where 'a = 32] that assms(3) by (auto simp: sizeof_tlsf_def)
  have eqs: "fl_at t = t + of_nat 8" "sl_at t (int fl) = t + of_nat (12 + 4 * fl)"
    "matrix_at t (int fl) (int sl) = t + of_nat (108 + 4 * (32 * fl + sl))"
    by (simp_all add: sl_at_def matrix_at_def)
  have "12 + 4 * fl < 3180" "108 + 4 * (32 * fl + sl) < 3180"
    using assms(1,2) by (auto simp: REAL_FLI_def MAX_SLI_def)
  note less = this
  show "fl_at t \<noteq> x"
    unfolding eqs by (rule small [symmetric]) simp
  show "sl_at t (int fl) \<noteq> x" "matrix_at t (int fl) (int sl) \<noteq> x"
    unfolding eqs by (rule small [symmetric], rule less)+
qed

lemma clear_bit_other: "nr < 32 \<Longrightarrow> addr \<noteq> x \<Longrightarrow> tlsf_clear_bit (int nr) addr m x = m x"
  by (simp add: tlsf_clear_bit_def Let_def)

lemma extract_hdr_size:
  assumes "fl < REAL_FLI" "sl < MAX_SLI" "unat sizeof_tlsf \<le> unat (size_at b - t)" "m (next_at b) \<noteq> b - 4"
  shows "EXTRACT_BLOCK_HDR b t (int fl) (int sl) m (size_at b) = m (size_at b)"
proof -
  note c = control_words [OF assms(1-3)]
  have "prev_at (m (next_at b)) \<noteq> size_at b"
    using assms(4) by (auto simp: algebra_simps)
  moreover have "fl < 32" "sl < 32"
    using assms(1,2) by (simp_all add: REAL_FLI_def MAX_SLI_def)
  ultimately show ?thesis
    using c by (simp add: EXTRACT_BLOCK_HDR_def Let_def clear_bit_other)
qed

text \<open>The size \<open>malloc_ex\<close> looks for. Requests below 256 megabytes neither wrap around nor leave the
  index.\<close>

definition request_size :: "u32 \<Rightarrow> u32" where
  "request_size sz = (if sz < MIN_BLOCK_SIZE then MIN_BLOCK_SIZE else ROUNDUP_SIZE sz)"

lemma request_size_bounds:
  assumes "unat sz < 2 ^ 28"
  shows "unat sz \<le> unat (request_size sz)" "unat (request_size sz) \<le> 2 ^ 28" "4 dvd unat (request_size sz)"
proof -
  have mask: "MEM_ALIGN = mask 3"
    by (simp add: MEM_ALIGN_def mask_eq_exp_minus_1)
  have "unat (ROUNDUP_SIZE sz) = unat (sz + MEM_ALIGN) div 2 ^ 3 * 2 ^ 3"
    unfolding ROUNDUP_SIZE_def mask by (rule unat_and_not_mask)
  moreover have "unat (sz + MEM_ALIGN) = unat sz + 7"
    using assms by (simp add: MEM_ALIGN_def unat_word_ariths)
  ultimately have R: "unat (ROUNDUP_SIZE sz) = (unat sz + 7) div 8 * 8"
    by simp
  have "(unat sz + 7) div 8 * 8 = unat sz + 7 - (unat sz + 7) mod 8" "(unat sz + 7) mod 8 < 8"
    by (simp_all add: minus_mod_eq_div_mult)
  moreover have "(unat sz + 7) div 8 \<le> 2 ^ 25"
    using assms by simp
  ultimately show "unat sz \<le> unat (request_size sz)" "unat (request_size sz) \<le> 2 ^ 28"
    unfolding request_size_def MIN_BLOCK_SIZE_def using R by (auto simp: word_less_nat_alt)
  have "4 dvd unat (ROUNDUP_SIZE sz)"
    unfolding R by presburger
  then show "4 dvd unat (request_size sz)"
    unfolding request_size_def MIN_BLOCK_SIZE_def by simp
qed

lemma class_min_dvd: "4 dvd class_min fl sl"
proof (cases fl)
  case (Suc k)
  then show ?thesis
    by (simp add: class_min_def mult.assoc [symmetric] dvd_mult2)
qed (simp add: class_min_def)

lemma search_request:
  assumes "unat sz < 2 ^ 28"
  obtains r fl sl where "MAPPING_SEARCH (request_size sz) = (r, int fl, int sl)" "fl < REAL_FLI" "sl < MAX_SLI"
    "unat sz \<le> unat r" "unat r = class_min fl sl"
proof -
  note B = request_size_bounds [OF assms]
  have "unat (request_size sz) < 2 ^ 31"
    using B(2) by simp
  then obtain r fl sl where r: "MAPPING_SEARCH (request_size sz) = (r, int fl, int sl)" "sl < 32"
    "unat r = class_min fl sl" "unat (request_size sz) \<le> unat r" "unat r \<le> 2 * unat (request_size sz)"
    by (rule search_class [OF B(3)]) blast
  have "fl < 24"
  proof (rule ccontr)
    assume "\<not> fl < 24"
    then have "class_min 24 0 \<le> class_min fl sl"
      by (intro class_min_mono) auto
    then show False
      using r(3,5) B(2) by (simp add: class_min_def)
  qed
  then show ?thesis
    using that r B(1) by (simp add: REAL_FLI_def MAX_SLI_def)
qed

lemma malloc_ptr:
  assumes "MAPPING_SEARCH (request_size sz) = (r, fl, sl)" "FIND_SUITABLE_BLOCK t fl sl m = (b, fl', sl')"
  shows "fst (malloc_ex sz t m) = (if b = 0 then 0 else buffer_of b)" "b = 0 \<Longrightarrow> snd (malloc_ex sz t m) = m"
  using assms by (auto simp: malloc_ex_def Let_def split: prod.splits simp flip: request_size_def)

lemma malloc_found:
  assumes "MAPPING_SEARCH (request_size sz) = (r, fl0, sl0)" "FIND_SUITABLE_BLOCK t fl0 sl0 m = (b, fl, sl)" "b \<noteq> 0"
    and "m1 = EXTRACT_BLOCK_HDR b t fl sl m" "z = m1 (size_at b) AND BLOCK_SIZE" "z + 8 \<noteq> 0"
  shows "z - r \<ge> sizeof_bhdr \<Longrightarrow> \<exists>x. snd (malloc_ex sz t m) (size_at b) = r OR (x AND PREV_STATE)"
    "\<not> z - r \<ge> sizeof_bhdr \<Longrightarrow> snd (malloc_ex sz t m) (size_at b) = m1 (size_at b) AND NOT FREE_BLOCK"
proof -
  have "size_at (buffer_of b + z) \<noteq> size_at b"
    using assms(6) by (simp add: add.commute add.left_commute)
  then show "z - r \<ge> sizeof_bhdr \<Longrightarrow> \<exists>x. snd (malloc_ex sz t m) (size_at b) = r OR (x AND PREV_STATE)"
    "\<not> z - r \<ge> sizeof_bhdr \<Longrightarrow> snd (malloc_ex sz t m) (size_at b) = m1 (size_at b) AND NOT FREE_BLOCK"
    using assms(1-5)
    by (auto simp: malloc_ex_def GET_NEXT_BLOCK_def Let_def split: prod.splits simp flip: request_size_def)
qed

lemma block_size_mask: "BLOCK_SIZE = NOT (mask 2)"
  by (simp add: BLOCK_SIZE_def PTR_MASK_def mask_eq_exp_minus_1)

lemma block_size_dvd: "4 dvd unat r \<Longrightarrow> r AND BLOCK_SIZE = r" for r :: u32
  using unat_and_not_mask [of r 2] unfolding block_size_mask word_unat_eq_iff by (metis dvd_div_mult_self num_double numeral_times_numeral power2_eq_square)

lemma size_flags:
  assumes "4 dvd unat r"
  shows "(r OR (x AND PREV_STATE)) AND BLOCK_SIZE = r" "(r OR (x AND PREV_STATE)) AND FREE_BLOCK = 0"
    "(w AND NOT FREE_BLOCK) AND BLOCK_SIZE = w AND BLOCK_SIZE" "(w AND NOT FREE_BLOCK) AND FREE_BLOCK = 0"
proof -
  have low: "\<not> bit r n" if "n < 2" for n
  proof
    assume "bit r n"
    then have "bit (r AND NOT (mask 2)) n"
      using block_size_dvd [OF assms] unfolding block_size_mask by simp
    then show False
      using that by (auto simp: bit_simps)
  qed
  have prev: "PREV_STATE = push_bit 1 1"
    by (simp add: PREV_STATE_def)
  show "(w AND NOT FREE_BLOCK) AND BLOCK_SIZE = w AND BLOCK_SIZE" "(w AND NOT FREE_BLOCK) AND FREE_BLOCK = 0"
    unfolding block_size_mask FREE_BLOCK_def by (auto intro!: bit_word_eqI simp: bit_simps)
  show "(r OR (x AND PREV_STATE)) AND BLOCK_SIZE = r" "(r OR (x AND PREV_STATE)) AND FREE_BLOCK = 0"
    unfolding block_size_mask FREE_BLOCK_def prev
    by (auto intro!: bit_word_eqI simp: bit_simps low)
qed

lemma malloc_fits:
  assumes ok: "tlsf_ok t m" and sz: "unat sz < 2 ^ 28" and M: "malloc_ex sz t m = (p, m')" and p: "p \<noteq> 0"
  shows "unat sz \<le> unat (m' (p - 4) AND BLOCK_SIZE)" "m' (p - 4) AND FREE_BLOCK = 0"
    "\<exists>fl < REAL_FLI. \<exists>sl < MAX_SLI. p = buffer_of (m (matrix_at t (int fl) (int sl)))"
proof -
  obtain r fl0 sl0 where S: "MAPPING_SEARCH (request_size sz) = (r, int fl0, int sl0)" "fl0 < REAL_FLI" "sl0 < MAX_SLI"
    and r: "unat sz \<le> unat r" "unat r = class_min fl0 sl0"
    by (rule search_request [OF sz])
  obtain b fl' sl' where F: "FIND_SUITABLE_BLOCK t (int fl0) (int sl0) m = (b, fl', sl')"
    by (metis prod_cases3)
  note P = malloc_ptr [OF S(1) F, unfolded M]
  have "b \<noteq> 0"
    using P p by auto
  then obtain f s where f: "fl' = int f" "sl' = int s" "f < REAL_FLI" "s < MAX_SLI"
    "fl0 < f \<or> fl0 = f \<and> sl0 \<le> s" "b = m (matrix_at t (int f) (int s))"
    using find_suitable(1) [OF _ S(2,3) F] ok by (auto simp: tlsf_ok_def)
  have H: "MAPPING_INSERT (m (size_at b) AND BLOCK_SIZE) = (int f, int s)"
    "unat sizeof_tlsf \<le> unat (size_at b - t)" "m (next_at b) \<noteq> b - 4"
    using ok f(3,4) \<open>b \<noteq> 0\<close> by (auto simp: tlsf_ok_def head_ok_def f(6) Let_def)
  define m1 z where "m1 = EXTRACT_BLOCK_HDR b t (int f) (int s) m" and "z = m1 (size_at b) AND BLOCK_SIZE"
  have z: "z = m (size_at b) AND BLOCK_SIZE"
    unfolding z_def m1_def extract_hdr_size [of f s b t m, OF f(3,4) H(2,3)] ..
  have rz: "unat r \<le> unat z" "unat z < 2 ^ 30"
    using class_size_bounds [OF H(1)] class_min_mono [OF f(5)] f(3) S(3) r(2) power_increasing [of "f + 7" 30 "2 :: nat"]
    by (simp_all add: z REAL_FLI_def MAX_SLI_def)
  have "unat (z + 8) = unat z + 8"
    using rz(2) by (simp add: unat_word_ariths)
  then have "z + 8 \<noteq> 0"
    by auto
  note D = malloc_found [OF S(1) F [unfolded f(1,2)] \<open>b \<noteq> 0\<close> m1_def z_def this]
  have p4: "p = buffer_of b" "p - 4 = size_at b"
    using P \<open>b \<noteq> 0\<close> by simp_all
  have "4 dvd unat r"
    unfolding r(2) by (rule class_min_dvd)
  note fl = size_flags [OF this]
  show "\<exists>fl < REAL_FLI. \<exists>sl < MAX_SLI. p = buffer_of (m (matrix_at t (int fl) (int sl)))"
    using p4(1) f(3,4,6) by blast
  show "unat sz \<le> unat (m' (p - 4) AND BLOCK_SIZE)" "m' (p - 4) AND FREE_BLOCK = 0"
    using D M fl r(1) rz(1) unfolding p4(2) by (cases "z - r \<ge> sizeof_bhdr"; fastforce simp: z_def)+
qed

lemma malloc_null:
  assumes ok: "tlsf_ok t m" and sz: "unat sz < 2 ^ 28" and M: "malloc_ex sz t m = (0, m')"
    and S: "MAPPING_SEARCH (request_size sz) = (r, fl, sl)"
    and f: "f < REAL_FLI" "s < MAX_SLI" and b: "b = m (matrix_at t (int f) (int s))" "b \<noteq> 0"
  shows "m' = m" "unat (m (size_at b) AND BLOCK_SIZE) < unat r"
proof -
  obtain r0 fl0 sl0 where S0: "MAPPING_SEARCH (request_size sz) = (r0, int fl0, int sl0)" "fl0 < REAL_FLI" "sl0 < MAX_SLI"
    and r: "unat r0 = class_min fl0 sl0"
    by (rule search_request [OF sz])
  obtain b' fl' sl' where F: "FIND_SUITABLE_BLOCK t (int fl0) (int sl0) m = (b', fl', sl')"
    by (metis prod_cases3)
  note P = malloc_ptr [OF S0(1) F, unfolded M]
  have "b' = 0"
  proof (rule ccontr)
    assume b': "b' \<noteq> 0"
    then have "buffer_of b' \<noteq> 0"
      using find_suitable(1) [OF _ S0(2,3) F] ok by (auto simp: tlsf_ok_def head_ok_def Let_def)
    then show False
      using P(1) b' by simp
  qed
  then show "m' = m"
    using P(2) by simp
  have "\<not> (fl0 < f \<or> fl0 = f \<and> sl0 \<le> s)"
    using find_suitable(2) [OF _ S0(2,3) F \<open>b' = 0\<close> f] ok b by (auto simp: tlsf_ok_def)
  then have "class_min f (Suc s) \<le> class_min fl0 sl0"
    using f(2) by (intro class_min_mono) (auto simp: MAX_SLI_def)
  moreover have "MAPPING_INSERT (m (size_at b) AND BLOCK_SIZE) = (int f, int s)"
    using ok f b by (auto simp: tlsf_ok_def head_ok_def Let_def)
  ultimately show "unat (m (size_at b) AND BLOCK_SIZE) < unat r"
    using class_size_bounds(2) r S S0(1) by fastforce
qed

end
