(* ===== verification/Tlsf_Init.thy ===== *)
theory Tlsf_Init
  imports Tlsf_Fit
begin

text \<open>
  A pool that \<open>init_memory_pool\<close> of \<open>libc/tlsf.c\<close> has set up satisfies the invariant \<open>tlsf_ok\<close> of the
  allocator: its index holds one free block with all memory that the control structure, the record of the
  area and the two sentinels leave.
\<close>

section \<open>Words and bytes\<close>

lemma unat_low_two: "unat (w AND 3) = unat w mod 4" for w :: u32
proof -
  have "w AND 3 = take_bit 2 w"
    by (simp add: take_bit_eq_mask mask_eq_exp_minus_1)
  then show ?thesis
    by (simp add: take_bit_eq_mod unat_mod)
qed

lemma byte_of_word:
  assumes "4 dvd unat a" "i < 4"
  shows "get_byte m (a + of_nat i) = ucast (drop_bit (8 * i) (m a))"
proof -
  obtain k where k: "unat a = 4 * k"
    using assms(1) by (elim dvdE)
  then have "unat (a + of_nat i) = 4 * k + i"
    using assms(2) unat_u32 [of a] unat_of_nat [of i, where 'a = 32] by (simp add: unat_word_ariths)
  then have "unat ((a + of_nat i) AND 3) = i" "unat ((a + of_nat i) AND NOT (mask 2)) = unat a"
    using assms(2) k by (simp_all add: unat_low_two unat_and_not_mask)
  moreover have "NOT 3 = NOT (mask 2 :: u32)"
    by (simp add: mask_eq_exp_minus_1)
  ultimately show ?thesis
    unfolding get_byte_def by (metis word_unat_eq_iff)
qed

lemma word_eq_bytes:
  assumes "4 dvd unat a" "\<And>i. i < 4 \<Longrightarrow> get_byte m (a + of_nat i) = get_byte m' (a + of_nat i)"
  shows "m a = m' a"
proof (rule bit_word_eqI)
  fix n assume "n < LENGTH(32)"
  then have n: "n < 32" "n div 8 < 4"
    by auto
  have "bit (ucast (drop_bit (8 * (n div 8)) w) :: u8) (n mod 8) = bit w n" for w :: u32
    using n(1) by (simp add: bit_simps)
  then show "bit (m a) n = bit (m' a) n"
    using assms(2) [OF n(2)] byte_of_word [OF assms(1) n(2)] by metis
qed

lemma memset_zero_word:
  assumes "4 dvd unat t" "k + 4 \<le> unat n" "4 dvd k"
  shows "memset t 0 n m (t + of_nat k) = 0"
proof -
  let ?a = "t + of_nat k"
  have n: "unat n < 2 ^ 32"
    by (rule unat_u32)
  have "4 dvd unat ?a"
    using assms(1,3) by (simp add: unat_word_ariths unat_of_nat dvd_mod_iff mod_add_left_eq)
  moreover have "get_byte (memset t 0 n m) (?a + of_nat i) = get_byte (\<lambda>_. 0) (?a + of_nat i)" if "i < 4" for i
  proof -
    have "?a + of_nat i - t = of_nat (k + i)"
      by simp
    then have "unat (?a + of_nat i - t) = k + i"
      using unat_of_nat [of "k + i", where 'a = 32] assms(2) n that by simp
    moreover have "get_byte (\<lambda>_. 0) x = 0" for x
      by (simp add: get_byte_def)
    ultimately show ?thesis
      using assms(2) that unfolding memset_bytes by simp
  qed
  ultimately show ?thesis
    by (rule word_eq_bytes)
qed

section \<open>The index\<close>

text \<open>The words of the index are distinct words of the control structure.\<close>

lemma word_offset_eq: "i < 2 ^ 32 \<Longrightarrow> j < 2 ^ 32 \<Longrightarrow> t + of_nat i = t + of_nat j \<longleftrightarrow> i = j" for t :: u32
proof -
  assume "i < 2 ^ 32" "j < 2 ^ 32"
  then have "unat (of_nat i :: u32) = i" "unat (of_nat j :: u32) = j"
    by (simp_all add: unat_of_nat)
  then show ?thesis
    by (metis add_left_cancel)
qed

lemma index_offsets:
  "fl_at t = t + of_nat 8" "sl_at t (int fl) = t + of_nat (12 + 4 * fl)"
  "matrix_at t (int fl) (int sl) = t + of_nat (108 + 4 * (32 * fl + sl))"
  by (simp_all add: sl_at_def matrix_at_def)

lemma index_distinct:
  assumes "fl < REAL_FLI" "sl < MAX_SLI" "f < REAL_FLI" "s < MAX_SLI"
  shows "sl_at t (int fl) = sl_at t (int f) \<longleftrightarrow> fl = f" "sl_at t (int fl) \<noteq> fl_at t" "fl_at t \<noteq> sl_at t (int fl)"
    "matrix_at t (int fl) (int sl) = matrix_at t (int f) (int s) \<longleftrightarrow> fl = f \<and> sl = s"
    "matrix_at t (int fl) (int sl) \<noteq> sl_at t (int f)" "sl_at t (int f) \<noteq> matrix_at t (int fl) (int sl)"
    "matrix_at t (int fl) (int sl) \<noteq> fl_at t" "fl_at t \<noteq> matrix_at t (int fl) (int sl)"
proof -
  have "108 + 4 * (32 * fl + sl) = 108 + 4 * (32 * f + s) \<longleftrightarrow> fl = f \<and> sl = s"
  proof -
    have "(32 * a + b) div 32 = a" "(32 * a + b) mod 32 = b" if "b < MAX_SLI" for a b :: nat
      using that by (simp_all add: MAX_SLI_def)
    then have "32 * fl + sl = 32 * f + s \<longleftrightarrow> fl = f \<and> sl = s"
      using assms(2,4) by metis
    then show ?thesis
      by (simp only: add_left_cancel mult_cancel1) simp
  qed
  then show "matrix_at t (int fl) (int sl) = matrix_at t (int f) (int s) \<longleftrightarrow> fl = f \<and> sl = s"
    unfolding index_offsets using assms(1-4)
    by (subst word_offset_eq) (simp_all only: REAL_FLI_def MAX_SLI_def, simp_all)
qed (use assms in \<open>unfold index_offsets, subst word_offset_eq; auto simp: REAL_FLI_def MAX_SLI_def\<close>)+

text \<open>No list has a block.\<close>

definition index_empty :: "u32 \<Rightarrow> mem \<Rightarrow> bool" where
  "index_empty t m \<longleftrightarrow> m (fl_at t) = 0 \<and> (\<forall>fl < REAL_FLI. m (sl_at t (int fl)) = 0) \<and>
     (\<forall>fl < REAL_FLI. \<forall>sl < MAX_SLI. m (matrix_at t (int fl) (int sl)) = 0)"

lemma index_not_low:
  assumes "fl < REAL_FLI" "sl < MAX_SLI" "i < 8"
  shows "fl_at t \<noteq> t + of_nat i" "sl_at t (int fl) \<noteq> t + of_nat i" "matrix_at t (int fl) (int sl) \<noteq> t + of_nat i"
  using assms unfolding index_offsets
  by (subst word_offset_eq; auto simp: REAL_FLI_def MAX_SLI_def)+

lemma index_empty_upd:
  assumes "index_empty t m" "x = t \<or> x = t + 4 \<or> unat sizeof_tlsf \<le> unat (x - t)"
  shows "index_empty t (m(x := v))"
proof -
  have "fl_at t \<noteq> x \<and> sl_at t (int fl) \<noteq> x \<and> matrix_at t (int fl) (int sl) \<noteq> x"
    if "fl < REAL_FLI" "sl < MAX_SLI" for fl sl
    using assms(2) index_not_low [OF that, of 0 t] index_not_low [OF that, of 4 t] control_words [OF that, of x t]
    by auto
  moreover have "0 < REAL_FLI" "0 < MAX_SLI"
    by (simp_all add: REAL_FLI_def MAX_SLI_def)
  ultimately show ?thesis
    using assms(1) unfolding index_empty_def by (metis fun_upd_other)
qed

lemma insert_first:
  assumes "index_empty t m" "f < REAL_FLI" "s < MAX_SLI"
    and "unat sizeof_tlsf \<le> unat (prev_at b - t)" "unat sizeof_tlsf \<le> unat (next_at b - t)"
  shows "INSERT_BLOCK b t (int f) (int s) m =
    m(prev_at b := 0, next_at b := 0, matrix_at t (int f) (int s) := b, sl_at t (int f) := push_bit s 1,
      fl_at t := push_bit f 1)"
proof -
  note c = control_words [OF assms(2,3,4)] control_words [OF assms(2,3,5)]
  have "f < 32" "s < 32"
    using assms(2,3) by (simp_all add: REAL_FLI_def MAX_SLI_def)
  then show ?thesis
    using c assms(1-3) index_distinct [OF assms(2,3,2,3), of t]
    by (auto simp: INSERT_BLOCK_def tlsf_set_bit_def index_empty_def Let_def fun_eq_iff)
qed

lemma size_free:
  assumes "4 dvd unat z"
  shows "(z OR FREE_BLOCK) AND BLOCK_SIZE = z" "(z OR FREE_BLOCK) AND PREV_FREE = 0"
proof -
  have low: "\<not> bit z n" if "n < 2" for n
    using block_size_dvd [OF assms] that unfolding block_size_mask by (metis bit_and_iff bit_mask_iff bit_not_iff)
  have prev: "PREV_FREE = push_bit 1 1"
    by (simp add: PREV_FREE_def)
  show "(z OR FREE_BLOCK) AND BLOCK_SIZE = z" "(z OR FREE_BLOCK) AND PREV_FREE = 0"
    unfolding block_size_mask FREE_BLOCK_def prev by (auto intro!: bit_word_eqI simp: bit_simps low)
qed

lemma one_block_ok:
  assumes "f < REAL_FLI" "s < MAX_SLI" "b \<noteq> 0"
    and "m (fl_at t) = push_bit f 1" "\<And>fl. fl < REAL_FLI \<Longrightarrow> m (sl_at t (int fl)) = (if fl = f then push_bit s 1 else 0)"
    and "\<And>fl sl. fl < REAL_FLI \<Longrightarrow> sl < MAX_SLI \<Longrightarrow>
      m (matrix_at t (int fl) (int sl)) = (if fl = f \<and> sl = s then b else 0)"
    and "MAPPING_INSERT (m (size_at b) AND BLOCK_SIZE) = (int f, int s)" "unat sizeof_tlsf \<le> unat (size_at b - t)"
    and "unat sizeof_tlsf \<le> unat (next_at b - t)" "m (next_at b) \<noteq> b - 4" "buffer_of b \<noteq> 0"
  shows "tlsf_ok t m"
proof -
  have fs: "f < 32" "s < 32"
    using assms(1,2) by (simp_all add: REAL_FLI_def MAX_SLI_def)
  then have "push_bit s 1 \<noteq> (0 :: u32)"
    by (simp add: push_bit_eq_0_iff take_bit_eq_mod)
  then have "index_ok t m"
    using assms(1-6) fs by (auto simp: index_ok_def bit_simps split: if_splits)
  moreover have "head_ok t m fl sl" if "fl < REAL_FLI" "sl < MAX_SLI" for fl sl
    using assms(3,6-) that by (auto simp: head_ok_def Let_def)
  ultimately show ?thesis
    by (simp add: tlsf_ok_def)
qed

lemma class_in_index:
  assumes "unat z < 2 ^ 30"
  obtains f s where "MAPPING_INSERT z = (int f, int s)" "f < REAL_FLI" "s < MAX_SLI"
proof -
  obtain f s where fs: "MAPPING_INSERT z = (int f, int s)" "s < 32" "class_min f s \<le> unat z"
    by (rule insert_class)
  have "f < 24"
  proof (rule ccontr)
    assume "\<not> f < 24"
    then have "class_min 24 0 \<le> class_min f s"
      by (intro class_min_mono) auto
    then show False
      using fs(3) assms by (simp add: class_min_def)
  qed
  then show ?thesis
    using that fs(1,2) by (simp add: REAL_FLI_def MAX_SLI_def)
qed

text \<open>A block at offset \<open>n\<close> of a pool and the block behind it.\<close>

lemma block_addresses:
  assumes "b = t + of_nat n" "unat sizeof_tlsf \<le> n" "8 \<le> unat z" "n + unat z + 24 < 2 ^ 32" "lb = buffer_of b + z"
  shows "unat sizeof_tlsf \<le> unat (size_at b - t)" "unat sizeof_tlsf \<le> unat (prev_at b - t)"
    "unat sizeof_tlsf \<le> unat (next_at b - t)" "unat sizeof_tlsf \<le> unat (lb - t)" "unat sizeof_tlsf \<le> unat (size_at lb - t)"
    "size_at lb \<noteq> size_at b" "size_at lb \<noteq> prev_at b" "size_at lb \<noteq> next_at b" "lb \<noteq> size_at b" "lb \<noteq> next_at b"
proof -
  have off: "x = t + of_nat k \<Longrightarrow> k < 2 ^ 32 \<Longrightarrow> unat (x - t) = k" for x k
    by (simp add: unat_of_nat)
  have at: "size_at b = t + of_nat (n + 4)" "prev_at b = t + of_nat (n + 8)" "next_at b = t + of_nat (n + 12)"
    "lb = t + of_nat (n + 8 + unat z)" "size_at lb = t + of_nat (n + 12 + unat z)"
    by (simp_all add: assms(1,5) add_ac)
  show "unat sizeof_tlsf \<le> unat (size_at b - t)" "unat sizeof_tlsf \<le> unat (prev_at b - t)"
    "unat sizeof_tlsf \<le> unat (next_at b - t)" "unat sizeof_tlsf \<le> unat (lb - t)" "unat sizeof_tlsf \<le> unat (size_at lb - t)"
    using assms(2,4) by (subst off [OF at(1)] off [OF at(2)] off [OF at(3)] off [OF at(4)] off [OF at(5)]; simp)+
  show "size_at lb \<noteq> size_at b" "size_at lb \<noteq> prev_at b" "size_at lb \<noteq> next_at b"
    unfolding at(1-3,5) using assms(3,4) by (subst word_offset_eq; simp)+
  show "lb \<noteq> size_at b" "lb \<noteq> next_at b"
    unfolding at(1,3,4) using assms(3,4) by (subst word_offset_eq; simp)+
qed

text \<open>Freeing a block whose neighbours are in use.\<close>

lemma free_alone:
  assumes "buffer_of b \<noteq> 0" "m1 = m(size_at b := m (size_at b) OR FREE_BLOCK, prev_at b := 0, next_at b := 0)"
    and "m1 (size_at (buffer_of b + (m1 (size_at b) AND BLOCK_SIZE))) AND FREE_BLOCK = 0" "m1 (size_at b) AND PREV_FREE = 0"
    and "MAPPING_INSERT (m1 (size_at b) AND BLOCK_SIZE) = (fl, sl)" "mI = INSERT_BLOCK b t fl sl m1"
    and "lb = buffer_of b + (mI (size_at b) AND BLOCK_SIZE)"
  shows "free_ex (buffer_of b) t m = mI(size_at lb := mI (size_at lb) OR PREV_FREE, lb := b)"
proof -
  have "buffer_of b - BHDR_OVERHEAD = b"
    by (simp add: BHDR_OVERHEAD_def)
  then show ?thesis
    unfolding free_ex_def Let_def GET_NEXT_BLOCK_def
    by (simp only: assms(1,3-5) assms(2,6,7) [symmetric] if_False simp_thms prod.case)
qed

text \<open>Freeing the first block of a pool.\<close>

lemma free_first:
  assumes e: "index_empty t m" and b: "b = t + of_nat n" "unat sizeof_tlsf \<le> n" "buffer_of b \<noteq> 0" "b \<noteq> 0" "b \<noteq> 4"
    and z: "m (size_at b) = z" "4 dvd unat z" "8 \<le> unat z" "unat z < 2 ^ 30" "n + unat z + 24 < 2 ^ 32"
    and used: "m (size_at (buffer_of b + z)) AND FREE_BLOCK = 0"
  shows "tlsf_ok t (free_ex (buffer_of b) t m)" "free_ex (buffer_of b) t m (size_at b) = z OR FREE_BLOCK"
    "\<exists>fl < REAL_FLI. \<exists>sl < MAX_SLI. free_ex (buffer_of b) t m (matrix_at t (int fl) (int sl)) = b"
proof -
  define lb where "lb = buffer_of b + z"
  obtain f s where fs: "MAPPING_INSERT z = (int f, int s)" and f: "f < REAL_FLI" "s < MAX_SLI"
    by (rule class_in_index [OF z(4)])
  note A = block_addresses [OF b(1,2) z(3,5) lb_def]
  note out = A(1-5) and ne = A(6-8) and ne' = A(9-10)
  define m1 where "m1 = m(size_at b := z OR FREE_BLOCK, prev_at b := 0, next_at b := 0)"
  have e1: "index_empty t m1"
    unfolding m1_def using e out by (intro index_empty_upd) auto
  have m1: "m1 (size_at b) = z OR FREE_BLOCK" "m1 (size_at lb) AND FREE_BLOCK = 0"
    using ne used by (simp_all add: m1_def lb_def)
  define mI where "mI = INSERT_BLOCK b t (int f) (int s) m1"
  have mI: "mI = m1(prev_at b := 0, next_at b := 0, matrix_at t (int f) (int s) := b, sl_at t (int f) := push_bit s 1,
      fl_at t := push_bit f 1)"
    unfolding mI_def by (rule insert_first [OF e1 f out(2,3)])
  have mI_b: "mI (size_at b) = z OR FREE_BLOCK"
    using m1(1) control_words [OF f out(1)] by (simp add: mI)
  have F: "free_ex (buffer_of b) t m = mI(size_at lb := mI (size_at lb) OR PREV_FREE, lb := b)"
    by (rule free_alone [OF b(3), where ?m1.0 = m1 and fl = "int f" and sl = "int s"])
      (use m1 mI_b size_free [OF z(2)] fs z(1) in \<open>simp_all add: m1_def mI_def lb_def\<close>)
  show size: "free_ex (buffer_of b) t m (size_at b) = z OR FREE_BLOCK"
    using mI_b ne(1) ne'(1) by (simp add: F)
  have word: "free_ex (buffer_of b) t m x = mI x" if "x \<noteq> lb" "x \<noteq> size_at lb" for x
    using that by (simp add: F)
  have index: "free_ex (buffer_of b) t m (fl_at t) = mI (fl_at t)"
    "free_ex (buffer_of b) t m (sl_at t (int fl)) = mI (sl_at t (int fl))"
    "free_ex (buffer_of b) t m (matrix_at t (int fl) (int sl)) = mI (matrix_at t (int fl) (int sl))"
    if "fl < REAL_FLI" "sl < MAX_SLI" for fl sl
    using control_words [OF that out(4)] control_words [OF that out(5)] by (simp_all add: word)
  have next_b: "free_ex (buffer_of b) t m (next_at b) = 0"
    using word [of "next_at b"] ne(3) ne'(2) control_words [OF f out(3)] by (simp add: mI)
  have head: "free_ex (buffer_of b) t m (matrix_at t (int fl) (int sl)) = (if fl = f \<and> sl = s then b else 0)"
    if "fl < REAL_FLI" "sl < MAX_SLI" for fl sl
    using index(3) [OF that] index_distinct [OF that f, of t] index_distinct [OF f that, of t] control_words [OF that out(2)]
      control_words [OF that out(3)] e1 that by (auto simp: mI index_empty_def)
  show "\<exists>fl < REAL_FLI. \<exists>sl < MAX_SLI. free_ex (buffer_of b) t m (matrix_at t (int fl) (int sl)) = b"
    by (intro exI [of _ f] exI [of _ s] conjI f) (use head [OF f] in simp)
  show "tlsf_ok t (free_ex (buffer_of b) t m)"
  proof (rule one_block_ok [OF f b(4)])
    show "free_ex (buffer_of b) t m (fl_at t) = push_bit f 1"
      using index(1) [OF f] by (simp add: mI)
    show "free_ex (buffer_of b) t m (sl_at t (int fl)) = (if fl = f then push_bit s 1 else 0)" if "fl < REAL_FLI" for fl
      using index(2) [OF that f(2)] index_distinct [OF that f(2) f, of t] index_distinct [OF f that f(2), of t] control_words [OF that f(2) out(2)]
        control_words [OF that f(2) out(3)] e1 that by (auto simp: mI index_empty_def)
    show "free_ex (buffer_of b) t m (matrix_at t (int fl) (int sl)) = (if fl = f \<and> sl = s then b else 0)"
      if "fl < REAL_FLI" "sl < MAX_SLI" for fl sl
      using that by (rule head)
  qed (use size size_free [OF z(2)] fs out(1,3) next_b b(3,5) in auto)
qed

lemma tlsf_ok_area_head:
  assumes "tlsf_ok t m"
  shows "tlsf_ok t (m(area_head_at t := v))"
proof -
  define x where "x = area_head_at t"
  have far: "y \<noteq> x" if "unat sizeof_tlsf \<le> unat (y - t)" for y
    using that by (auto simp: sizeof_tlsf_def x_def)
  have low: "fl_at t \<noteq> x" "sl_at t (int fl) \<noteq> x" "matrix_at t (int fl) (int sl) \<noteq> x"
    if "fl < REAL_FLI" "sl < MAX_SLI" for fl sl
    using index_not_low [OF that, of 4 t] by (simp_all add: x_def)
  have pos: "0 < REAL_FLI" "0 < MAX_SLI"
    by (simp_all add: REAL_FLI_def MAX_SLI_def)
  have "head_ok t (m(x := v)) fl sl" if "fl < REAL_FLI" "sl < MAX_SLI" for fl sl
    using assms that low(3) [OF that] far unfolding tlsf_ok_def head_ok_def Let_def by (metis fun_upd_other)
  moreover have "index_ok t (m(x := v))"
  proof -
    have "(m(x := v)) (fl_at t) = m (fl_at t)" "\<And>fl. fl < REAL_FLI \<Longrightarrow> (m(x := v)) (sl_at t (int fl)) = m (sl_at t (int fl))"
      "\<And>fl sl. fl < REAL_FLI \<Longrightarrow> sl < MAX_SLI \<Longrightarrow> (m(x := v)) (matrix_at t (int fl) (int sl)) = m (matrix_at t (int fl) (int sl))"
      using low pos by (metis fun_upd_other)+
    then show ?thesis
      using assms unfolding tlsf_ok_def index_ok_def by metis
  qed
  ultimately show ?thesis
    by (simp add: tlsf_ok_def x_def)
qed

text \<open>
  The area of a fresh pool: a block of 8 bytes holding the area's record, a block with the rest and an
  empty block in use as sentinel.
\<close>

lemma unat_rounddown: "unat (ROUNDDOWN_SIZE w) = unat w div 8 * 8"
proof -
  have "MEM_ALIGN = mask 3"
    by (simp add: MEM_ALIGN_def mask_eq_exp_minus_1)
  then show ?thesis
    unfolding ROUNDDOWN_SIZE_def using unat_and_not_mask [of w 3] by simp
qed

lemma process_area_words:
  assumes "ib = t + of_nat 3184" "8 dvd unat sz" "32 \<le> unat sz"
  shows "process_area ib sz m =
    (ib, m(t + of_nat 3188 := 8, t + of_nat 3204 := sz - 32, t + of_nat 3212 := 0, t + of_nat 3208 := 0,
           t + of_nat (3208 + (unat sz - 32)) := t + of_nat 3200, t + of_nat (3212 + (unat sz - 32)) := 2,
           t + of_nat 3196 := 0, t + of_nat 3192 := t + of_nat (3208 + (unat sz - 32))))"
proof -
  have uz: "unat (sz - 32) = unat sz - 32"
    using assms(3) unat_sub [of 32 sz] by (simp add: word_le_nat_alt)
  then have d: "8 dvd unat (sz - 32)"
    using assms(2) dvd_diff_nat [of 8 "unat sz" 32] by simp
  have z: "ROUNDDOWN_SIZE (sz - 32) = sz - 32"
    by (rule word_unat_eq_iff [THEN iffD2]) (use d in \<open>simp add: unat_rounddown\<close>)
  have b: "(sz - 32) AND BLOCK_SIZE = sz - 32" "(8 :: u32) AND BLOCK_SIZE = 8"
    using d by (auto intro!: block_size_dvd elim: dvd_trans [rotated])
  have "of_nat (unat sz - 32) = sz - 32"
    unfolding uz [symmetric] by simp
  moreover have "ROUNDUP_SIZE 8 = 8"
    by (simp add: ROUNDUP_SIZE_def MEM_ALIGN_def)
  moreover have "t + 3200 + 4 \<noteq> t + 3200 + 8" "t + 3200 + 4 \<noteq> t + 3200 + 12"
    by simp_all
  ultimately show ?thesis
    using z b unfolding process_area_def GET_NEXT_BLOCK_def
    by (simp add: assms(1) sizeof_area_info_def MIN_BLOCK_SIZE_def BHDR_OVERHEAD_def USED_BLOCK_def PREV_USED_def
      PREV_FREE_def Let_def add_ac)
qed


lemma process_area_layout:
  assumes e: "index_empty t m" and ib: "ib = t + of_nat 3184" and sz: "8 dvd unat sz" "64 \<le> unat sz" "unat sz < 2 ^ 31"
    and P: "process_area ib sz m = (ib', m')"
  shows "ib' = ib" "index_empty t m'" "m' (size_at ib) = 8" "m' (size_at (t + of_nat 3200)) = sz - 32"
    "m' (size_at (buffer_of (t + of_nat 3200) + (sz - 32))) AND FREE_BLOCK = 0"
proof -
  define k where "k = unat sz - 32"
  have k: "32 \<le> k" "k < 2 ^ 31" "of_nat k = sz - 32"
    using sz by (auto simp: k_def of_nat_diff)
  have at: "size_at ib = t + of_nat 3188" "size_at (t + of_nat 3200) = t + of_nat 3204"
    "size_at (buffer_of (t + of_nat 3200) + (sz - 32)) = t + of_nat (3212 + k)"
    by (simp_all add: ib k(3) [symmetric] add_ac)
  note W = process_area_words [OF ib sz(1), folded k_def, of m]
  have M: "m' = m(t + of_nat 3188 := 8, t + of_nat 3204 := sz - 32, t + of_nat 3212 := 0, t + of_nat 3208 := 0,
           t + of_nat (3208 + k) := t + of_nat 3200, t + of_nat (3212 + k) := 2,
           t + of_nat 3196 := 0, t + of_nat 3192 := t + of_nat (3208 + k))"
    and "ib' = ib"
    using P W sz(2) by simp_all
  then show "ib' = ib"
    by simp
  have far: "unat sizeof_tlsf \<le> unat (t + of_nat i - t)" if "3180 \<le> i" "i < 2 ^ 32" for i
    using that by (simp add: sizeof_tlsf_def unat_of_nat)
  show "index_empty t m'"
    unfolding M using e far k(2) by (intro index_empty_upd disjI2 far) simp_all
  have ne: "i \<noteq> j \<Longrightarrow> i < 2 ^ 32 \<Longrightarrow> j < 2 ^ 32 \<Longrightarrow> t + of_nat i \<noteq> t + of_nat j" for i j
    using word_offset_eq by blast
  have skip: "i \<noteq> j \<Longrightarrow> i < 2 ^ 32 \<Longrightarrow> j < 2 ^ 32 \<Longrightarrow> (f(t + of_nat j := v)) (t + of_nat i) = f (t + of_nat i)" for f i j v
    using ne by (metis fun_upd_other)
  show "m' (size_at ib) = 8" "m' (size_at (t + of_nat 3200)) = sz - 32"
    "m' (size_at (buffer_of (t + of_nat 3200) + (sz - 32))) AND FREE_BLOCK = 0"
    unfolding M at using k(1,2) by (simp_all add: skip fun_upd_same FREE_BLOCK_def del: of_nat_numeral of_nat_add fun_upd_apply)
qed


section \<open>Initialisation\<close>

lemma init_memory_pool_eq:
  assumes t: "t \<noteq> 0" "4 dvd unat t" "m t \<noteq> TLSF_SIGNATURE" and sz: "3244 \<le> unat sz"
    and ib: "ib = t + of_nat 3184" and b: "b = t + of_nat 3200"
    and P: "process_area ib (ROUNDDOWN_SIZE (sz - sizeof_tlsf)) ((memset t 0 sizeof_tlsf m)(t := TLSF_SIGNATURE)) = (ib, m1)"
      "m1 (size_at ib) = 8"
    and m2: "m2 = (free_ex (buffer_of b) t m1)(area_head_at t := buffer_of ib)"
  shows "init_memory_pool sz t mp m = (m2 (size_at b) AND BLOCK_SIZE, t, m2)"
proof -
  have "\<not> (t = 0 \<or> sz = 0 \<or> sz < sizeof_tlsf + BHDR_OVERHEAD * 8)"
    using t(1) sz by (auto simp: sizeof_tlsf_def BHDR_OVERHEAD_def word_less_nat_alt)
  moreover have "t AND PTR_MASK = 0"
    using t(2) unat_low_two [of t] by (simp add: PTR_MASK_def word_unat_eq_iff)
  moreover have "GET_NEXT_BLOCK t (ROUNDUP_SIZE sizeof_tlsf) = ib"
    by (simp add: GET_NEXT_BLOCK_def ROUNDUP_SIZE_def MEM_ALIGN_def sizeof_tlsf_def ib)
  moreover have "GET_NEXT_BLOCK (buffer_of ib) (m1 (size_at ib) AND BLOCK_SIZE) = b"
    unfolding P(2) using block_size_dvd [of 8] by (simp add: GET_NEXT_BLOCK_def ib b)
  ultimately show ?thesis
    using t(3) P(1) unfolding init_memory_pool_def Let_def m2 by (simp del: fun_upd_apply)
qed

text \<open>
  A fresh pool has a valid index holding one free block of all bytes the control structure, the area's
  record and the sentinel leave.
\<close>

lemma init_pool:
  assumes t: "t \<noteq> 0" "4 dvd unat t" "m t \<noteq> TLSF_SIGNATURE"
    and sz: "3244 \<le> unat sz" "unat sz < 2 ^ 30" "unat t + unat sz \<le> 2 ^ 32"
    and I: "init_memory_pool sz t mp m = (r, mp', m')"
  shows "tlsf_ok t m'" "mp' = t" "unat r = (unat sz - 3180) div 8 * 8 - 32" "m' (size_at (t + 3200)) = r OR FREE_BLOCK"
    "\<exists>fl < REAL_FLI. \<exists>sl < MAX_SLI. m' (matrix_at t (int fl) (int sl)) = t + 3200"
proof -
  define m0 where "m0 = (memset t 0 sizeof_tlsf m)(t := TLSF_SIGNATURE)"
  define A where "A = ROUNDDOWN_SIZE (sz - sizeof_tlsf)"
  define ib b where "ib = t + of_nat 3184" and "b = t + of_nat 3200"
  have "unat (sz - sizeof_tlsf) = unat sz - 3180"
    using sz(1) unat_sub [of sizeof_tlsf sz] by (simp add: word_le_nat_alt sizeof_tlsf_def)
  then have A: "unat A = (unat sz - 3180) div 8 * 8"
    unfolding A_def unat_rounddown by simp
  then have A': "8 dvd unat A" "64 \<le> unat A" "unat A < 2 ^ 31" "unat A \<le> unat sz - 3180"
    using sz by auto
  have z: "unat (A - 32) = unat A - 32"
    using A'(2) unat_sub [of 32 A] by (simp add: word_le_nat_alt)
  have z4: "4 dvd unat (A - 32)"
    using dvd_trans [of 4 8 "unat (A - 32)"] dvd_diff_nat [OF A'(1), of 32] by (simp add: z)
  obtain m1 where P: "process_area ib A m0 = (ib, m1)"
    using process_area_words [OF ib_def A'(1)] A'(2) by fastforce
  have "index_empty t (memset t 0 sizeof_tlsf m)"
    using t(2) unfolding index_empty_def index_offsets
    by (auto intro!: memset_zero_word simp: sizeof_tlsf_def REAL_FLI_def MAX_SLI_def simp del: of_nat_numeral of_nat_add)
  then have e0: "index_empty t m0"
    unfolding m0_def by (intro index_empty_upd) auto
  note L = process_area_layout [OF e0 ib_def A'(1-3) P, folded b_def]
  have ub: "unat b = unat t + 3200"
    using sz by (simp add: b_def unat_word_ariths)
  have b: "buffer_of b \<noteq> 0" "b \<noteq> 0" "b \<noteq> 4"
    using ub sz by (auto simp: word_unat_eq_iff unat_word_ariths)
  define m2 where "m2 = free_ex (buffer_of b) t m1"
  have F: "tlsf_ok t m2" "m2 (size_at b) = (A - 32) OR FREE_BLOCK"
    "\<exists>fl < REAL_FLI. \<exists>sl < MAX_SLI. m2 (matrix_at t (int fl) (int sl)) = b"
    unfolding m2_def using A' z z4 sz(2)
    by (intro free_first [OF L(2) b_def _ b L(4) _ _ _ _ L(5)]; simp add: sizeof_tlsf_def)+
  have "init_memory_pool sz t mp m =
    ((m2(area_head_at t := buffer_of ib)) (size_at b) AND BLOCK_SIZE, t, m2(area_head_at t := buffer_of ib))"
    by (rule init_memory_pool_eq [OF t sz(1) ib_def b_def P [unfolded A_def m0_def] L(3)]) (simp only: m2_def)
  then have "r = (m2(area_head_at t := buffer_of ib)) (size_at b) AND BLOCK_SIZE" "mp' = t" "m' = m2(area_head_at t := buffer_of ib)"
    using I by simp_all
  moreover have "size_at b \<noteq> area_head_at t"
    by (simp add: b_def)
  moreover have "((A - 32) OR FREE_BLOCK) AND BLOCK_SIZE = A - 32"
    using size_free [OF z4] by simp
  moreover have "\<exists>fl < REAL_FLI. \<exists>sl < MAX_SLI. (m2(area_head_at t := buffer_of ib)) (matrix_at t (int fl) (int sl)) = b"
    using F(3) index_not_low(3) [of _ _ 4 t] by auto
  ultimately show "tlsf_ok t m'" "mp' = t" "unat r = (unat sz - 3180) div 8 * 8 - 32"
    "m' (size_at (t + 3200)) = r OR FREE_BLOCK" "\<exists>fl < REAL_FLI. \<exists>sl < MAX_SLI. m' (matrix_at t (int fl) (int sl)) = t + 3200"
    using F tlsf_ok_area_head [OF F(1)] z A by (simp_all add: b_def)
qed

text \<open>A request that the block of a fresh pool can serve is served.\<close>

lemma fresh_pool_malloc:
  assumes I: "t \<noteq> 0" "4 dvd unat t" "m t \<noteq> TLSF_SIGNATURE" "3244 \<le> unat sz" "unat sz < 2 ^ 30"
      "unat t + unat sz \<le> 2 ^ 32" "init_memory_pool sz t mp m = (r, mp', m1)"
    and n: "unat n < 2 ^ 28" "MAPPING_SEARCH (request_size n) = (r', fl, sl)" "unat r' \<le> unat r"
  shows "fst (malloc_ex n t m1) \<noteq> 0"
proof
  assume "fst (malloc_ex n t m1) = 0"
  then have M: "malloc_ex n t m1 = (0, snd (malloc_ex n t m1))"
    by (metis prod.collapse)
  note P = init_pool [OF I]
  obtain f s where f: "f < REAL_FLI" "s < MAX_SLI" "m1 (matrix_at t (int f) (int s)) = t + 3200"
    using P(5) by blast
  have "unat t + 3200 < 2 ^ 32"
    using I(4,6) by simp
  then have "unat (t + 3200) = unat t + 3200"
    by (simp add: unat_word_ariths)
  then have "t + 3200 \<noteq> 0"
    by auto
  moreover have "4 dvd unat r"
    using dvd_trans [of 4 8 "unat r"] dvd_diff_nat [of 8 _ 32] unfolding P(3) by simp
  ultimately show False
    using malloc_null(2) [OF P(1) n(1) M n(2) f(1,2) f(3) [symmetric], unfolded P(4)] n(3) size_free(1) [of r] by simp
qed

text \<open>The pool at 0x1000 with one free block of eight bytes.\<close>

definition tiny_pool :: mem where
  "tiny_pool = (\<lambda>_. 0)(fl_at 0x1000 := 1, sl_at 0x1000 0 := 4, matrix_at 0x1000 0 2 := 0x2000, size_at 0x2000 := 9)"

lemma tiny_pool_ok: "tlsf_ok 0x1000 tiny_pool"
proof -
  have "sl_at 0x1000 (int fl) = sl_at 0x1000 (int 0) \<longleftrightarrow> fl = 0" "sl_at 0x1000 (int fl) \<noteq> fl_at 0x1000"
    "sl_at 0x1000 (int fl) \<noteq> matrix_at 0x1000 0 2" "sl_at 0x1000 (int fl) \<noteq> size_at 0x2000" if "fl < REAL_FLI" for fl
    using index_distinct [of fl 2 0 2 "0x1000"] index_distinct [of 0 2 fl 2 "0x1000"] that
      control_words [of fl 2 "size_at 0x2000" "0x1000"]
    by (simp_all add: REAL_FLI_def MAX_SLI_def sizeof_tlsf_def)
  moreover have "matrix_at 0x1000 (int fl) (int sl) = matrix_at 0x1000 (int 0) (int 2) \<longleftrightarrow> fl = 0 \<and> sl = 2"
    "matrix_at 0x1000 (int fl) (int sl) \<noteq> fl_at 0x1000" "matrix_at 0x1000 (int fl) (int sl) \<noteq> sl_at 0x1000 0"
    "matrix_at 0x1000 (int fl) (int sl) \<noteq> size_at 0x2000" if "fl < REAL_FLI" "sl < MAX_SLI" for fl sl
    using index_distinct [of fl sl 0 2 "0x1000"] that control_words [of fl sl "size_at 0x2000" "0x1000"]
    by (simp_all add: REAL_FLI_def MAX_SLI_def sizeof_tlsf_def)
  ultimately show ?thesis
    by (intro one_block_ok [of 0 2 "0x2000"])
      (simp_all add: tiny_pool_def REAL_FLI_def MAX_SLI_def sizeof_tlsf_def sl_at_def matrix_at_def
        MAPPING_INSERT_def SMALL_BLOCK_def BLOCK_SIZE_def PTR_MASK_def)
qed

end
