(* ===== verification/Tlsf_Lists.thy ===== *)
theory Tlsf_Lists
  imports Tlsf_Init
begin

text \<open>
  The lists of free blocks of the TLSF allocator: what \<open>INSERT_BLOCK\<close>, \<open>EXTRACT_BLOCK\<close> and \<open>EXTRACT_BLOCK_HDR\<close>
  do to the set of free blocks.
\<close>

unbundle bit_operations_syntax

section \<open>Doubly linked lists in memory\<close>

text \<open>From the block \<open>c\<close>, whose predecessor is \<open>p\<close>, through \<open>xs\<close> up to the block \<open>c'\<close>, whose predecessor is \<open>p'\<close>.\<close>

fun seg :: "mem \<Rightarrow> u32 \<Rightarrow> u32 \<Rightarrow> u32 list \<Rightarrow> u32 \<Rightarrow> u32 \<Rightarrow> bool" where
  "seg m p c [] p' c' \<longleftrightarrow> p = p' \<and> c = c'"
| "seg m p c (x # xs) p' c' \<longleftrightarrow> c = x \<and> m (prev_at x) = p \<and> seg m x (m (next_at x)) xs p' c'"

lemma seg_append: "seg m p c (xs @ ys) p' c' \<longleftrightarrow> (\<exists>q d. seg m p c xs q d \<and> seg m q d ys p' c')"
  by (induction xs arbitrary: p c) auto

lemma seg_cong:
  assumes "\<And>x. x \<in> set xs \<Longrightarrow> m' (prev_at x) = m (prev_at x) \<and> m' (next_at x) = m (next_at x)"
  shows "seg m' p c xs p' c' \<longleftrightarrow> seg m p c xs p' c'"
  using assms by (induction xs arbitrary: p c) auto

lemma seg_hd: "seg m p c xs p' c' \<Longrightarrow> c = (if xs = [] then c' else hd xs)"
  by (cases xs) auto

lemma seg_last: "seg m p c xs p' c' \<Longrightarrow> p' = (if xs = [] then p else last xs)"
  by (induction xs arbitrary: p c) (auto split: if_splits)

text \<open>Blocks whose link words do not overlap with one another and with the control structure.\<close>

definition control :: "u32 \<Rightarrow> u32 \<Rightarrow> bool" where
  "control t x \<longleftrightarrow> unat (x - t) < unat sizeof_tlsf"

definition spread :: "u32 \<Rightarrow> u32 set \<Rightarrow> bool" where
  "spread t X \<longleftrightarrow> (\<forall>x \<in> X. x \<noteq> 0 \<and> \<not> control t (prev_at x) \<and> \<not> control t (next_at x) \<and> (\<forall>y \<in> X. prev_at x \<noteq> next_at y))"

lemma spreadD:
  assumes "spread t X" "x \<in> X"
  shows "x \<noteq> 0" "\<not> control t (prev_at x)" "\<not> control t (next_at x)"
    "y \<in> X \<Longrightarrow> prev_at x \<noteq> next_at y" "y \<in> X \<Longrightarrow> next_at y \<noteq> prev_at x"
  using assms by (auto simp: spread_def)

lemma spread_mono: "spread t Y \<Longrightarrow> X \<subseteq> Y \<Longrightarrow> spread t X"
  by (auto simp: spread_def)

lemma seg_relink_next:
  assumes "seg m p c (us @ [u]) p' c'" "spread t X" "set (us @ [u]) \<subseteq> X" "distinct (us @ [u])"
  shows "seg (m(next_at u := v)) p c (us @ [u]) p' v"
proof -
  have "seg (m(next_at u := v)) p c us q d \<longleftrightarrow> seg m p c us q d" for q d
    using assms(3,4) spreadD(4) [OF assms(2)] by (intro seg_cong) auto
  moreover have "prev_at u \<noteq> next_at u"
    by simp
  ultimately show ?thesis
    using assms(1) by (auto simp: seg_append)
qed

lemma seg_relink_prev:
  assumes "seg m p c (v # vs) p' c'" "spread t X" "set (v # vs) \<subseteq> X" "distinct (v # vs)"
  shows "seg (m(prev_at v := q)) q c (v # vs) p' c'"
proof -
  have "next_at x \<noteq> prev_at v" "prev_at x \<noteq> prev_at v" if "x \<in> set vs" for x
    using that assms(3,4) spreadD(5) [OF assms(2), of v x] by auto
  then have "seg (m(prev_at v := q)) a d vs p' c' \<longleftrightarrow> seg m a d vs p' c'" for a d
    by (intro seg_cong) simp
  moreover have "next_at v \<noteq> prev_at v"
    by simp
  ultimately show ?thesis
    using assms(1) by auto
qed

section \<open>The control structure\<close>

lemma control_index:
  assumes "fl < REAL_FLI" "sl < MAX_SLI"
  shows "control t (fl_at t)" "control t (sl_at t (int fl))" "control t (matrix_at t (int fl) (int sl))"
proof -
  have *: "control t (t + of_nat n)" if "n < 3180" for n
    using that by (simp add: control_def sizeof_tlsf_def unat_of_nat)
  show "control t (fl_at t)" "control t (sl_at t (int fl))" "control t (matrix_at t (int fl) (int sl))"
    unfolding index_offsets by (rule *, use assms in \<open>simp add: REAL_FLI_def MAX_SLI_def\<close>)+
qed

lemma not_control: "control t x \<Longrightarrow> \<not> control t y \<Longrightarrow> x \<noteq> y \<and> y \<noteq> x"
  by auto

lemma index_ok_set:
  assumes "index_ok t m" "fl < REAL_FLI" "sl < MAX_SLI"
    and "m' (fl_at t) = m (fl_at t) OR push_bit fl 1" "m' (matrix_at t (int fl) (int sl)) \<noteq> 0"
    and "\<And>f. f < REAL_FLI \<Longrightarrow> m' (sl_at t (int f)) = (if f = fl then m (sl_at t (int f)) OR push_bit sl 1 else m (sl_at t (int f)))"
    and "\<And>f s. f < REAL_FLI \<Longrightarrow> s < MAX_SLI \<Longrightarrow> f \<noteq> fl \<or> s \<noteq> sl \<Longrightarrow>
      m' (matrix_at t (int f) (int s)) = m (matrix_at t (int f) (int s))"
  shows "index_ok t m'"
proof -
  have 32: "fl < 32" "sl < 32"
    using assms(2,3) by (simp_all add: REAL_FLI_def MAX_SLI_def)
  have nz: "w OR push_bit sl 1 \<noteq> 0" for w :: u32
  proof
    assume "w OR push_bit sl 1 = 0"
    then have "bit (w OR push_bit sl 1) sl = bit (0 :: u32) sl"
      by simp
    then show False
      using 32 by (simp add: bit_simps)
  qed
  show ?thesis
    unfolding index_ok_def
  proof (intro conjI allI impI)
    fix f
    show "bit (m' (fl_at t)) f \<longleftrightarrow> f < REAL_FLI \<and> m' (sl_at t (int f)) \<noteq> 0"
      using assms(1,2,4) assms(6) [of f] 32 nz [of "m (sl_at t (int fl))"]
      by (cases "f = fl") (auto simp: index_ok_def bit_simps REAL_FLI_def)
  next
    fix f s assume "f < REAL_FLI" "s < MAX_SLI"
    then show "bit (m' (sl_at t (int f))) s \<longleftrightarrow> m' (matrix_at t (int f) (int s)) \<noteq> 0"
      using assms(1,5,6,7) 32 by (cases "f = fl \<and> s = sl") (auto simp: index_ok_def bit_simps)
  qed
qed

lemma index_ok_clear:
  assumes "index_ok t m" "fl < REAL_FLI" "sl < MAX_SLI" and w: "w = m (sl_at t (int fl)) AND NOT (push_bit sl 1)"
    and "m' (fl_at t) = (if w = 0 then m (fl_at t) AND NOT (push_bit fl 1) else m (fl_at t))" "m' (matrix_at t (int fl) (int sl)) = 0"
    and "\<And>f. f < REAL_FLI \<Longrightarrow> m' (sl_at t (int f)) = (if f = fl then w else m (sl_at t (int f)))"
    and "\<And>f s. f < REAL_FLI \<Longrightarrow> s < MAX_SLI \<Longrightarrow> f \<noteq> fl \<or> s \<noteq> sl \<Longrightarrow>
      m' (matrix_at t (int f) (int s)) = m (matrix_at t (int f) (int s))"
  shows "index_ok t m'"
proof -
  have 32: "fl < 32" "sl < 32"
    using assms(2,3) by (simp_all add: REAL_FLI_def MAX_SLI_def)
  have nz: "m (sl_at t (int fl)) \<noteq> 0" if "w \<noteq> 0"
    using that w by auto
  show ?thesis
    unfolding index_ok_def
  proof (intro conjI allI impI)
    fix f
    show "bit (m' (fl_at t)) f \<longleftrightarrow> f < REAL_FLI \<and> m' (sl_at t (int f)) \<noteq> 0"
      using assms(1,2,5) assms(7) [of f] 32 nz by (cases "f = fl") (auto simp: index_ok_def bit_simps REAL_FLI_def)
  next
    fix f s assume "f < REAL_FLI" "s < MAX_SLI"
    then show "bit (m' (sl_at t (int f))) s \<longleftrightarrow> m' (matrix_at t (int f) (int s)) \<noteq> 0"
      using assms(1,6) assms(7) [of f] assms(8) [of f s] 32 w
      by (cases "f = fl \<and> s = sl") (auto simp: index_ok_def bit_simps MAX_SLI_def)
  qed
qed

lemma index_ok_cong:
  assumes "index_ok t m" "m' (fl_at t) = m (fl_at t)" "\<And>f. f < REAL_FLI \<Longrightarrow> m' (sl_at t (int f)) = m (sl_at t (int f))"
    and "\<And>f s. f < REAL_FLI \<Longrightarrow> s < MAX_SLI \<Longrightarrow> m' (matrix_at t (int f) (int s)) = 0 \<longleftrightarrow> m (matrix_at t (int f) (int s)) = 0"
  shows "index_ok t m'"
  using assms by (auto simp: index_ok_def)


lemma set_bit_eq: "nr < 32 \<Longrightarrow> tlsf_set_bit (int nr) addr m = m(addr := m addr OR push_bit nr 1)"
  by (simp add: tlsf_set_bit_def)

lemma clear_bit_eq: "nr < 32 \<Longrightarrow> tlsf_clear_bit (int nr) addr m = m(addr := m addr AND NOT (push_bit nr 1))"
  by (simp add: tlsf_clear_bit_def)

section \<open>The set of free blocks\<close>

text \<open>\<open>F\<close> holds the addresses and sizes of the free blocks: each is in the list of its class, and no list holds more.\<close>

definition class_of :: "(u32 \<times> u32) set \<Rightarrow> nat \<Rightarrow> nat \<Rightarrow> u32 set" where
  "class_of F fl sl = {b. \<exists>z. (b, z) \<in> F \<and> MAPPING_INSERT z = (int fl, int sl)}"

definition list_in :: "mem \<Rightarrow> u32 \<Rightarrow> u32 set \<Rightarrow> bool" where
  "list_in m h X \<longleftrightarrow> (\<exists>xs q. seg m 0 h xs q 0 \<and> distinct xs \<and> set xs = X)"

definition free_lists :: "u32 \<Rightarrow> mem \<Rightarrow> (u32 \<times> u32) set \<Rightarrow> bool" where
  "free_lists t m F \<longleftrightarrow> index_ok t m \<and> single_valued F \<and> spread t (Domain F) \<and>
     (\<forall>fl < REAL_FLI. \<forall>sl < MAX_SLI. list_in m (m (matrix_at t (int fl) (int sl))) (class_of F fl sl))"

lemma class_of_sub: "class_of F fl sl \<subseteq> Domain F"
  by (auto simp: class_of_def)

lemma class_of_unique:
  assumes "single_valued F" "x \<in> class_of F fl sl" "x \<in> class_of F f s"
  shows "f = fl \<and> s = sl"
  using assms by (fastforce simp: class_of_def dest: single_valuedD)

lemma class_of_insert:
  "MAPPING_INSERT z = (int fl, int sl) \<Longrightarrow> class_of (insert (b, z) F) f s = (if f = fl \<and> s = sl then insert b (class_of F f s) else class_of F f s)"
  by (auto simp: class_of_def)

lemma class_of_remove:
  assumes "MAPPING_INSERT z = (int fl, int sl)" "(b, z) \<in> F" "single_valued F"
  shows "class_of (F - {(b, z)}) f s = (if f = fl \<and> s = sl then class_of F f s - {b} else class_of F f s)"
  using assms by (auto simp: class_of_def dest: single_valuedD)

lemma list_in_hd:
  assumes "list_in m h X" "0 \<notin> X"
  shows "h = 0 \<longleftrightarrow> X = {}" "h \<noteq> 0 \<Longrightarrow> h \<in> X" "h \<noteq> 0 \<Longrightarrow> m (prev_at h) = 0"
proof -
  obtain xs q where xs: "seg m 0 h xs q 0" "set xs = X"
    using assms(1) by (auto simp: list_in_def)
  then show "h = 0 \<longleftrightarrow> X = {}" "h \<noteq> 0 \<Longrightarrow> h \<in> X" "h \<noteq> 0 \<Longrightarrow> m (prev_at h) = 0"
    using seg_hd [OF xs(1)] assms(2) by (cases xs; auto)+
qed

lemma list_in_cong:
  assumes "list_in m h X" "\<And>x. x \<in> X \<Longrightarrow> m' (prev_at x) = m (prev_at x) \<and> m' (next_at x) = m (next_at x)"
  shows "list_in m' h X"
proof -
  obtain xs q where xs: "seg m 0 h xs q 0" "distinct xs" "set xs = X"
    using assms(1) by (auto simp: list_in_def)
  moreover have "seg m' 0 h xs q 0"
    using xs assms(2) by (subst seg_cong [of _ _ m]) auto
  ultimately show ?thesis
    unfolding list_in_def by blast
qed

lemma list_in_push:
  assumes L: "list_in m h X" and b: "b \<notin> X" and sp: "spread t (insert b X)"
    and m': "m' = (if h \<noteq> 0 then m(prev_at b := 0, next_at b := h, prev_at h := b) else m(prev_at b := 0, next_at b := h))"
  shows "list_in m' b (insert b X)"
proof -
  obtain xs q where xs: "seg m 0 h xs q 0" "distinct xs" "set xs = X"
    using L by (auto simp: list_in_def)
  let ?m = "m(prev_at b := 0, next_at b := h)"
  have "prev_at x \<noteq> next_at b" "next_at x \<noteq> prev_at b" "x \<noteq> b" if "x \<in> X" for x
    using that b spreadD(4,5) [OF sp, of x b] spreadD(4,5) [OF sp, of b x] by auto
  then have seg1: "seg ?m 0 h xs q 0"
    using xs by (subst seg_cong [of _ _ m]) auto
  show ?thesis
  proof (cases xs)
    case Nil
    then have "seg m' 0 b [b] b 0"
      using xs(1) m' by simp
    then show ?thesis
      unfolding list_in_def using Nil xs by (intro exI [of _ "[b]"]) auto
  next
    case (Cons x vs)
    then have h: "h = x" "x \<noteq> 0" "x \<noteq> b"
      using xs b spreadD(1) [OF sp, of x] by auto
    have "m' = ?m(prev_at x := b)"
      using m' h by simp
    moreover have "seg (?m(prev_at x := b)) b h (x # vs) q 0"
      by (rule seg_relink_prev [OF _ sp]) (use seg1 xs Cons in \<open>auto simp del: fun_upd_apply\<close>)
    ultimately have "seg m' b h xs q 0"
      by (simp only: Cons)
    moreover have "m' (prev_at b) = 0" "m' (next_at b) = h"
      using h m' spreadD(5) [OF sp, of x b] xs(3) Cons by auto
    ultimately have "seg m' 0 b (b # xs) q 0"
      by simp
    then show ?thesis
      unfolding list_in_def using xs b by (intro exI [of _ "b # xs"]) auto
  qed
qed


text \<open>Extraction of a block from the middle: its neighbours are linked to each other.\<close>

lemma list_in_remove:
  assumes L: "list_in m h X" and b: "b \<in> X" and sp: "spread t X"
    and m1: "m1 = (if m (next_at b) \<noteq> 0 then m(prev_at (m (next_at b)) := m (prev_at b)) else m)"
    and m2: "m2 = (if m (prev_at b) \<noteq> 0 then m1(next_at (m (prev_at b)) := m (next_at b)) else m1)"
  shows "list_in m2 (if h = b then m (next_at b) else h) (X - {b})"
    "m2 (prev_at b) = m (prev_at b)" "m2 (next_at b) = m (next_at b)" "h = b \<longleftrightarrow> m (prev_at b) = 0"
    "m1 (prev_at b) = m (prev_at b)" "m1 (next_at b) = m (next_at b)"
    "m (next_at b) \<noteq> 0 \<Longrightarrow> m (next_at b) \<in> X" "m (prev_at b) \<noteq> 0 \<Longrightarrow> m (prev_at b) \<in> X" "m (next_at b) \<noteq> b"
proof -
  obtain xs q where xs: "seg m 0 h xs q 0" "distinct xs" "set xs = X"
    using L by (auto simp: list_in_def)
  obtain us vs where uv: "xs = us @ b # vs"
    using b xs(3) by (metis split_list)
  let ?n = "m (next_at b)" and ?p = "m (prev_at b)"
  have U: "seg m 0 h us ?p b" and V: "seg m b ?n vs q 0"
    using xs(1) by (auto simp: uv seg_append)
  have n: "?n = (if vs = [] then 0 else hd vs)" and p: "?p = (if us = [] then 0 else last us)" and h: "h = (if us = [] then b else hd us)"
    using seg_hd [OF V] seg_last [OF U] seg_hd [OF U] by simp_all
  have nz: "x \<noteq> 0" if "x \<in> X" for x
    using spreadD(1) [OF sp that] .
  have nin: "hd vs \<in> set vs" if "vs \<noteq> []"
    using that by simp
  have pin: "last us \<in> set us" if "us \<noteq> []"
    using that by simp
  have sub: "set us \<subseteq> X" "set vs \<subseteq> X" "b \<in> X"
    using xs(3) uv by auto
  have dist: "distinct us" "distinct vs" "b \<notin> set us" "b \<notin> set vs" "set us \<inter> set vs = {}"
    using xs(2) uv by auto
  show nX: "?n \<noteq> 0 \<Longrightarrow> ?n \<in> X" and pX: "?p \<noteq> 0 \<Longrightarrow> ?p \<in> X"
    using n p nin pin sub by (auto split: if_splits)
  show "h = b \<longleftrightarrow> ?p = 0"
  proof (cases "us = []")
    case False
    then have "last us \<noteq> 0" "hd us \<noteq> b"
      using pin [OF False] nz [of "last us"] sub(1) dist(3) hd_in_set [OF False] by blast+
    then show ?thesis
      using h p False by simp
  qed (use h p in simp)
  have V1: "seg m1 ?p ?n vs q 0" if "vs \<noteq> []"
  proof -
    from that obtain v vs' where v: "vs = v # vs'"
      unfolding neq_Nil_conv by blast
    have "m1 = m(prev_at v := ?p)"
      using n v nz [of v] sub(2) m1 by simp
    moreover have "seg (m(prev_at v := ?p)) ?p ?n (v # vs') q 0"
      by (rule seg_relink_prev [OF _ sp]) (use V v sub(2) dist(2) in auto)
    ultimately show ?thesis
      by (simp only: v)
  qed
  have ends: "?n \<in> set vs" if "?n \<noteq> 0"
    using that n nin by (auto split: if_splits)
  have starts: "?p \<in> set us" if "?p \<noteq> 0"
    using that p pin by (auto split: if_splits)
  have same1: "m1 (next_at x) = m (next_at x)" "x \<noteq> ?n \<Longrightarrow> m1 (prev_at x) = m (prev_at x)" if "x \<in> X" for x
    using that m1 ends sub(2) spreadD(5) [OF sp, of ?n x] by auto
  have same2: "m2 (prev_at x) = m1 (prev_at x)" "x \<noteq> ?p \<Longrightarrow> m2 (next_at x) = m1 (next_at x)" if "x \<in> X" for x
    using that m2 starts sub(1) spreadD(4) [OF sp, of x ?p] by auto
  show "?n \<noteq> b"
    using ends dist(4) nz [OF sub(3)] by auto
  moreover have "b \<noteq> ?p"
    using starts dist(3) nz [OF sub(3)] by auto
  ultimately show "m2 (prev_at b) = m (prev_at b)" "m2 (next_at b) = m (next_at b)"
    "m1 (prev_at b) = m (prev_at b)" "m1 (next_at b) = m (next_at b)"
    using same1 [OF sub(3)] same2 [OF sub(3)] by simp_all
  have V2: "seg m2 ?p ?n vs q 0" if "vs \<noteq> []"
  proof -
    have "x \<noteq> ?p" "x \<in> X" if "x \<in> set vs" for x
      using that starts dist(5) sub(2) nz by auto
    then show ?thesis
      using V1 [OF that] same2 by (subst seg_cong [of _ _ m1]) auto
  qed
  have U2: "seg m2 0 h us ?p ?n" if "us \<noteq> []"
  proof -
    from that obtain us' u where u: "us = us' @ [u]"
      by (metis append_butlast_last_id)
    have "x \<noteq> ?n" "x \<in> X" if "x \<in> set us" for x
      using that ends dist(5) sub(1) nz by auto
    then have "seg m1 0 h us ?p b"
      using U same1 by (subst seg_cong [of _ _ m]) auto
    moreover have "?p = u" "u \<noteq> 0"
      using p u nz [of u] sub(1) by auto
    then have "m2 = m1(next_at u := ?n)"
      using m2 by simp
    ultimately show ?thesis
      using seg_relink_next [OF _ sp, of m1 0 h us' u ?p b ?n] sub(1) dist(1) unfolding u by blast
  qed
  have "seg m2 0 (if h = b then ?n else h) (us @ vs) (if vs = [] then ?p else q) 0"
  proof (cases "us = []")
    case True
    then show ?thesis
      using V2 h p n by (cases "vs = []") (auto simp: seg_append)
  next
    case False
    then have "h \<noteq> b"
      using h dist(3) hd_in_set [of us] by metis
    then show ?thesis
      using U2 [OF False] V2 n by (cases "vs = []") (auto simp: seg_append)
  qed
  then show "list_in m2 (if h = b then ?n else h) (X - {b})"
    unfolding list_in_def using xs(2,3) dist uv by (intro exI [of _ "us @ vs"]) auto
qed


definition frame :: "u32 \<Rightarrow> u32 set \<Rightarrow> mem \<Rightarrow> mem \<Rightarrow> bool" where
  "frame t X m m' \<longleftrightarrow> (\<forall>x. \<not> control t x \<and> x \<notin> prev_at ` X \<and> x \<notin> next_at ` X \<longrightarrow> m' x = m x)"

lemma free_listsD:
  assumes "free_lists t m F"
  shows "index_ok t m" "single_valued F" "spread t (Domain F)"
    "fl < REAL_FLI \<Longrightarrow> sl < MAX_SLI \<Longrightarrow> list_in m (m (matrix_at t (int fl) (int sl))) (class_of F fl sl)"
    "fl < REAL_FLI \<Longrightarrow> sl < MAX_SLI \<Longrightarrow> 0 \<notin> class_of F fl sl"
  using assms class_of_sub [of F fl sl] by (auto simp: free_lists_def spread_def)

lemma in_32: "fl < REAL_FLI \<Longrightarrow> fl < 32" "sl < MAX_SLI \<Longrightarrow> sl < 32"
  by (simp_all add: REAL_FLI_def MAX_SLI_def)

lemma insert_words:
  assumes fs: "fl < REAL_FLI" "sl < MAX_SLI" and h: "h = m (matrix_at t (int fl) (int sl))"
    and c: "\<not> control t (prev_at b)" "\<not> control t (next_at b)" "h \<noteq> 0 \<Longrightarrow> \<not> control t (prev_at h)"
    and m1: "m1 = (if h \<noteq> 0 then m(prev_at b := 0, next_at b := h, prev_at h := b) else m(prev_at b := 0, next_at b := h))"
  shows "INSERT_BLOCK b t (int fl) (int sl) m = m1(matrix_at t (int fl) (int sl) := b,
    sl_at t (int fl) := m (sl_at t (int fl)) OR push_bit sl 1, fl_at t := m (fl_at t) OR push_bit fl 1)"
proof -
  note ctl = control_index [OF fs, of t]
  note ne = not_control [OF ctl(1) c(1)] not_control [OF ctl(2) c(1)] not_control [OF ctl(3) c(1)]
    not_control [OF ctl(1) c(2)] not_control [OF ctl(2) c(2)] not_control [OF ctl(3) c(2)]
  have ne': "h \<noteq> 0 \<Longrightarrow> fl_at t \<noteq> prev_at h \<and> sl_at t (int fl) \<noteq> prev_at h \<and> matrix_at t (int fl) (int sl) \<noteq> prev_at h"
    using ctl c(3) by auto
  note idx = index_distinct [OF fs fs, of t]
  show ?thesis
    unfolding INSERT_BLOCK_def Let_def set_bit_eq [OF in_32(1) [OF fs(1)]] set_bit_eq [OF in_32(2) [OF fs(2)]]
    using ne ne' idx h m1 by (cases "h = 0") (auto simp: fun_eq_iff)
qed


lemma list_in_control:
  assumes "list_in m h X" "spread t X" "\<And>x. \<not> control t x \<Longrightarrow> m' x = m x"
  shows "list_in m' h X"
  using assms(1) by (rule list_in_cong) (use spreadD(2,3) [OF assms(2)] assms(3) in auto)

text \<open>Lists of other classes do not change when the links of \<open>Y\<close> do.\<close>

lemma other_list:
  assumes "free_lists t m F" "f < REAL_FLI" "s < MAX_SLI" "frame t Y m m'" "Y \<inter> class_of F f s = {}" "spread t (Y \<union> Domain F)"
    and "m' (matrix_at t (int f) (int s)) = m (matrix_at t (int f) (int s))"
  shows "list_in m' (m' (matrix_at t (int f) (int s))) (class_of F f s)"
  unfolding assms(7) using free_listsD(4) [OF assms(1-3)]
proof (rule list_in_cong)
  fix x assume x: "x \<in> class_of F f s"
  then have "x \<in> Y \<union> Domain F" "x \<notin> Y"
    using assms(5) class_of_sub [of F f s] by blast+
  then have "prev_at x \<notin> prev_at ` Y" "next_at x \<notin> next_at ` Y" "\<not> control t (prev_at x)" "\<not> control t (next_at x)"
    using spreadD [OF assms(6)] by auto
  moreover have "prev_at x \<notin> next_at ` Y" "next_at x \<notin> prev_at ` Y"
    using spreadD(4,5) [OF assms(6)] \<open>x \<in> Y \<union> Domain F\<close> by blast+
  ultimately show "m' (prev_at x) = m (prev_at x) \<and> m' (next_at x) = m (next_at x)"
    using assms(4) unfolding frame_def by blast
qed

lemma insert_free:
  assumes ok: "free_lists t m F" and b: "b \<notin> Domain F" "spread t (insert b (Domain F))"
    and cl: "MAPPING_INSERT z = (int fl, int sl)" and fs: "fl < REAL_FLI" "sl < MAX_SLI"
    and m': "m' = INSERT_BLOCK b t (int fl) (int sl) m"
  shows "free_lists t m' (insert (b, z) F)" "frame t (insert b (Domain F)) m m'"
proof -
  define h where "h = m (matrix_at t (int fl) (int sl))"
  define m1 where "m1 = (if h \<noteq> 0 then m(prev_at b := 0, next_at b := h, prev_at h := b) else m(prev_at b := 0, next_at b := h))"
  let ?X = "insert b (Domain F)"
  have L: "list_in m h (class_of F fl sl)" "0 \<notin> class_of F fl sl"
    using free_listsD(4,5) [OF ok fs] by (simp_all add: h_def)
  have hX: "h \<in> class_of F fl sl" "h \<in> ?X" if "h \<noteq> 0"
    using list_in_hd(2) [OF L that] class_of_sub by auto
  have eq: "m' = m1(matrix_at t (int fl) (int sl) := b,
    sl_at t (int fl) := m (sl_at t (int fl)) OR push_bit sl 1, fl_at t := m (fl_at t) OR push_bit fl 1)"
    unfolding m' by (rule insert_words [OF fs h_def _ _ _ m1_def]) (use spreadD(2,3) [OF b(2)] hX in auto)
  have fr: "frame t (if h = 0 then {b} else {b, h}) m m'"
    using control_index [OF fs, of t] by (auto simp: frame_def eq m1_def)
  then show "frame t ?X m m'"
    using hX by (auto simp: frame_def split: if_splits)
  have ctl: "m1 x = m x" if "control t x" for x
  proof -
    have "x \<noteq> prev_at b \<and> x \<noteq> next_at b" "h \<noteq> 0 \<longrightarrow> x \<noteq> prev_at h"
      using that spreadD(2,3) [OF b(2), of b] spreadD(2) [OF b(2) hX(2)] by auto
    then show ?thesis
      by (auto simp: m1_def)
  qed
  have words: "m' (matrix_at t (int f) (int s)) = (if f = fl \<and> s = sl then b else m (matrix_at t (int f) (int s)))"
    "m' (sl_at t (int f)) = (if f = fl then m (sl_at t (int f)) OR push_bit sl 1 else m (sl_at t (int f)))"
    "m' (fl_at t) = m (fl_at t) OR push_bit fl 1" if "f < REAL_FLI" "s < MAX_SLI" for f s
    using index_distinct [OF that fs, of t] index_distinct [OF fs that, of t] control_index [OF that, of t] ctl by (auto simp: eq)
  have "index_ok t m'"
    using fs words b spreadD(1) [OF b(2)] by (intro index_ok_set [OF free_listsD(1) [OF ok] fs]) auto
  moreover have "list_in m' (m' (matrix_at t (int f) (int s))) (class_of (insert (b, z) F) f s)"
    if r: "f < REAL_FLI" "s < MAX_SLI" for f s
  proof (cases "f = fl \<and> s = sl")
    case True
    have "b \<notin> class_of F fl sl" and sp: "spread t (insert b (class_of F fl sl))"
      using b class_of_sub [of F fl sl] by (auto intro: spread_mono)
    then have "list_in m1 b (insert b (class_of F fl sl))"
      using list_in_push [OF L(1) _ _ m1_def] by blast
    then have "list_in m' b (insert b (class_of F fl sl))"
      by (rule list_in_control [OF _ sp]) (use control_index [OF fs, of t] in \<open>auto simp: eq\<close>)
    then show ?thesis
      using True words(1) [OF fs] by (simp add: class_of_insert [OF cl])
  next
    case False
    then have "(if h = 0 then {b} else {b, h}) \<inter> class_of F f s = {}"
      using b(1) class_of_sub [of F f s] class_of_unique [OF free_listsD(2) [OF ok] hX(1)] by auto
    then have "list_in m' (m' (matrix_at t (int f) (int s))) (class_of F f s)"
      using hX(2) words(1) [OF r] False by (intro other_list [OF ok r fr]) (auto intro: spread_mono [OF b(2)])
    then show ?thesis
      unfolding class_of_insert [OF cl] if_not_P [OF False] .
  qed
  moreover have "single_valued (insert (b, z) F)"
    using free_listsD(2) [OF ok] b(1) by (auto simp: single_valued_def)
  ultimately show "free_lists t m' (insert (b, z) F)"
    using b(2) by (simp add: free_lists_def)
qed


lemma extract_words:
  assumes fs: "fl < REAL_FLI" "sl < MAX_SLI" and h: "h = m (matrix_at t (int fl) (int sl))"
    and n: "n = m (next_at b)" "n \<noteq> 0 \<Longrightarrow> \<not> control t (prev_at n)" and p: "p = m (prev_at b)" "p \<noteq> 0 \<Longrightarrow> \<not> control t (next_at p)"
    and c: "\<not> control t (prev_at b)" "\<not> control t (next_at b)"
    and m1: "m1 = (if n \<noteq> 0 then m(prev_at n := p) else m)" and m2: "m2 = (if p \<noteq> 0 then m1(next_at p := n) else m1)"
    and k: "m1 (prev_at b) = p" "m1 (next_at b) = n" "m2 (next_at b) = n"
    and w: "w = m (sl_at t (int fl)) AND NOT (push_bit sl 1)"
  shows "EXTRACT_BLOCK b t (int fl) (int sl) m = m2(matrix_at t (int fl) (int sl) := if h = b then n else h,
    sl_at t (int fl) := if h = b \<and> n = 0 then w else m (sl_at t (int fl)),
    fl_at t := if h = b \<and> n = 0 \<and> w = 0 then m (fl_at t) AND NOT (push_bit fl 1) else m (fl_at t),
    prev_at b := 0, next_at b := 0)"
proof -
  note ctl = control_index [OF fs, of t]
  note idx = index_distinct [OF fs fs, of t]
  have m2c: "m2 x = m x" if "control t x" for x
  proof -
    have "n \<noteq> 0 \<longrightarrow> x \<noteq> prev_at n" "p \<noteq> 0 \<longrightarrow> x \<noteq> next_at p"
      using that n(2) p(2) by blast+
    then show ?thesis
      by (auto simp: m1 m2)
  qed
  have m2': "(if m1 (prev_at b) \<noteq> 0 then m1(next_at (m1 (prev_at b)) := m1 (next_at b)) else m1) = m2"
    using k m2 by simp
  have ne: "next_at b \<noteq> fl_at t" "next_at b \<noteq> sl_at t (int fl)" "next_at b \<noteq> matrix_at t (int fl) (int sl)"
    using not_control c(2) ctl by blast+
  show ?thesis
    unfolding EXTRACT_BLOCK_def Let_def n(1) [symmetric] p(1) [symmetric] m1 [symmetric] m2' clear_bit_eq [OF in_32(1) [OF fs(1)]]
      clear_bit_eq [OF in_32(2) [OF fs(2)]]
    using idx m2c [OF ctl(1)] m2c [OF ctl(2)] m2c [OF ctl(3)] k(3) h w by (auto simp: fun_eq_iff)
qed

lemma extract_hdr_eq:
  assumes fs: "fl < REAL_FLI" "sl < MAX_SLI" and h: "m (matrix_at t (int fl) (int sl)) = b" and p: "m (prev_at b) = 0"
    and n: "m (next_at b) \<noteq> 0 \<Longrightarrow> \<not> control t (prev_at (m (next_at b)))" "m (next_at b) \<noteq> 0 \<Longrightarrow> prev_at (m (next_at b)) \<noteq> next_at b"
      "m (next_at b) \<noteq> b"
    and c: "\<not> control t (prev_at b)" "\<not> control t (next_at b)"
  shows "EXTRACT_BLOCK_HDR b t (int fl) (int sl) m = EXTRACT_BLOCK b t (int fl) (int sl) m"
proof -
  note ctl = control_index [OF fs, of t]
  note ne = not_control [OF ctl(1) c(1)] not_control [OF ctl(2) c(1)] not_control [OF ctl(3) c(1)]
    not_control [OF ctl(1) c(2)] not_control [OF ctl(2) c(2)] not_control [OF ctl(3) c(2)]
  have ne': "m (next_at b) \<noteq> 0 \<Longrightarrow> fl_at t \<noteq> prev_at (m (next_at b)) \<and> sl_at t (int fl) \<noteq> prev_at (m (next_at b)) \<and>
      matrix_at t (int fl) (int sl) \<noteq> prev_at (m (next_at b))"
    using ctl n(1) by auto
  note idx = index_distinct [OF fs fs, of t]
  show ?thesis
    unfolding EXTRACT_BLOCK_HDR_def EXTRACT_BLOCK_def Let_def
    using ne ne' idx h p n(2,3) by (cases "m (next_at b) = 0") (simp_all add: fun_eq_iff)
qed


lemma extract_free:
  assumes ok: "free_lists t m F" and b: "(b, z) \<in> F" and cl: "MAPPING_INSERT z = (int fl, int sl)"
    and fs: "fl < REAL_FLI" "sl < MAX_SLI" and m': "m' = EXTRACT_BLOCK b t (int fl) (int sl) m"
  shows "free_lists t m' (F - {(b, z)})" "frame t (Domain F) m m'"
    "m (matrix_at t (int fl) (int sl)) = b \<Longrightarrow> EXTRACT_BLOCK_HDR b t (int fl) (int sl) m = m'"
proof -
  note sv = free_listsD(2) [OF ok] and sp = free_listsD(3) [OF ok]
  let ?X = "class_of F fl sl"
  define h n p where "h = m (matrix_at t (int fl) (int sl))" and "n = m (next_at b)" and "p = m (prev_at b)"
  define m1 where "m1 = (if n \<noteq> 0 then m(prev_at n := p) else m)"
  define m2 where "m2 = (if p \<noteq> 0 then m1(next_at p := n) else m1)"
  define w where "w = m (sl_at t (int fl)) AND NOT (push_bit sl 1)"
  have L: "list_in m h ?X" "0 \<notin> ?X"
    using free_listsD(4,5) [OF ok fs] by (simp_all add: h_def)
  have X: "b \<in> ?X" "spread t ?X" "?X \<subseteq> Domain F"
    using b cl spread_mono [OF sp class_of_sub] class_of_sub by (auto simp: class_of_def)
  note R = list_in_remove [OF L(1) X(1,2), folded n_def p_def, OF m1_def m2_def]
  note sb = spreadD [OF X(2,1)] and sn = spreadD [OF X(2) R(7)] and spp = spreadD [OF X(2) R(8)]
  have eq: "m' = m2(matrix_at t (int fl) (int sl) := if h = b then n else h,
    sl_at t (int fl) := if h = b \<and> n = 0 then w else m (sl_at t (int fl)),
    fl_at t := if h = b \<and> n = 0 \<and> w = 0 then m (fl_at t) AND NOT (push_bit fl 1) else m (fl_at t),
    prev_at b := 0, next_at b := 0)"
    unfolding m' by (rule extract_words [OF fs h_def n_def _ p_def _ sb(2,3) m1_def m2_def R(5,6,3) w_def]) (use sn(2) spp(3) in auto)
  have fr: "frame t ?X m m'"
    using control_index [OF fs, of t] R(7,8) X(1) by (auto simp: frame_def eq m1_def m2_def)
  then show "frame t (Domain F) m m'"
    using X(3) unfolding frame_def by blast
  show "EXTRACT_BLOCK_HDR b t (int fl) (int sl) m = m'" if "m (matrix_at t (int fl) (int sl)) = b"
  proof -
    have "p = 0"
      using R(4) that by (simp add: h_def)
    moreover have "n \<noteq> b" "n \<noteq> 0 \<Longrightarrow> prev_at n \<noteq> next_at b"
      using R(9) sn(4) X(1) by auto
    ultimately show ?thesis
      unfolding m' using that sn(2) sb(2,3) by (intro extract_hdr_eq [OF fs]) (auto simp: n_def p_def)
  qed
  have ctl: "m' x = (m2(matrix_at t (int fl) (int sl) := if h = b then n else h,
    sl_at t (int fl) := if h = b \<and> n = 0 then w else m (sl_at t (int fl)),
    fl_at t := if h = b \<and> n = 0 \<and> w = 0 then m (fl_at t) AND NOT (push_bit fl 1) else m (fl_at t))) x"
    "m2 x = m x" if "control t x" for x
  proof -
    have "x \<noteq> prev_at b" "x \<noteq> next_at b" "n \<noteq> 0 \<longrightarrow> x \<noteq> prev_at n" "p \<noteq> 0 \<longrightarrow> x \<noteq> next_at p"
      using that sb(2,3) sn(2) spp(3) by blast+
    then show "m2 x = m x" "m' x = (m2(matrix_at t (int fl) (int sl) := if h = b then n else h,
      sl_at t (int fl) := if h = b \<and> n = 0 then w else m (sl_at t (int fl)),
      fl_at t := if h = b \<and> n = 0 \<and> w = 0 then m (fl_at t) AND NOT (push_bit fl 1) else m (fl_at t))) x"
      by (simp_all add: eq m1_def m2_def)
  qed
  have words: "m' (matrix_at t (int f) (int s)) = (if f = fl \<and> s = sl then if h = b then n else h else m (matrix_at t (int f) (int s)))"
    "m' (sl_at t (int f)) = (if f = fl \<and> h = b \<and> n = 0 then w else m (sl_at t (int f)))"
    "m' (fl_at t) = (if h = b \<and> n = 0 \<and> w = 0 then m (fl_at t) AND NOT (push_bit fl 1) else m (fl_at t))"
    if "f < REAL_FLI" "s < MAX_SLI" for f s
    using index_distinct [OF that fs, of t] index_distinct [OF fs that, of t] control_index [OF that, of t] ctl by auto
  have "index_ok t m'"
  proof (cases "h = b \<and> n = 0")
    case True
    then show ?thesis
      using words fs by (intro index_ok_clear [OF free_listsD(1) [OF ok] fs w_def]) auto
  next
    case False
    moreover have "h \<noteq> 0"
      using list_in_hd(1) [OF L] X(1) by auto
    ultimately show ?thesis
      using words fs by (intro index_ok_cong [OF free_listsD(1) [OF ok]]) (auto simp: h_def)
  qed
  moreover have "list_in m' (m' (matrix_at t (int f) (int s))) (class_of (F - {(b, z)}) f s)"
    if r: "f < REAL_FLI" "s < MAX_SLI" for f s
  proof (cases "f = fl \<and> s = sl")
    case True
    have "list_in m' (if h = b then n else h) (?X - {b})"
    proof (rule list_in_cong [OF R(1)])
      fix x assume x: "x \<in> ?X - {b}"
      then have "prev_at x \<noteq> next_at b" "next_at x \<noteq> prev_at b" "\<not> control t (prev_at x)" "\<not> control t (next_at x)"
        using spreadD [OF X(2), of x] spreadD(5) [OF X(2) X(1), of x] X(1) by blast+
      then show "m' (prev_at x) = m2 (prev_at x) \<and> m' (next_at x) = m2 (next_at x)"
        using x not_control control_index [OF fs, of t] by (auto simp: eq)
    qed
    then show ?thesis
      using True words(1) [OF fs] by (simp add: class_of_remove [OF cl b sv])
  next
    case False
    then have "?X \<inter> class_of F f s = {}"
      using class_of_unique [OF sv] by blast
    then have "list_in m' (m' (matrix_at t (int f) (int s))) (class_of F f s)"
      using words(1) [OF r] False X(3) by (intro other_list [OF ok r fr]) (auto intro: spread_mono [OF sp])
    then show ?thesis
      unfolding class_of_remove [OF cl b sv] if_not_P [OF False] .
  qed
  moreover have "single_valued (F - {(b, z)})" "spread t (Domain (F - {(b, z)}))"
    using sv by (auto simp: single_valued_def intro!: spread_mono [OF sp])
  ultimately show "free_lists t m' (F - {(b, z)})"
    by (simp add: free_lists_def)
qed

end
