(* ===== verification/Tlsf_Blocks.thy ===== *)
theory Tlsf_Blocks
  imports Tlsf_Lists
begin

text \<open>
  The blocks of a TLSF pool: they tile the area, their headers hold their sizes and states, and the lists hold the
  free ones. \<open>malloc_ex\<close> and \<open>free_ex\<close> implement allocation and release on the list of blocks.
\<close>

unbundle bit_operations_syntax

section \<open>Headers\<close>

definition hdr :: "nat \<Rightarrow> bool \<Rightarrow> bool \<Rightarrow> u32" where
  "hdr z f pf = of_nat z OR (if f then FREE_BLOCK else 0) OR (if pf then PREV_FREE else 0)"

lemma low_bits:
  assumes "4 dvd z" "z < 2 ^ 32" "n < 2"
  shows "\<not> bit (of_nat z :: u32) n"
proof -
  have "unat (of_nat z :: u32) = z"
    using assms(2) by (simp add: unat_of_nat)
  then have "(of_nat z :: u32) AND NOT (mask 2) = of_nat z"
    using block_size_dvd [of "of_nat z"] assms(1) by (simp add: block_size_mask)
  then show ?thesis
    using assms(3) by (metis bit_and_iff bit_mask_iff bit_not_iff)
qed

lemma flag_bits: "FREE_BLOCK = push_bit 0 1" "PREV_FREE = push_bit 1 1" "PREV_STATE = push_bit 1 1"
  by (simp_all add: FREE_BLOCK_def PREV_FREE_def PREV_STATE_def)

lemma hdr_bit:
  assumes "4 dvd z" "z < 2 ^ 32"
  shows "bit (hdr z f pf) n \<longleftrightarrow> (if n = 0 then f else if n = 1 then pf else bit (of_nat z :: u32) n)"
  using low_bits [OF assms, of n] unfolding hdr_def flag_bits by (auto simp: bit_simps split: if_splits)

lemma hdr_bits:
  assumes "4 dvd z" "z < 2 ^ 32"
  shows "hdr z f pf AND BLOCK_SIZE = of_nat z" "hdr z f pf AND FREE_BLOCK \<noteq> 0 \<longleftrightarrow> f" "hdr z f pf AND PREV_FREE \<noteq> 0 \<longleftrightarrow> pf"
    "hdr z f pf OR FREE_BLOCK = hdr z True pf" "hdr z f pf OR PREV_FREE = hdr z f True"
    "hdr z f pf AND NOT FREE_BLOCK = hdr z False pf" "hdr z f pf AND NOT PREV_FREE = hdr z f False"
    "of_nat y OR (hdr z f pf AND PREV_STATE) = hdr y False pf"
proof -
  note bits = hdr_bit [OF assms]
  have set: "w AND push_bit k 1 \<noteq> 0 \<longleftrightarrow> bit w k" if "k < 32" for w :: u32 and k
    using that by (auto simp: word_eq_0_iff_bit bit_simps)
  show "hdr z f pf AND BLOCK_SIZE = of_nat z"
    unfolding block_size_mask by (rule bit_word_eqI) (use low_bits [OF assms] in \<open>auto simp: bit_simps bits\<close>)
  show "hdr z f pf AND FREE_BLOCK \<noteq> 0 \<longleftrightarrow> f" "hdr z f pf AND PREV_FREE \<noteq> 0 \<longleftrightarrow> pf"
    unfolding flag_bits by (subst set, simp, simp add: bits)+
  show "hdr z f pf OR FREE_BLOCK = hdr z True pf" "hdr z f pf OR PREV_FREE = hdr z f True"
    "hdr z f pf AND NOT FREE_BLOCK = hdr z False pf" "hdr z f pf AND NOT PREV_FREE = hdr z f False"
    unfolding flag_bits by (rule bit_word_eqI; auto simp: bits bit_simps)+
  have "hdr z f pf AND PREV_STATE = (if pf then PREV_FREE else 0)"
    unfolding flag_bits by (rule bit_word_eqI) (auto simp: bits bit_simps)
  then show "of_nat y OR (hdr z f pf AND PREV_STATE) = hdr y False pf"
    by (simp add: hdr_def)
qed

lemma hdr_add:
  assumes "4 dvd z" "4 dvd y" "z + y < 2 ^ 32"
  shows "hdr z f pf + of_nat y = hdr (z + y) f pf"
proof -
  define w :: u32 where "w = (if f then FREE_BLOCK else 0) OR (if pf then PREV_FREE else 0)"
  have w: "bit w n \<Longrightarrow> n < 2" for n
    unfolding w_def flag_bits by (auto simp: bit_simps split: if_splits)
  have "hdr x f pf = of_nat x + w" if "4 dvd x" "x < 2 ^ 32" for x
  proof -
    have "of_nat x AND w = 0"
      using low_bits [OF that] w by (auto intro!: bit_word_eqI simp: bit_simps)
    then have "of_nat x + w = of_nat x OR w"
      by (simp add: disjunctive_add_eq_or)
    then show ?thesis
      by (simp add: hdr_def w_def or.assoc)
  qed
  from this [OF assms(1)] this [of "z + y"] show ?thesis
    using assms by simp
qed


section \<open>Blocks\<close>

text \<open>A block: its offset from the pool, its size without the header and whether it is free.\<close>

type_synonym block = "nat \<times> nat \<times> bool"

fun tiles :: "nat \<Rightarrow> block list \<Rightarrow> nat \<Rightarrow> bool" where
  "tiles a [] e \<longleftrightarrow> a = e"
| "tiles a ((i, z, f) # bs) e \<longleftrightarrow> i = a \<and> 8 \<le> z \<and> 4 dvd z \<and> tiles (a + 8 + z) bs e"

text \<open>The headers, where \<open>pv\<close> is the block before when it is free.\<close>

fun hdrs :: "u32 \<Rightarrow> mem \<Rightarrow> nat option \<Rightarrow> block list \<Rightarrow> bool" where
  "hdrs t m pv [] \<longleftrightarrow> True"
| "hdrs t m pv ((i, z, f) # bs) \<longleftrightarrow> m (size_at (t + of_nat i)) = hdr z f (pv \<noteq> None) \<and>
     (pv \<noteq> None \<longrightarrow> m (prev_hdr_at (t + of_nat i)) = t + of_nat (the pv)) \<and> hdrs t m (if f then Some i else None) bs"

fun free_before :: "nat option \<Rightarrow> block list \<Rightarrow> nat option" where
  "free_before pv [] = pv"
| "free_before pv ((i, z, f) # bs) = free_before (if f then Some i else None) bs"

fun no_adjacent :: "block list \<Rightarrow> bool" where
  "no_adjacent ((i, z, f) # (j, y, g) # bs) \<longleftrightarrow> \<not> (f \<and> g) \<and> no_adjacent ((j, y, g) # bs)"
| "no_adjacent bs \<longleftrightarrow> True"

definition frees :: "u32 \<Rightarrow> block list \<Rightarrow> (u32 \<times> u32) set" where
  "frees t bs = {(t + of_nat i, of_nat z) | i z. (i, z, True) \<in> set bs}"

text \<open>
  A pool: the blocks tile the area from \<open>lo\<close> to \<open>e\<close>, where a used block without a buffer ends it.
\<close>

definition layout :: "u32 \<Rightarrow> nat \<Rightarrow> nat \<Rightarrow> bool" where
  "layout t lo e \<longleftrightarrow> unat sizeof_tlsf \<le> lo \<and> e < 2 ^ 30 \<and> unat t + e + 8 \<le> 2 ^ 32"

definition pool_rep :: "u32 \<Rightarrow> nat \<Rightarrow> nat \<Rightarrow> mem \<Rightarrow> block list \<Rightarrow> bool" where
  "pool_rep t lo e m bs \<longleftrightarrow> layout t lo e \<and> tiles lo bs e \<and> no_adjacent bs \<and>
     hdrs t m None (bs @ [(e, 0, False)]) \<and> free_lists t m (frees t bs)"

lemma tiles_append: "tiles a (xs @ ys) e \<longleftrightarrow> (\<exists>c. tiles a xs c \<and> tiles c ys e)"
  by (induction a xs e arbitrary: rule: tiles.induct) auto

lemma tiles_le: "tiles a bs e \<Longrightarrow> a \<le> e"
  by (induction a bs e rule: tiles.induct) auto

lemma tiles_in: "tiles a bs e \<Longrightarrow> (i, z, f) \<in> set bs \<Longrightarrow> a \<le> i \<and> i + 8 + z \<le> e \<and> 8 \<le> z \<and> 4 dvd z"
  by (induction a bs e rule: tiles.induct) (auto dest: tiles_le)

lemma tiles_apart:
  "tiles a bs e \<Longrightarrow> (i, z, f) \<in> set bs \<Longrightarrow> (j, y, g) \<in> set bs \<Longrightarrow>
   i = j \<and> z = y \<and> f = g \<or> i + 8 + z \<le> j \<or> j + 8 + y \<le> i"
  by (induction a bs e rule: tiles.induct) (auto dest: tiles_in)

lemma hdrs_append: "hdrs t m pv (xs @ ys) \<longleftrightarrow> hdrs t m pv xs \<and> hdrs t m (free_before pv xs) ys"
  by (induction pv xs rule: free_before.induct) auto

lemma free_before_append: "free_before pv (xs @ ys) = free_before (free_before pv xs) ys"
  by (induction pv xs rule: free_before.induct) auto

lemma hdrs_cong:
  assumes "\<And>i z f. (i, z, f) \<in> set bs \<Longrightarrow> m' (t + of_nat i) = m (t + of_nat i) \<and> m' (size_at (t + of_nat i)) = m (size_at (t + of_nat i))"
  shows "hdrs t m' pv bs \<longleftrightarrow> hdrs t m pv bs"
  using assms by (induction bs arbitrary: pv) fastforce+

lemma no_adjacent_append:
  "no_adjacent (xs @ ys) \<longleftrightarrow> no_adjacent xs \<and> no_adjacent ys \<and> (xs \<noteq> [] \<and> ys \<noteq> [] \<longrightarrow> \<not> (snd (snd (last xs)) \<and> snd (snd (hd ys))))"
proof (induction xs)
  case (Cons x xs)
  then show ?case
    by (cases x; cases xs; cases ys) auto
qed simp

lemma no_adjacent_Cons: "no_adjacent ((i, z, f) # ys) \<longleftrightarrow> no_adjacent ys \<and> (f \<and> ys \<noteq> [] \<longrightarrow> \<not> snd (snd (hd ys)))"
  by (cases ys rule: no_adjacent.cases) auto

section \<open>Words of a pool\<close>

definition addrs :: "u32 \<Rightarrow> block list \<Rightarrow> u32 set" where
  "addrs t bs = {t + of_nat i | i z f. (i, z, f) \<in> set bs}"

abbreviation with_end :: "block list \<Rightarrow> nat \<Rightarrow> block list" where
  "with_end bs e \<equiv> bs @ [(e, 0, False)]"

lemma addrsI: "(i, z, f) \<in> set bs \<Longrightarrow> t + of_nat i \<in> addrs t bs"
  unfolding addrs_def by blast

lemma at_offset:
  "size_at (t + of_nat i) = t + of_nat (i + 4)" "prev_at (t + of_nat i) = t + of_nat (i + 8)"
  "next_at (t + of_nat i) = t + of_nat (i + 12)" for t :: u32
  by simp_all

lemma control_offset: "n < 2 ^ 32 \<Longrightarrow> control t (t + of_nat n) \<longleftrightarrow> n < unat sizeof_tlsf"
  by (simp add: control_def unat_of_nat)

lemma with_end_in:
  assumes "tiles lo bs e" "(i, z, f) \<in> set (with_end bs e)"
  shows "lo \<le> i \<and> i \<le> e"
  using assms tiles_in [OF assms(1), of i z f] tiles_le [OF assms(1)] by auto

lemma with_end_apart:
  assumes "tiles lo bs e" "(i, z, f) \<in> set (with_end bs e)" "(j, y, g) \<in> set (with_end bs e)" "i \<noteq> j"
  shows "i + 16 \<le> j \<or> j + 16 \<le> i"
  using assms tiles_apart [OF assms(1), of i z f j y g] tiles_in [OF assms(1), of i z f] tiles_in [OF assms(1), of j y g] by auto

lemma pool_spread:
  assumes "layout t lo e" "tiles lo bs e"
  shows "spread t (addrs t bs)"
  unfolding spread_def
proof (intro ballI conjI)
  fix x assume "x \<in> addrs t bs"
  then obtain i z f where x: "x = t + of_nat i" "(i, z, f) \<in> set bs"
    by (auto simp: addrs_def)
  have i: "lo \<le> i" "i + 16 \<le> e"
    using tiles_in [OF assms(2) x(2)] by auto
  then have "unat x = unat t + i" "i < 2 ^ 30"
    using assms(1) by (simp_all add: x layout_def unat_word_ariths unat_of_nat)
  then show "x \<noteq> 0"
    using assms(1) i(1) by (auto simp: layout_def sizeof_tlsf_def)
  show "\<not> control t (prev_at x)" "\<not> control t (next_at x)"
    using i assms(1) unfolding x at_offset by (simp_all add: control_offset layout_def del: of_nat_add)
  fix y assume "y \<in> addrs t bs"
  then obtain j u g where y: "y = t + of_nat j" "(j, u, g) \<in> set bs"
    by (auto simp: addrs_def)
  have "j + 16 \<le> e"
    using tiles_in [OF assms(2) y(2)] by auto
  then show "prev_at x \<noteq> next_at y"
    using i assms(1) with_end_apart [OF assms(2), of i z f j u g] x(2) y(2) unfolding x y at_offset
    by (subst word_offset_eq) (auto simp: layout_def)
qed

lemma header_words:
  assumes "layout t lo e" "tiles lo bs e" "(i, z, f) \<in> set (with_end bs e)" "k = 0 \<or> k = 4"
  shows "\<not> control t (t + of_nat (i + k))" "t + of_nat (i + k) \<notin> prev_at ` addrs t bs" "t + of_nat (i + k) \<notin> next_at ` addrs t bs"
proof -
  have i: "lo \<le> i" "i \<le> e"
    using with_end_in [OF assms(2,3)] by auto
  then show "\<not> control t (t + of_nat (i + k))"
    using assms(1,4) by (subst control_offset) (auto simp: layout_def)
  have "t + of_nat (i + k) \<noteq> t + of_nat (j + l)" if "(j, y, g) \<in> set bs" "l = 8 \<or> l = 12" for j y g l
    using i tiles_in [OF assms(2) that(1)] with_end_apart [OF assms(2,3), of j y g] that assms(1,4)
    by (subst word_offset_eq) (auto simp: layout_def)
  then show "t + of_nat (i + k) \<notin> prev_at ` addrs t bs" "t + of_nat (i + k) \<notin> next_at ` addrs t bs"
    unfolding addrs_def by (auto simp: at_offset simp del: of_nat_add)
qed

lemma header_distinct:
  assumes "layout t lo e" "tiles lo bs e" "(i, z, f) \<in> set (with_end bs e)" "(j, y, g) \<in> set (with_end bs e)" "i \<noteq> j"
    and "k = 0 \<or> k = 4" "l = 0 \<or> l = 4"
  shows "t + of_nat (i + k) \<noteq> t + of_nat (j + l)"
  using with_end_in [OF assms(2,3)] with_end_in [OF assms(2,4)] with_end_apart [OF assms(2-5)] assms(1,6,7)
  by (subst word_offset_eq) (auto simp: layout_def)


lemma offset_in: "i \<in> fst ` A \<longleftrightarrow> (\<exists>z f. (i, z, f) \<in> A)" for A :: "block set"
  by force

text \<open>Links and control words do not matter to headers, and headers do not matter to the lists.\<close>

lemma hdrs_frame:
  assumes "layout t lo e" "tiles lo bs e" "frame t X m m'" "X \<subseteq> addrs t bs" "fst ` set cs \<subseteq> fst ` set (with_end bs e)"
  shows "hdrs t m' pv cs \<longleftrightarrow> hdrs t m pv cs"
proof (rule hdrs_cong)
  fix i z' f' assume "(i, z', f') \<in> set cs"
  then have "i \<in> fst ` set cs"
    unfolding offset_in by (intro exI)
  then have "i \<in> fst ` set (with_end bs e)"
    by (rule subsetD [OF assms(5)])
  then obtain z f where i: "(i, z, f) \<in> set (with_end bs e)"
    unfolding offset_in by blast
  have "m' (t + of_nat (i + k)) = m (t + of_nat (i + k))" if "k = 0 \<or> k = 4" for k
    using header_words [OF assms(1,2) i that] assms(3,4) unfolding frame_def by blast
  from this [of 0] this [of 4] show "m' (t + of_nat i) = m (t + of_nat i) \<and> m' (size_at (t + of_nat i)) = m (size_at (t + of_nat i))"
    unfolding at_offset by simp
qed

lemma free_lists_same:
  assumes "free_lists t m F" "\<And>x. control t x \<or> x \<in> prev_at ` Domain F \<or> x \<in> next_at ` Domain F \<Longrightarrow> m' x = m x"
  shows "free_lists t m' F"
proof -
  have c: "m' (fl_at t) = m (fl_at t)" "m' (sl_at t (int fl)) = m (sl_at t (int fl))"
    "m' (matrix_at t (int fl) (int sl)) = m (matrix_at t (int fl) (int sl))" if "fl < REAL_FLI" "sl < MAX_SLI" for fl sl
    using control_index [OF that, of t] assms(2) by auto
  have r: "0 < REAL_FLI" "0 < MAX_SLI"
    by (simp_all add: REAL_FLI_def MAX_SLI_def)
  have "index_ok t m'"
    using c r by (intro index_ok_cong [OF free_listsD(1) [OF assms(1)]]) auto
  moreover have "list_in m' (m' (matrix_at t (int fl) (int sl))) (class_of F fl sl)" if "fl < REAL_FLI" "sl < MAX_SLI" for fl sl
    unfolding c(3) [OF that] using free_listsD(4) [OF assms(1) that]
    by (rule list_in_cong) (use class_of_sub [of F fl sl] assms(2) in blast)
  ultimately show ?thesis
    using assms(1) by (simp add: free_lists_def)
qed

lemma free_lists_hdr:
  assumes "layout t lo e" "tiles lo bs e" "(i, z, f) \<in> set (with_end bs e)" "free_lists t m F" "Domain F \<subseteq> addrs t bs"
  shows "free_lists t (m(t + of_nat i := v)) F" "free_lists t (m(size_at (t + of_nat i) := v)) F"
proof -
  have "free_lists t (m(t + of_nat (i + k) := v)) F" if "k = 0 \<or> k = 4" for k
    using header_words [OF assms(1-3) that] assms(5) by (intro free_lists_same [OF assms(4)]) auto
  from this [of 0] this [of 4] show "free_lists t (m(t + of_nat i := v)) F" "free_lists t (m(size_at (t + of_nat i) := v)) F"
    unfolding at_offset by simp_all
qed

lemma header_eq:
  assumes "layout t lo e" "tiles lo bs e" "(i, z, f) \<in> set (with_end bs e)" "(j, y, g) \<in> set (with_end bs e)"
    and "k = 0 \<or> k = 4" "l = 0 \<or> l = 4"
  shows "t + of_nat (i + k) = t + of_nat (j + l) \<longleftrightarrow> i = j \<and> k = l"
proof (cases "i = j")
  case True
  then show ?thesis
    using with_end_in [OF assms(2,3)] assms(1,5,6) by (subst word_offset_eq) (auto simp: layout_def)
qed (use header_distinct [OF assms(1-4) _ assms(5,6)] in blast)

text \<open>The parts of a list of blocks lie apart.\<close>

lemma tiles_parts:
  assumes "tiles lo (xs @ (i, z, f) # ys) e"
  shows "(l, y, g) \<in> set xs \<Longrightarrow> l + 16 \<le> i" "with_end ys e = (n, nz, nf) # rest \<Longrightarrow> (l, y, g) \<in> set rest \<Longrightarrow> i + 24 + z \<le> l"
    "8 \<le> z" "4 dvd z" "i + 8 + z \<le> e"
proof -
  have t: "tiles lo xs i" "8 \<le> z" "4 dvd z" "tiles (i + 8 + z) ys e"
    using assms by (auto simp: tiles_append)
  then show "8 \<le> z" "4 dvd z" "i + 8 + z \<le> e"
    using tiles_le by auto
  show "(l, y, g) \<in> set xs \<Longrightarrow> l + 16 \<le> i"
    using tiles_in [OF t(1), of l y g] by auto
  assume r: "with_end ys e = (n, nz, nf) # rest" "(l, y, g) \<in> set rest"
  then obtain ys' where ys: "ys = (n, nz, nf) # ys'" "rest = with_end ys' e"
    by (cases ys) auto
  then have "tiles (i + 16 + z + nz) ys' e" "8 \<le> nz"
    using t(4) by (auto simp: algebra_simps)
  then show "i + 24 + z \<le> l"
    using with_end_in [of "i + 16 + z + nz" ys' e l y g] r(2) ys(2) by auto
qed

lemma frame_mono: "frame t X m m' \<Longrightarrow> X \<subseteq> Y \<Longrightarrow> frame t Y m m'"
  unfolding frame_def by blast

lemma frees_addrs: "Domain (frees t bs) \<subseteq> addrs t bs"
  by (auto simp: frees_def addrs_def)

lemma frees_append [simp]: "frees t (xs @ ys) = frees t xs \<union> frees t ys" "frees t [] = {}"
  "frees t ((i, z, f) # bs) = (if f then insert (t + of_nat i, of_nat z) (frees t bs) else frees t bs)"
  by (auto simp: frees_def)

lemma frees_outside:
  assumes "layout t lo e" "tiles lo (xs @ (i, z, f) # ys) e"
  shows "t + of_nat i \<notin> Domain (frees t (xs @ ys))"
proof
  assume "t + of_nat i \<in> Domain (frees t (xs @ ys))"
  then obtain j y where j: "t + of_nat i = t + of_nat j" "(j, y, True) \<in> set (xs @ ys)"
    unfolding frees_def by blast
  let ?bs = "xs @ (i, z, f) # ys"
  have "i < 2 ^ 32" "j < 2 ^ 32"
    using tiles_in [OF assms(2), of i z f] tiles_in [OF assms(2), of j y True] j(2) assms(1) by (auto simp: layout_def)
  then have "i = j"
    using j(1) by (subst (asm) word_offset_eq)
  moreover obtain a b where "tiles lo xs a" "a = i" "tiles (a + 8 + z) ys e" "8 \<le> z"
    using assms(2) by (auto simp: tiles_append)
  ultimately show False
    using j(2) tiles_in [of lo xs a j y True] tiles_in [of "a + 8 + z" ys e j y True] by auto
qed

lemma frees_remove:
  assumes "layout t lo e" "tiles lo (xs @ (i, z, True) # ys) e"
  shows "frees t (xs @ (i, z, True) # ys) - {(t + of_nat i, of_nat z)} = frees t (xs @ ys)"
  using frees_outside [OF assms] by auto

lemma next_block:
  assumes "tiles lo (xs @ (i, z, f) # ys) e"
  obtains nz nf rest where "with_end ys e = (i + 8 + z, nz, nf) # rest" "4 dvd nz" "nz < e \<or> nz = 0"
proof (cases ys)
  case Nil
  then show ?thesis
    using assms that [of 0 False "[]"] by (auto simp: tiles_append)
next
  case (Cons y ys')
  obtain j u g where y: "y = (j, u, g)"
    by (metis prod_cases3)
  then show ?thesis
    using assms Cons that [of u g "with_end ys' e"] tiles_in [OF assms, of j u g] by (auto simp: tiles_append)
qed

lemma hdrs_upd:
  assumes "layout t lo e" "tiles lo bs e" "(l, y, g) \<in> set (with_end bs e)" "fst ` set cs \<subseteq> fst ` set (with_end bs e)" "l \<notin> fst ` set cs"
  shows "hdrs t (m(size_at (t + of_nat l) := v)) pv cs \<longleftrightarrow> hdrs t m pv cs"
    "hdrs t (m(t + of_nat l := v)) pv cs \<longleftrightarrow> hdrs t m pv cs"
proof -
  have ne: "t + of_nat (i + k) \<noteq> t + of_nat (l + k')" if "(i, z, f) \<in> set cs" "k = 0 \<or> k = 4" "k' = 0 \<or> k' = 4" for i z f k k'
  proof -
    have i: "i \<in> fst ` set cs"
      using that(1) unfolding offset_in by (intro exI)
    then have "i \<in> fst ` set (with_end bs e)"
      by (rule subsetD [OF assms(4)])
    then obtain z' f' where "(i, z', f') \<in> set (with_end bs e)"
      unfolding offset_in by blast
    moreover have "i \<noteq> l"
      using i assms(5) by (metis)
    ultimately show ?thesis
      using header_eq [OF assms(1,2) _ assms(3) that(2,3)] by blast
  qed
  show "hdrs t (m(size_at (t + of_nat l) := v)) pv cs \<longleftrightarrow> hdrs t m pv cs"
  proof (rule hdrs_cong)
    fix i z f assume i: "(i, z, f) \<in> set cs"
    show "(m(size_at (t + of_nat l) := v)) (t + of_nat i) = m (t + of_nat i) \<and>
        (m(size_at (t + of_nat l) := v)) (size_at (t + of_nat i)) = m (size_at (t + of_nat i))"
      using ne [OF i, of 0 4] ne [OF i, of 4 4] unfolding at_offset by simp
  qed
  show "hdrs t (m(t + of_nat l := v)) pv cs \<longleftrightarrow> hdrs t m pv cs"
  proof (rule hdrs_cong)
    fix i z f assume i: "(i, z, f) \<in> set cs"
    show "(m(t + of_nat l := v)) (t + of_nat i) = m (t + of_nat i) \<and> (m(t + of_nat l := v)) (size_at (t + of_nat i)) = m (size_at (t + of_nat i))"
      using ne [OF i, of 0 0] ne [OF i, of 4 0] unfolding at_offset by simp
  qed
qed

lemma hdrs_link:
  assumes "layout t lo e" "tiles lo bs e" "x \<in> addrs t bs" "fst ` set cs \<subseteq> fst ` set (with_end bs e)"
  shows "hdrs t (m(prev_at x := v)) pv cs \<longleftrightarrow> hdrs t m pv cs" "hdrs t (m(next_at x := v)) pv cs \<longleftrightarrow> hdrs t m pv cs"
proof -
  have "frame t {x} m (m(prev_at x := v))" "frame t {x} m (m(next_at x := v))" "{x} \<subseteq> addrs t bs"
    using assms(3) by (simp_all add: frame_def)
  then show "hdrs t (m(prev_at x := v)) pv cs \<longleftrightarrow> hdrs t m pv cs" "hdrs t (m(next_at x := v)) pv cs \<longleftrightarrow> hdrs t m pv cs"
    using hdrs_frame [OF assms(1,2) _ _ assms(4)] by metis+
qed

lemma parts_apart:
  assumes "tiles lo (xs @ (i, z, f) # ys) e"
  shows "i \<notin> fst ` set xs" "i \<notin> fst ` set (with_end ys e)"
    "with_end ys e = (n, nz, nf) # rest \<Longrightarrow> n \<notin> fst ` set xs" "with_end ys e = (n, nz, nf) # rest \<Longrightarrow> n \<notin> fst ` set rest"
    "with_end ys e = (n, nz, nf) # rest \<Longrightarrow> n = i + 8 + z"
proof -
  show n: "with_end ys e = (n, nz, nf) # rest \<Longrightarrow> n = i + 8 + z"
    by (rule next_block [OF assms]) auto
  show "i \<notin> fst ` set xs"
    using tiles_parts(1) [OF assms] unfolding offset_in by fastforce
  show "i \<notin> fst ` set (with_end ys e)"
  proof
    assume "i \<in> fst ` set (with_end ys e)"
    then obtain y g where I: "(i, y, g) \<in> set (with_end ys e)"
      unfolding offset_in by blast
    have T: "tiles (i + 8 + z) ys e"
      using assms by (auto simp: tiles_append)
    show False
      using with_end_in [OF T I] by simp
  qed
  assume r: "with_end ys e = (n, nz, nf) # rest"
  show "n \<notin> fst ` set xs" "n \<notin> fst ` set rest"
    using tiles_parts(1) [OF assms] tiles_parts(2) [OF assms r] n [OF r] unfolding offset_in by fastforce+
qed

lemma pool_repD:
  assumes "pool_rep t lo e m bs"
  shows "layout t lo e" "tiles lo bs e" "no_adjacent bs" "hdrs t m None (with_end bs e)" "free_lists t m (frees t bs)"
  using assms by (simp_all add: pool_rep_def)

text \<open>A new header at the front, where the block behind it hears the same.\<close>

lemma hdrs_set:
  assumes "layout t lo e" "tiles lo bs e" "(i, y, g) \<in> set (with_end bs e)" "fst ` set rest \<subseteq> fst ` set (with_end bs e)" "i \<notin> fst ` set rest"
    and "hdrs t m pv ((i, z, f) # rest)" "rest = [] \<or> f' = f" "pv' = None \<or> pv' = pv" "v = hdr z' f' (pv' \<noteq> None)"
  shows "hdrs t (m(size_at (t + of_nat i) := v)) pv' ((i, z', f') # rest)"
  using assms(6-9) hdrs_upd(1) [OF assms(1-5)] by auto

lemma hdrs_set_prev:
  assumes "layout t lo e" "tiles lo bs e" "(i, y, g) \<in> set (with_end bs e)" "fst ` set rest \<subseteq> fst ` set (with_end bs e)" "i \<notin> fst ` set rest"
    and "hdrs t m (Some p) ((i, z, f) # rest)"
  shows "hdrs t (m(t + of_nat i := t + of_nat q)) (Some q) ((i, z, f) # rest)"
  using assms(6) hdrs_upd(2) [OF assms(1-5)] by auto

lemma frees_used: "frees t (xs @ (i, z, False) # ys) = frees t (xs @ ys)"
  by simp

lemma block_not_null:
  assumes "layout t lo e" "tiles lo bs e" "(i, z, f) \<in> set bs"
  shows "t + of_nat (i + 8) \<noteq> 0"
proof -
  have "i + 8 < e" "lo \<le> i"
    using tiles_in [OF assms(2,3)] by auto
  then have "unat (t + of_nat (i + 8)) = unat t + (i + 8)"
    using assms(1) by (subst unat_word_ariths) (simp add: layout_def unat_of_nat del: of_nat_add)
  then show ?thesis
    by (metis add_is_0 unat_0 zero_neq_numeral)
qed


section \<open>Buffers in use\<close>

text \<open>The words of the buffers in use, and that they do not change.\<close>

definition user :: "u32 \<Rightarrow> block list \<Rightarrow> u32 set" where
  "user t bs = {t + of_nat (j + k) | j k. \<exists>y. (j, y, False) \<in> set bs \<and> 8 \<le> k \<and> k < 8 + y}"

definition keeps :: "u32 \<Rightarrow> block list \<Rightarrow> mem \<Rightarrow> mem \<Rightarrow> bool" where
  "keeps t bs m m' \<longleftrightarrow> (\<forall>x \<in> user t bs. m' x = m x)"

lemma keeps_refl [simp]: "keeps t bs m m"
  by (simp add: keeps_def)

lemma keeps_trans: "keeps t bs m m1 \<Longrightarrow> keeps t bs m1 m2 \<Longrightarrow> keeps t bs m m2"
  by (simp add: keeps_def)

lemma user_simps [simp]: "user t [] = {}" "user t (xs @ ys) = user t xs \<union> user t ys"
  "user t ((i, z, True) # bs) = user t bs"
  by (auto simp: user_def)

lemma user_mono: "set xs \<subseteq> set ys \<Longrightarrow> user t xs \<subseteq> user t ys"
  unfolding user_def by blast

lemma user_words:
  assumes "layout t lo e" "tiles lo bs e" "set cs \<subseteq> set bs" "x \<in> user t cs"
  shows "\<not> control t x" "(l, y, g) \<in> set (with_end bs e) \<Longrightarrow> k = 0 \<or> k = 4 \<Longrightarrow> x \<noteq> t + of_nat (l + k)"
    "X \<subseteq> addrs t bs \<Longrightarrow> (\<And>j y. (j, y, False) \<in> set cs \<Longrightarrow> t + of_nat j \<notin> X) \<Longrightarrow> x \<notin> prev_at ` X \<and> x \<notin> next_at ` X"
proof -
  obtain j u d where x: "x = t + of_nat (j + d)" and j: "(j, u, False) \<in> set cs" "8 \<le> d" "d < 8 + u"
    using assms(4) unfolding user_def by blast
  then have in_bs: "(j, u, False) \<in> set bs"
    using assms(3) by blast
  note J = tiles_in [OF assms(2) in_bs]
  show "\<not> control t x"
    unfolding x using J j assms(1) by (subst control_offset) (auto simp: layout_def)
  show "x \<noteq> t + of_nat (l + k)" if "(l, y, g) \<in> set (with_end bs e)" "k = 0 \<or> k = 4"
  proof -
    have "j + d \<noteq> l + k" "l \<le> e"
      using that j J in_bs tiles_apart [OF assms(2) in_bs, of l y g] tiles_in [OF assms(2), of l y g] by auto
    then show ?thesis
      unfolding x using J j that(2) assms(1) by (subst word_offset_eq) (auto simp: layout_def)
  qed
  assume X: "X \<subseteq> addrs t bs" "\<And>j y. (j, y, False) \<in> set cs \<Longrightarrow> t + of_nat j \<notin> X"
  have "x \<noteq> b + of_nat h" if "b \<in> X" "h = 8 \<or> h = 12" for b h
  proof -
    from that(1) obtain l y g where b: "b = t + of_nat l" "(l, y, g) \<in> set bs"
      using X(1) unfolding addrs_def by blast
    have "l \<noteq> j"
      using X(2) [OF j(1)] that(1) b(1) by auto
    then have "j + d \<noteq> l + h" "l + 16 \<le> e"
      using that(2) b(2) j J in_bs tiles_apart [OF assms(2) in_bs b(2)] tiles_in [OF assms(2) b(2)] by auto
    then have "t + of_nat (j + d) \<noteq> t + of_nat (l + h)"
      using J j that(2) assms(1) by (subst word_offset_eq) (auto simp: layout_def)
    then show ?thesis
      unfolding x b(1) by (simp add: add.assoc)
  qed
  from this [of _ 8] this [of _ 12] show "x \<notin> prev_at ` X \<and> x \<notin> next_at ` X"
    by auto
qed

lemma keeps_hdr:
  assumes "layout t lo e" "tiles lo bs e" "set cs \<subseteq> set bs" "(l, y, g) \<in> set (with_end bs e)"
  shows "keeps t cs m (m(t + of_nat l := v))" "keeps t cs m (m(size_at (t + of_nat l) := v))"
  using user_words(2) [OF assms(1-3) _ assms(4), of _ 0] user_words(2) [OF assms(1-3) _ assms(4), of _ 4] unfolding at_offset
  by (auto simp: keeps_def simp del: of_nat_add)

lemma used_not_free:
  assumes "layout t lo e" "tiles lo bs e" "(j, y, False) \<in> set bs"
  shows "t + of_nat j \<notin> Domain (frees t bs)"
proof
  assume "t + of_nat j \<in> Domain (frees t bs)"
  then obtain i z where i: "t + of_nat j = t + of_nat i" "(i, z, True) \<in> set bs"
    unfolding frees_def by blast
  then have "j = i"
    using tiles_in [OF assms(2,3)] tiles_in [OF assms(2) i(2)] assms(1) by (subst (asm) word_offset_eq) (auto simp: layout_def)
  then show False
    using tiles_apart [OF assms(2,3) i(2)] tiles_in [OF assms(2,3)] tiles_in [OF assms(2) i(2)] by auto
qed

lemma keeps_frame:
  assumes "layout t lo e" "tiles lo bs e" "set cs \<subseteq> set bs" "frame t X m m'" "X \<subseteq> Domain (frees t bs)"
  shows "keeps t cs m m'"
  unfolding keeps_def
proof
  fix x assume x: "x \<in> user t cs"
  have "t + of_nat j \<notin> X" if "(j, y, False) \<in> set cs" for j y
    using used_not_free [OF assms(1,2), of j y] assms(3,5) that by blast
  then show "m' x = m x"
    using user_words(1) [OF assms(1-3) x] user_words(3) [OF assms(1-3) x subset_trans [OF assms(5) frees_addrs]] assms(4)
    by (simp add: frame_def)
qed

end
