(* ===== verification/Tlsf_Malloc.thy ===== *)
theory Tlsf_Malloc
  imports Tlsf_Blocks
begin

text \<open>
  \<open>malloc_ex\<close> on the blocks of a pool: the block that serves a request is cut out of a free block.
\<close>

unbundle bit_operations_syntax

text \<open>The block \<open>(i, z, f)\<close> serves a request of \<open>r\<close> bytes: what is left becomes a free block when it is large enough.\<close>

fun cut_block :: "nat \<Rightarrow> block \<Rightarrow> block list" where
  "cut_block r (i, z, f) = (if r + 16 \<le> z then [(i, r, False), (i + 8 + r, z - r - 8, True)] else [(i, z, False)])"

lemma malloc_eq:
  assumes "MAPPING_SEARCH (request_size sz) = (r, fl0, sl0)" "FIND_SUITABLE_BLOCK t fl0 sl0 m = (b, fl, sl)" "b \<noteq> 0"
    and "m1 = EXTRACT_BLOCK_HDR b t fl sl m" "z = m1 (size_at b) AND BLOCK_SIZE" "nb = buffer_of b + z"
  shows "z - r \<ge> sizeof_bhdr \<Longrightarrow> b2 = buffer_of b + r \<Longrightarrow> MAPPING_INSERT (z - r - BHDR_OVERHEAD) = (f2, s2) \<Longrightarrow>
      m3 = m1(size_at b2 := (z - r - BHDR_OVERHEAD) OR FREE_BLOCK OR PREV_USED, nb := b2) \<Longrightarrow> m4 = INSERT_BLOCK b2 t f2 s2 m3 \<Longrightarrow>
      malloc_ex sz t m = (buffer_of b, m4(size_at b := r OR (m4 (size_at b) AND PREV_STATE)))"
    "\<not> z - r \<ge> sizeof_bhdr \<Longrightarrow> m2 = m1(size_at nb := m1 (size_at nb) AND NOT PREV_FREE) \<Longrightarrow>
      malloc_ex sz t m = (buffer_of b, m2(size_at b := m2 (size_at b) AND NOT FREE_BLOCK))"
  using assms by (simp_all add: malloc_ex_def request_size_def [symmetric] GET_NEXT_BLOCK_def Let_def)

lemma request_rounded:
  assumes "unat sz < 2 ^ 28"
  obtains r fl sl where "MAPPING_SEARCH (request_size sz) = (r, int fl, int sl)" "fl < REAL_FLI" "sl < MAX_SLI"
    "unat sz \<le> unat r" "8 \<le> unat r" "4 dvd unat r"
proof -
  note B = request_size_bounds [OF assms]
  have "8 \<le> unat (request_size sz)"
  proof (cases "sz < MIN_BLOCK_SIZE")
    case False
    then have "8 \<le> unat sz"
      by (simp add: MIN_BLOCK_SIZE_def word_less_nat_alt)
    then show ?thesis
      using B(1) by simp
  qed (simp add: request_size_def MIN_BLOCK_SIZE_def)
  moreover obtain r fl sl where S: "MAPPING_SEARCH (request_size sz) = (r, int fl, int sl)" "fl < REAL_FLI" "sl < MAX_SLI"
      "unat sz \<le> unat r" "unat r = class_min fl sl"
    by (rule search_request [OF assms])
  moreover have "unat (request_size sz) < 2 ^ 31"
    using B(2) by simp
  then have "unat (request_size sz) \<le> unat r"
    using search_class [OF B(3)] S(1) by (metis prod.inject)
  ultimately show ?thesis
    using that class_min_dvd [of fl sl] by (metis le_trans)
qed

lemma malloc_finds:
  assumes P: "pool_rep t lo e m bs" and sz: "unat sz < 2 ^ 28"
    and S: "MAPPING_SEARCH (request_size sz) = (r, int fl0, int sl0)" "fl0 < REAL_FLI" "sl0 < MAX_SLI"
    and F: "FIND_SUITABLE_BLOCK t (int fl0) (int sl0) m = (b, fl, sl)" "b \<noteq> 0"
  obtains f s i z where "fl = int f" "sl = int s" "f < REAL_FLI" "s < MAX_SLI" "b = t + of_nat i" "(i, z, True) \<in> set bs"
    "MAPPING_INSERT (of_nat z) = (int f, int s)" "m (matrix_at t (int f) (int s)) = b" "unat r \<le> z"
proof -
  have L: "free_lists t m (frees t bs)"
    using P by (simp add: pool_rep_def)
  obtain f s where fs: "fl = int f" "sl = int s" "f < REAL_FLI" "s < MAX_SLI" "fl0 < f \<or> fl0 = f \<and> sl0 \<le> s"
      "b = m (matrix_at t (int f) (int s))"
    using find_suitable(1) [OF free_listsD(1) [OF L] S(2,3) F(1,2)] by blast
  have "b \<in> class_of (frees t bs) f s"
    using list_in_hd(2) [OF free_listsD(4,5) [OF L fs(3,4)]] fs(6) F(2) by simp
  then obtain i z where i: "b = t + of_nat i" "(i, z, True) \<in> set bs" "MAPPING_INSERT (of_nat z) = (int f, int s)"
    by (auto simp: class_of_def frees_def)
  have "z < 2 ^ 32"
    using P tiles_in [of lo bs e i z True] i(2) by (auto simp: pool_rep_def layout_def)
  moreover have "unat (request_size sz) < 2 ^ 31"
    using request_size_bounds(2) [OF sz] by simp
  ultimately have "unat r \<le> z"
    using good_fit(2) [OF request_size_bounds(3) [OF sz] _ S(1) i(3)] fs(5) by (simp add: unat_of_nat)
  then show ?thesis
    using that fs i by metis
qed

text \<open>After the extraction of a free block from its list.\<close>

lemma extract_rep:
  assumes P: "pool_rep t lo e m (xs @ (i, z, True) # ys)" and b: "b = t + of_nat i"
    and c: "MAPPING_INSERT (of_nat z) = (int f, int s)" "f < REAL_FLI" "s < MAX_SLI" and m1: "m1 = EXTRACT_BLOCK b t (int f) (int s) m"
  shows "hdrs t m1 None xs" "hdrs t m1 (free_before None xs) [(i, z, True)]" "hdrs t m1 (Some i) (with_end ys e)"
    "free_lists t m1 (frees t (xs @ ys))" "keeps t (xs @ ys) m m1"
proof -
  let ?bs = "xs @ (i, z, True) # ys"
  note old = pool_repD [OF P]
  have "(b, of_nat z) \<in> frees t ?bs"
    by (simp add: b)
  note E = extract_free [OF old(5) this c m1]
  show "free_lists t m1 (frees t (xs @ ys))"
    using E(1) frees_remove [OF old(1,2)] unfolding b by simp
  have "hdrs t m1 None (with_end ?bs e)"
    using hdrs_frame [OF old(1,2) frame_mono [OF E(2) frees_addrs] order_refl, of "with_end ?bs e"] old(4) by blast
  then show "hdrs t m1 None xs" "hdrs t m1 (free_before None xs) [(i, z, True)]" "hdrs t m1 (Some i) (with_end ys e)"
    by (simp_all add: hdrs_append)
  show "keeps t (xs @ ys) m m1"
    by (rule keeps_frame [OF old(1,2) _ E(2) order_refl]) auto
qed

lemma malloc_whole_rep:
  assumes P: "pool_rep t lo e m (xs @ (i, z, True) # ys)" and b: "b = t + of_nat i" "nb = t + of_nat (i + 8 + z)"
    and c: "MAPPING_INSERT (of_nat z) = (int f, int s)" "f < REAL_FLI" "s < MAX_SLI"
    and m1: "m1 = EXTRACT_BLOCK b t (int f) (int s) m" and m2: "m2 = m1(size_at nb := m1 (size_at nb) AND NOT PREV_FREE)"
    and m3: "m3 = m2(size_at b := m2 (size_at b) AND NOT FREE_BLOCK)"
  shows "pool_rep t lo e m3 (xs @ (i, z, False) # ys)" "keeps t (xs @ ys) m m3"
proof -
  let ?new = "xs @ (i, z, False) # ys"
  note old = pool_repD [OF P] and E = extract_rep [OF P b(1) c m1]
  have new: "tiles lo ?new e" "no_adjacent ?new"
    using old(2,3) by (auto simp: tiles_append no_adjacent_append no_adjacent_Cons)
  obtain nz nf rest where n: "with_end ys e = (i + 8 + z, nz, nf) # rest" "4 dvd nz" "nz < e \<or> nz = 0"
    by (rule next_block [OF old(2)])
  have z: "4 dvd z" "z < 2 ^ 32" "nz < 2 ^ 32"
    using n(3) tiles_parts(4,5) [OF old(2)] old(1) by (auto simp: layout_def)
  note ap = parts_apart [OF new(1)] parts_apart(3,4) [OF new(1) n(1)]
  have el: "(i, z, False) \<in> set (with_end ?new e)" "(i + 8 + z, nz, nf) \<in> set (with_end ?new e)"
    using n(1) by auto
  have sub: "fst ` set rest \<subseteq> fst ` set (with_end ?new e)" "fst ` set xs \<subseteq> fst ` set (with_end ?new e)"
    using n(1) by (auto simp: image_Un)
  have H2: "hdrs t m2 None xs" "hdrs t m2 (free_before None xs) [(i, z, True)]"
    using E(1,2) ap sub unfolding m2 b by (subst hdrs_upd(1) [OF old(1) new(1) el(2)]; auto)+
  note E3 = E(3) [unfolded n(1)]
  have "m1 (size_at nb) AND NOT PREV_FREE = hdr nz nf False"
    using E3 hdr_bits(7) [OF n(2) z(3)] by (simp add: b)
  then have H3: "hdrs t m2 None ((i + 8 + z, nz, nf) # rest)"
    unfolding m2 b by (intro hdrs_set [OF old(1) new(1) el(2) sub(1) _ E3]) (use ap in auto)
  have "m2 (size_at b) AND NOT FREE_BLOCK = hdr z False (free_before None xs \<noteq> None)"
    using H2(2) hdr_bits(6) [OF z(1,2)] by (simp add: b)
  then have "hdrs t m3 (free_before None xs) [(i, z, False)]"
    unfolding m3 b by (intro hdrs_set [OF old(1) new(1) el(1) _ _ H2(2)]) auto
  moreover have "hdrs t m3 None xs" "hdrs t m3 None (with_end ys e)"
    using H2(1) H3 ap(1,2) sub n(1) unfolding m3 b by (subst hdrs_upd(1) [OF old(1) new(1) el(1)]; auto)+
  ultimately have "hdrs t m3 None (with_end ?new e)"
    by (simp add: hdrs_append)
  moreover have "free_lists t m3 (frees t ?new)"
    unfolding m3 m2 b frees_used using frees_addrs [of t ?new] unfolding frees_used
    by (intro free_lists_hdr(2) [OF old(1) new(1) el(1)] free_lists_hdr(2) [OF old(1) new(1) el(2)] E(4))
  ultimately show "pool_rep t lo e m3 ?new"
    using old(1) new by (simp add: pool_rep_def)
  have "set (xs @ ys) \<subseteq> set ?new"
    by auto
  note K = keeps_hdr(2) [OF old(1) new(1) this]
  show "keeps t (xs @ ys) m m3"
    unfolding m3 m2 b by (rule keeps_trans [OF keeps_trans [OF E(5) K [OF el(2)]] K [OF el(1)]])
qed

text \<open>The two headers of a split, before the rest enters its list.\<close>

lemma split_headers:
  assumes P: "pool_rep t lo e m (xs @ (i, z, True) # ys)" and r: "8 \<le> r" "4 dvd r" "r + 16 \<le> z"
    and b: "b = t + of_nat i" "b2 = t + of_nat (i + 8 + r)" and c: "MAPPING_INSERT (of_nat z) = (int f, int s)" "f < REAL_FLI" "s < MAX_SLI"
    and m1: "m1 = EXTRACT_BLOCK b t (int f) (int s) m"
    and m3: "m3 = m1(size_at b2 := hdr (z - r - 8) True False, t + of_nat (i + 8 + z) := b2)"
    and new: "tiles lo (xs @ (i, r, False) # (i + 8 + r, z - r - 8, True) # ys) e"
  shows "hdrs t m3 None xs" "hdrs t m3 (free_before None xs) [(i, z, True)]"
    "hdrs t m3 None ((i + 8 + r, z - r - 8, True) # with_end ys e)" "free_lists t m3 (frees t (xs @ ys))" "keeps t (xs @ ys) m m3"
proof -
  let ?new = "xs @ (i, r, False) # (i + 8 + r, z - r - 8, True) # ys" and ?j = "i + 8 + r"
  note old = pool_repD [OF P] and E = extract_rep [OF P b(1) c m1]
  obtain nz nf rest where n: "with_end ys e = (i + 8 + z, nz, nf) # rest"
    by (rule next_block [OF old(2)])
  have el: "(?j, z - r - 8, True) \<in> set (with_end ?new e)" "(i + 8 + z, nz, nf) \<in> set (with_end ?new e)"
    using n(1) by auto
  have sub: "fst ` set rest \<subseteq> fst ` set (with_end ?new e)" "fst ` set xs \<subseteq> fst ` set (with_end ?new e)"
    using n(1) by (auto simp: image_Un)
  note ap = parts_apart [OF old(2)] parts_apart(3,4) [OF old(2) n]
  have apj: "?j \<notin> fst ` set xs" "?j \<notin> fst ` set (with_end ys e)"
    using parts_apart(1,2) [of lo "xs @ [(i, r, False)]" ?j "z - r - 8" True ys e] new by auto
  define m2 where "m2 = m1(size_at b2 := hdr (z - r - 8) True False)"
  have H2: "hdrs t m2 None xs" "hdrs t m2 (free_before None xs) [(i, z, True)]" "hdrs t m2 (Some i) ((i + 8 + z, nz, nf) # rest)"
    using E(1-3) apj sub n r unfolding m2_def b by (subst hdrs_upd(1) [OF old(1) new el(1)]; auto)+
  have H2': "hdrs t m2 None [(?j, z - r - 8, True)]"
    by (simp add: m2_def b)
  have m3': "m3 = m2(t + of_nat (i + 8 + z) := t + of_nat ?j)"
    by (simp add: m3 m2_def b)
  note keep = iffD2 [OF hdrs_upd(2) [OF old(1) new el(2)]]
  have H3: "hdrs t m3 None xs" "hdrs t m3 (free_before None xs) [(i, z, True)]" "hdrs t m3 None [(?j, z - r - 8, True)]"
    unfolding m3' using keep [OF _ _ H2(1)] keep [OF _ _ H2(2)] keep [OF _ _ H2'] sub(2) ap(6) r(3)
    by (simp_all del: hdrs.simps of_nat_add)
  then show "hdrs t m3 None xs" "hdrs t m3 (free_before None xs) [(i, z, True)]"
    by blast+
  have "hdrs t m3 (Some ?j) ((i + 8 + z, nz, nf) # rest)"
    unfolding m3' by (rule hdrs_set_prev [OF old(1) new el(2) sub(1) _ H2(3)]) (use ap in auto)
  then show "hdrs t m3 None ((?j, z - r - 8, True) # with_end ys e)"
    using hdrs_append [of t m3 None "[(?j, z - r - 8, True)]" "with_end ys e"] H3(3) n by (simp del: hdrs.simps of_nat_add)
  have D: "Domain (frees t (xs @ ys)) \<subseteq> addrs t ?new"
    using frees_addrs [of t ?new] by auto
  show "free_lists t m3 (frees t (xs @ ys))"
    unfolding m3 b(2) by (intro free_lists_hdr(1) [OF old(1) new el(2) _ D] free_lists_hdr(2) [OF old(1) new el(1) _ D] E(4))
  have "set (xs @ ys) \<subseteq> set ?new"
    by auto
  note K = keeps_hdr [OF old(1) new this]
  show "keeps t (xs @ ys) m m3"
    unfolding m3 b by (rule keeps_trans [OF keeps_trans [OF E(5) K(2) [OF el(1)]] K(1) [OF el(2)]])
qed

lemma malloc_split_rep:
  assumes P: "pool_rep t lo e m (xs @ (i, z, True) # ys)" and r: "8 \<le> r" "4 dvd r" "r + 16 \<le> z"
    and b: "b = t + of_nat i" "b2 = t + of_nat (i + 8 + r)" and c: "MAPPING_INSERT (of_nat z) = (int f, int s)" "f < REAL_FLI" "s < MAX_SLI"
    and c2: "MAPPING_INSERT (of_nat (z - r - 8)) = (int f2, int s2)" "f2 < REAL_FLI" "s2 < MAX_SLI"
    and m1: "m1 = EXTRACT_BLOCK b t (int f) (int s) m"
    and m3: "m3 = m1(size_at b2 := hdr (z - r - 8) True False, t + of_nat (i + 8 + z) := b2)"
    and m4: "m4 = INSERT_BLOCK b2 t (int f2) (int s2) m3" and m5: "m5 = m4(size_at b := of_nat r OR (m4 (size_at b) AND PREV_STATE))"
  shows "pool_rep t lo e m5 (xs @ (i, r, False) # (i + 8 + r, z - r - 8, True) # ys)" "keeps t (xs @ ys) m m5"
proof -
  let ?new = "xs @ (i, r, False) # (i + 8 + r, z - r - 8, True) # ys" and ?j = "i + 8 + r"
  note old = pool_repD [OF P]
  have new: "tiles lo ?new e" "no_adjacent ?new"
    using old(2,3) r by (auto simp: tiles_append no_adjacent_append no_adjacent_Cons ac_simps)
  note S = split_headers [OF P r b c m1 m3 new(1)]
  have z: "4 dvd z" "z < 2 ^ 32"
    using tiles_parts(4,5) [OF old(2)] old(1) by (auto simp: layout_def)
  have el: "(i, r, False) \<in> set (with_end ?new e)"
    by simp
  have sub: "fst ` set xs \<subseteq> fst ` set (with_end ?new e)" "set (xs @ ys) \<subseteq> set ?new"
    by (auto simp: image_Un)
  have D: "insert b2 (Domain (frees t (xs @ ys))) \<subseteq> addrs t ?new"
    using frees_addrs [of t ?new] addrsI [of ?j "z - r - 8" True ?new t] by (auto simp: b(2))
  have "b2 \<notin> Domain (frees t (xs @ ys))"
    using frees_outside [OF old(1), of "xs @ [(i, r, False)]" ?j "z - r - 8" True ys] new(1) by (simp add: b(2) del: of_nat_add)
  note F4 = insert_free [OF S(4) this spread_mono [OF pool_spread [OF old(1) new(1)] D] c2 m4]
  note same = hdrs_frame [OF old(1) new(1) F4(2) D]
  have H4: "hdrs t m4 None xs" "hdrs t m4 (free_before None xs) [(i, z, True)]"
    "hdrs t m4 None ((?j, z - r - 8, True) # with_end ys e)"
    using S(1-3) sub by (subst same; auto simp del: hdrs.simps of_nat_add)+
  have "of_nat r OR (m4 (size_at b) AND PREV_STATE) = hdr r False (free_before None xs \<noteq> None)"
    using H4(2) hdr_bits(8) [OF z] by (simp add: b)
  then have "hdrs t m5 (free_before None xs) [(i, r, False)]"
    unfolding m5 b by (intro hdrs_set [OF old(1) new(1) el _ _ H4(2)]) auto
  moreover have "hdrs t m5 None xs" "hdrs t m5 None ((?j, z - r - 8, True) # with_end ys e)"
    using H4(1,3) parts_apart(1,2) [OF old(2)] sub r unfolding m5 b
    by (subst hdrs_upd(1) [OF old(1) new(1) el]; auto simp del: hdrs.simps of_nat_add)+
  ultimately have "hdrs t m5 None (with_end ?new e)"
    by (simp add: hdrs_append)
  moreover have "free_lists t m5 (frees t ?new)"
    using free_lists_hdr(2) [OF old(1) new(1) el F4(1)] D by (simp add: m5 b)
  ultimately show "pool_rep t lo e m5 ?new"
    using old(1) new by (simp add: pool_rep_def)
  have "insert b2 (Domain (frees t (xs @ ys))) \<subseteq> Domain (frees t ?new)"
    by (auto simp: b(2))
  note K = keeps_frame [OF old(1) new(1) sub(2) F4(2) this]
  show "keeps t (xs @ ys) m m5"
    unfolding m5 b(1) by (rule keeps_trans [OF keeps_trans [OF S(5) K] keeps_hdr(2) [OF old(1) new(1) sub(2) el]])
qed

text \<open>What \<open>malloc_ex\<close> does with the block it found.\<close>

lemma malloc_take:
  assumes P: "pool_rep t lo e m (xs @ (i, z, True) # ys)" and S: "MAPPING_SEARCH (request_size sz) = (r, fl0, sl0)"
    and F: "FIND_SUITABLE_BLOCK t fl0 sl0 m = (b, int f, int s)" "b \<noteq> 0" and b: "b = t + of_nat i"
    and c: "MAPPING_INSERT (of_nat z) = (int f, int s)" "f < REAL_FLI" "s < MAX_SLI" and hd: "m (matrix_at t (int f) (int s)) = b"
    and r: "8 \<le> unat r" "4 dvd unat r" "unat r \<le> z" and M: "malloc_ex sz t m = (p, m')"
  shows "p = t + of_nat (i + 8)" "pool_rep t lo e m' (xs @ cut_block (unat r) (i, z, True) @ ys)" "keeps t (xs @ ys) m m'"
proof -
  note old = pool_repD [OF P]
  define m1 where "m1 = EXTRACT_BLOCK b t (int f) (int s) m"
  have "(b, of_nat z) \<in> frees t (xs @ (i, z, True) # ys)"
    by (simp add: b)
  then have hdr: "EXTRACT_BLOCK_HDR b t (int f) (int s) m = m1"
    using extract_free(3) [OF old(5) _ c m1_def] hd by simp
  have z: "4 dvd z" "z < 2 ^ 30"
    using tiles_parts(4,5) [OF old(2)] old(1) by (auto simp: layout_def)
  have "m1 (size_at b) = hdr z True (free_before None xs \<noteq> None)"
    using extract_rep(2) [OF P b c m1_def] by (simp add: b)
  then have sz1: "of_nat z = m1 (size_at b) AND BLOCK_SIZE"
    using hdr_bits(1) [OF z(1)] z(2) by simp
  have nb: "buffer_of b + of_nat z = t + of_nat (i + 8 + z)" and p: "buffer_of b = t + of_nat (i + 8)"
    by (simp_all add: b)
  have rw: "r = of_nat (unat r)" "unat (of_nat z :: u32) = z"
    using z(2) by (simp_all add: unat_of_nat)
  then have "unat (of_nat z - r) = z - unat r"
    using unat_sub [of r "of_nat z"] r(3) by (simp add: word_le_nat_alt)
  then have ge: "sizeof_bhdr \<le> of_nat z - r \<longleftrightarrow> unat r + 16 \<le> z"
    using r(3) by (auto simp: word_le_nat_alt sizeof_bhdr_def)
  note eq = malloc_eq [OF S F hdr [symmetric] sz1 nb [symmetric], unfolded p ge]
  have "p = t + of_nat (i + 8) \<and> pool_rep t lo e m' (xs @ cut_block (unat r) (i, z, True) @ ys) \<and> keeps t (xs @ ys) m m'"
  proof (cases "unat r + 16 \<le> z")
    case True
    let ?k = "z - unat r - 8"
    have k: "of_nat z - r - BHDR_OVERHEAD = of_nat ?k"
      using True r(3) by (simp add: BHDR_OVERHEAD_def of_nat_diff)
    have "unat (of_nat ?k :: u32) < 2 ^ 30"
      using z(2) by (simp add: unat_of_nat)
    then obtain f2 s2 where c2: "MAPPING_INSERT (of_nat ?k) = (int f2, int s2)" "f2 < REAL_FLI" "s2 < MAX_SLI"
      by (rule class_in_index)
    define b2 m3 where "b2 = t + of_nat (i + 8 + unat r)"
      and "m3 = m1(size_at b2 := hdr ?k True False, t + of_nat (i + 8 + z) := b2)"
    have b2: "b2 = t + of_nat (i + 8) + r"
      by (simp add: b2_def)
    have "hdr ?k True False = of_nat ?k OR FREE_BLOCK OR PREV_USED"
      by (simp add: hdr_def PREV_USED_def)
    then have m3: "m3 = m1(size_at b2 := of_nat ?k OR FREE_BLOCK OR PREV_USED, t + of_nat (i + 8 + z) := b2)"
      unfolding m3_def by metis
    show ?thesis
      using eq(1) [unfolded k, OF True b2 c2(1) m3 refl] malloc_split_rep [OF P r(1,2) True b b2_def c c2 m1_def m3_def refl refl] M True
      by simp
  next
    case False
    then show ?thesis
      using eq(2) [OF False refl] malloc_whole_rep [OF P b refl c m1_def refl refl] M by simp
  qed
  then show "p = t + of_nat (i + 8)" "pool_rep t lo e m' (xs @ cut_block (unat r) (i, z, True) @ ys)" "keeps t (xs @ ys) m m'"
    by simp_all
qed

lemma malloc_rep:
  assumes P: "pool_rep t lo e m bs" and sz: "unat sz < 2 ^ 28" and M: "malloc_ex sz t m = (p, m')" "p \<noteq> 0"
  obtains xs i z ys r where "bs = xs @ (i, z, True) # ys" "unat sz \<le> r" "r \<le> z" "8 \<le> r" "4 dvd r" "p = t + of_nat (i + 8)"
    "pool_rep t lo e m' (xs @ cut_block r (i, z, True) @ ys)" "keeps t (xs @ ys) m m'"
proof -
  obtain r fl0 sl0 where S: "MAPPING_SEARCH (request_size sz) = (r, int fl0, int sl0)" "fl0 < REAL_FLI" "sl0 < MAX_SLI"
      and r: "unat sz \<le> unat r" "8 \<le> unat r" "4 dvd unat r"
    by (rule request_rounded [OF sz])
  obtain b fl sl where F: "FIND_SUITABLE_BLOCK t (int fl0) (int sl0) m = (b, fl, sl)"
    by (metis prod_cases3)
  have "b \<noteq> 0"
    using malloc_ptr(1) [OF S(1) F] M by auto
  then obtain f s i z where b: "fl = int f" "sl = int s" "f < REAL_FLI" "s < MAX_SLI" "b = t + of_nat i" "(i, z, True) \<in> set bs"
      "MAPPING_INSERT (of_nat z) = (int f, int s)" "m (matrix_at t (int f) (int s)) = b" "unat r \<le> z"
    by (rule malloc_finds [OF P sz S F])
  obtain xs ys where bs: "bs = xs @ (i, z, True) # ys"
    using b(6) by (metis split_list)
  show ?thesis
    using malloc_take [OF P [unfolded bs] S(1) F [unfolded b(1,2)] \<open>b \<noteq> 0\<close> b(5,7,3,4,8) r(2,3) b(9) M(1)] bs b(9) r
    by (intro that [of xs i z ys "unat r"]) auto
qed

text \<open>It fails only when no free block is large enough.\<close>

lemma malloc_none:
  assumes P: "pool_rep t lo e m bs" and sz: "unat sz < 2 ^ 28" and M: "malloc_ex sz t m = (0, m')"
    and S: "MAPPING_SEARCH (request_size sz) = (r, fl, sl)"
  shows "m' = m" "(i, z, True) \<in> set bs \<Longrightarrow> z < unat r"
proof -
  note old = pool_repD [OF P]
  obtain r0 fl0 sl0 where S0: "MAPPING_SEARCH (request_size sz) = (r0, int fl0, int sl0)" "fl0 < REAL_FLI" "sl0 < MAX_SLI"
    and r: "unat r0 = class_min fl0 sl0"
    by (rule search_request [OF sz])
  obtain b fl1 sl1 where F: "FIND_SUITABLE_BLOCK t (int fl0) (int sl0) m = (b, fl1, sl1)"
    by (metis prod_cases3)
  have b0: "b = 0"
  proof (rule ccontr)
    assume "b \<noteq> 0"
    then obtain i z where "b = t + of_nat i" "(i, z, True) \<in> set bs"
      by (rule malloc_finds [OF P sz S0 F])
    then show False
      using block_not_null [OF old(1,2)] malloc_ptr(1) [OF S0(1) F] M \<open>b \<noteq> 0\<close> by (simp add: add.assoc)
  qed
  then show "m' = m"
    using malloc_ptr(2) [OF S0(1) F] M by simp
  assume I: "(i, z, True) \<in> set bs"
  have z: "z < 2 ^ 30"
    using tiles_in [OF old(2) I] old(1) by (auto simp: layout_def)
  then have uz: "unat (of_nat z :: u32) = z"
    by (simp add: unat_of_nat)
  obtain f s where fs: "MAPPING_INSERT (of_nat z) = (int f, int s)" "f < REAL_FLI" "s < MAX_SLI"
    by (rule class_in_index [of "of_nat z"]) (use z uz in auto)
  have "t + of_nat i \<in> class_of (frees t bs) f s"
    using I fs(1) unfolding class_of_def frees_def by blast
  then have "m (matrix_at t (int f) (int s)) \<noteq> 0"
    using list_in_hd(1) [OF free_listsD(4,5) [OF old(5) fs(2,3)]] by auto
  then have "\<not> (fl0 < f \<or> fl0 = f \<and> sl0 \<le> s)"
    using find_suitable(2) [OF free_listsD(1) [OF old(5)] S0(2,3) F b0 fs(2,3)] by auto
  then have "class_min f (Suc s) \<le> class_min fl0 sl0"
    using fs(3) by (intro class_min_mono) (auto simp: MAX_SLI_def)
  then show "z < unat r"
    using class_size_bounds(2) [OF fs(1)] uz r S S0(1) by simp
qed

end
