(* ===== verification/Tlsf_Release.thy ===== *)
theory Tlsf_Release
  imports Tlsf_Malloc
begin

text \<open>
  \<open>free_ex\<close> on the blocks of a pool: the released block is merged with the free blocks next to it.
\<close>

unbundle bit_operations_syntax

section \<open>Release\<close>

text \<open>
  The state of \<open>free_ex\<close> between taking blocks out of the lists and putting the merged block in: the free block
  \<open>(i, z)\<close> is in no list, and the header behind it does not know of it yet.
\<close>

definition detached :: "u32 \<Rightarrow> nat \<Rightarrow> nat \<Rightarrow> mem \<Rightarrow> block list \<Rightarrow> nat \<Rightarrow> nat \<Rightarrow> bool \<Rightarrow> block list \<Rightarrow> bool" where
  "detached t lo e m xs i z f ys \<longleftrightarrow> layout t lo e \<and> tiles lo (xs @ (i, z, f) # ys) e \<and> no_adjacent xs \<and> no_adjacent ys \<and>
     hdrs t m None (xs @ [(i, z, f)]) \<and> (\<exists>pv. hdrs t m pv (with_end ys e)) \<and> free_lists t m (frees t (xs @ ys))"

lemma detachedD:
  assumes "detached t lo e m xs i z f ys"
  shows "layout t lo e" "tiles lo (xs @ (i, z, f) # ys) e" "no_adjacent xs" "no_adjacent ys" "hdrs t m None xs"
    "hdrs t m (free_before None xs) [(i, z, f)]" "\<exists>pv. hdrs t m pv (with_end ys e)" "free_lists t m (frees t (xs @ ys))"
  using assms by (auto simp: detached_def hdrs_append)

lemma keeps_free: "keeps t (xs @ (i, z, True) # ys) m m' \<longleftrightarrow> keeps t (xs @ ys) m m'"
  by (simp add: keeps_def)

lemma free_lists_upd:
  assumes "free_lists t m F" "\<not> control t x" "x \<notin> prev_at ` Domain F" "x \<notin> next_at ` Domain F"
  shows "free_lists t (m(x := v)) F"
  using assms(2-) by (intro free_lists_same [OF assms(1)]) auto

lemma free_lists_link:
  assumes "free_lists t m F" "spread t (insert b (Domain F))" "b \<notin> Domain F"
  shows "free_lists t (m(prev_at b := v)) F" "free_lists t (m(next_at b := v)) F"
proof -
  have "\<not> control t (prev_at b)" "\<not> control t (next_at b)" "prev_at b \<notin> prev_at ` Domain F" "next_at b \<notin> next_at ` Domain F"
    using spreadD [OF assms(2), of b] assms(3) by auto
  moreover have "prev_at b \<notin> next_at ` Domain F" "next_at b \<notin> prev_at ` Domain F"
    using spreadD(4,5) [OF assms(2)] by blast+
  ultimately show "free_lists t (m(prev_at b := v)) F" "free_lists t (m(next_at b := v)) F"
    using free_lists_upd [OF assms(1)] by blast+
qed

lemma detach:
  assumes D: "detached t lo e m xs i z False ys" and b: "b = t + of_nat i"
    and m1: "m1 = m(size_at b := m (size_at b) OR FREE_BLOCK, prev_at b := 0, next_at b := 0)"
  shows "detached t lo e m1 xs i z True ys" "keeps t (xs @ ys) m m1"
proof -
  let ?bs = "xs @ (i, z, True) # ys"
  note old = detachedD [OF D]
  have tl: "tiles lo ?bs e"
    using old(2) by (auto simp: tiles_append)
  note ap = parts_apart(1,2) [OF tl]
  have el: "(i, z, True) \<in> set (with_end ?bs e)" "b \<in> addrs t ?bs"
    using addrsI [of i z True ?bs t] by (simp_all add: b)
  have z: "4 dvd z" "z < 2 ^ 32"
    using tiles_parts(4,5) [OF tl] old(1) by (auto simp: layout_def)
  define m0 where "m0 = m(size_at b := m (size_at b) OR FREE_BLOCK)"
  obtain pv where H: "hdrs t m pv (with_end ys e)"
    using old(7) by blast
  have v: "m (size_at b) OR FREE_BLOCK = hdr z True (free_before None xs \<noteq> None)"
    using old(6) hdr_bits(4) [OF z] by (simp add: b)
  have H0: "hdrs t m0 None xs" "hdrs t m0 pv (with_end ys e)"
    using old(5) H ap unfolding m0_def b by (subst hdrs_upd(1) [OF old(1) tl el(1)]; auto simp del: hdrs.simps)+
  have H1: "hdrs t m0 (free_before None xs) [(i, z, True)]"
    using v unfolding m0_def b by (intro hdrs_set [OF old(1) tl el(1) _ _ old(6)]) auto
  have link: "hdrs t m1 pv cs \<longleftrightarrow> hdrs t m0 pv cs" if "fst ` set cs \<subseteq> fst ` set (with_end ?bs e)" for pv cs
    using hdrs_link [OF old(1) tl el(2) that] by (simp add: m1 m0_def)
  have "hdrs t m1 None (xs @ [(i, z, True)])" "hdrs t m1 pv (with_end ys e)"
    using H0 H1 by (subst link; auto simp: hdrs_append simp del: hdrs.simps)+
  moreover have "free_lists t m1 (frees t (xs @ ys))"
  proof -
    have D: "Domain (frees t (xs @ ys)) \<subseteq> addrs t ?bs"
      using frees_addrs [of t ?bs] by auto
    have sp: "spread t (insert b (Domain (frees t (xs @ ys))))" "b \<notin> Domain (frees t (xs @ ys))"
      using frees_outside [OF old(1) tl] D el(2) by (auto simp: b intro: spread_mono [OF pool_spread [OF old(1) tl]])
    show ?thesis
      unfolding m1 using old(8) free_lists_hdr(2) [OF old(1) tl el(1) _ D] free_lists_link [OF _ sp] by (simp add: b)
  qed
  ultimately show "detached t lo e m1 xs i z True ys"
    using old(1,3,4) tl unfolding detached_def by blast
  have sub: "set (xs @ ys) \<subseteq> set ?bs" "{b} \<subseteq> Domain (frees t ?bs)"
    by (auto simp: b)
  have "frame t {b} m0 m1"
    by (simp add: frame_def m1 m0_def)
  moreover have "keeps t (xs @ ys) m m0"
    unfolding m0_def b by (rule keeps_hdr(2) [OF old(1) tl sub(1) el(1)])
  ultimately show "keeps t (xs @ ys) m m1"
    using keeps_trans keeps_frame [OF old(1) tl sub(1) _ sub(2)] by blast
qed


text \<open>The block behind is free.\<close>

lemma merge_next:
  assumes D: "detached t lo e m xs i z True ((j, y, True) # ys)" and b: "b = t + of_nat i" "c = t + of_nat j"
    and cl: "MAPPING_INSERT (of_nat y) = (int f, int s)" "f < REAL_FLI" "s < MAX_SLI" and m1: "m1 = EXTRACT_BLOCK c t (int f) (int s) m"
    and m2: "m2 = m1(size_at b := m1 (size_at b) + ((m1 (size_at c) AND BLOCK_SIZE) + BHDR_OVERHEAD))"
  shows "detached t lo e m2 xs i (z + 8 + y) True ys" "keeps t (xs @ ys) m m2"
proof -
  let ?bs = "xs @ (i, z, True) # (j, y, True) # ys"
  note old = detachedD [OF D]
  have tl: "tiles lo (xs @ (i, z + 8 + y, True) # ys) e" "tiles lo ((xs @ [(i, z, True)]) @ (j, y, True) # ys) e"
    and z: "4 dvd z" "4 dvd y" "z + (y + 8) < 2 ^ 32" "y < 2 ^ 32"
    using old(1,2) tiles_parts(5) [of lo "xs @ [(i, z, True)]" j y True ys e] by (auto simp: tiles_append ac_simps layout_def)
  note ap = parts_apart(1,2) [OF old(2)]
  have el: "(i, z, True) \<in> set (with_end ?bs e)"
    by simp
  have F: "frees t (xs @ (j, y, True) # ys) - {(c, of_nat y)} = frees t (xs @ ys)" "(c, of_nat y) \<in> frees t (xs @ (j, y, True) # ys)"
    using frees_outside [OF old(1) tl(2)] by (auto simp: b(2))
  have sub: "Domain (frees t (xs @ (j, y, True) # ys)) \<subseteq> addrs t ?bs" "Domain (frees t (xs @ ys)) \<subseteq> addrs t ?bs"
    using frees_addrs [of t ?bs] by auto
  note E = extract_free [OF old(8) F(2) cl m1]
  note same = hdrs_frame [OF old(1,2) E(2) sub(1)]
  obtain pv where "hdrs t m pv ((j, y, True) # with_end ys e)"
    using old(7) by auto
  then have H1: "hdrs t m1 None xs" "hdrs t m1 (free_before None xs) [(i, z, True)]" "hdrs t m1 pv ((j, y, True) # with_end ys e)"
    using old(5,6) by (subst same; auto simp del: hdrs.simps)+
  have v: "m1 (size_at b) + ((m1 (size_at c) AND BLOCK_SIZE) + BHDR_OVERHEAD) = hdr (z + 8 + y) True (free_before None xs \<noteq> None)"
    using H1(2,3) hdr_bits(1) [OF z(2,4)] hdr_add [of z "y + 8" True "free_before None xs \<noteq> None"] z
    by (simp add: b BHDR_OVERHEAD_def ac_simps)
  have "hdrs t m2 (free_before None xs) [(i, z + 8 + y, True)]"
    unfolding m2 b(1) using v by (intro hdrs_set [OF old(1,2) el _ _ H1(2)]) (auto simp: b(1))
  moreover have "hdrs t m2 None xs" "hdrs t m2 (Some j) (with_end ys e)"
    using H1(1,3) ap unfolding m2 b(1) by (subst hdrs_upd(1) [OF old(1,2) el]; auto)+
  moreover have "free_lists t m2 (frees t (xs @ ys))"
    unfolding m2 b(1) using E(1) F(1) by (intro free_lists_hdr(2) [OF old(1,2) el _ sub(2)]) simp
  moreover have "no_adjacent ys"
    using old(4) by (simp add: no_adjacent_Cons)
  ultimately show "detached t lo e m2 xs i (z + 8 + y) True ys"
    using old(1,3) tl(1) unfolding detached_def hdrs_append by blast
  have K: "set (xs @ ys) \<subseteq> set ?bs" "Domain (frees t (xs @ (j, y, True) # ys)) \<subseteq> Domain (frees t ?bs)"
    by auto
  show "keeps t (xs @ ys) m m2"
    unfolding m2 b(1) by (rule keeps_trans [OF keeps_frame [OF old(1,2) K(1) E(2) K(2)] keeps_hdr(2) [OF old(1,2) K(1) el]])
qed

text \<open>The block before is free.\<close>

lemma merge_prev:
  assumes D: "detached t lo e m (xs @ [(p, y, True)]) i z True ys" and b: "b = t + of_nat i" "c = t + of_nat p"
    and cl: "MAPPING_INSERT (of_nat y) = (int f, int s)" "f < REAL_FLI" "s < MAX_SLI" and m1: "m1 = EXTRACT_BLOCK c t (int f) (int s) m"
    and m2: "m2 = m1(size_at c := m1 (size_at c) + ((m1 (size_at b) AND BLOCK_SIZE) + BHDR_OVERHEAD))"
  shows "detached t lo e m2 xs p (y + 8 + z) True ys" "keeps t (xs @ ys) m m2"
proof -
  let ?bs = "xs @ (p, y, True) # (i, z, True) # ys"
  note old = detachedD [OF D]
  have tl: "tiles lo ?bs e" "tiles lo (xs @ (p, y + 8 + z, True) # ys) e" and z: "4 dvd z" "4 dvd y" "y + (z + 8) < 2 ^ 32" "z < 2 ^ 32"
    using old(1,2) tiles_parts(5) [of lo "xs @ [(p, y, True)]" i z True ys e] by (auto simp: tiles_append ac_simps layout_def)
  note ap = parts_apart(1,2) [OF tl(1)]
  have el: "(p, y, True) \<in> set (with_end ?bs e)"
    by simp
  have F: "frees t ((xs @ [(p, y, True)]) @ ys) - {(c, of_nat y)} = frees t (xs @ ys)" "(c, of_nat y) \<in> frees t ((xs @ [(p, y, True)]) @ ys)"
    using frees_outside [OF old(1) tl(1)] by (auto simp: b(2))
  have sub: "Domain (frees t ((xs @ [(p, y, True)]) @ ys)) \<subseteq> addrs t ?bs" "Domain (frees t (xs @ ys)) \<subseteq> addrs t ?bs"
    using frees_addrs [of t ?bs] by auto
  note E = extract_free [OF old(8) F(2) cl m1]
  note same = hdrs_frame [OF old(1) tl(1) E(2) sub(1)]
  obtain pv where "hdrs t m pv (with_end ys e)"
    using old(7) by auto
  moreover have "hdrs t m None xs" "hdrs t m (free_before None xs) [(p, y, True)]" "hdrs t m (Some p) [(i, z, True)]"
    using old(5,6) by (simp_all add: hdrs_append free_before_append)
  ultimately have H1: "hdrs t m1 None xs" "hdrs t m1 (free_before None xs) [(p, y, True)]" "hdrs t m1 (Some p) [(i, z, True)]"
      "hdrs t m1 pv (with_end ys e)"
    by (subst same; auto simp del: hdrs.simps)+
  have v: "m1 (size_at c) + ((m1 (size_at b) AND BLOCK_SIZE) + BHDR_OVERHEAD) = hdr (y + 8 + z) True (free_before None xs \<noteq> None)"
    using H1(2,3) hdr_bits(1) [OF z(1,4)] hdr_add [of y "z + 8" True "free_before None xs \<noteq> None"] z
    by (simp add: b BHDR_OVERHEAD_def ac_simps)
  have "hdrs t m2 (free_before None xs) [(p, y + 8 + z, True)]"
    unfolding m2 b(2) using v by (intro hdrs_set [OF old(1) tl(1) el _ _ H1(2)]) (auto simp: b(2))
  moreover have "hdrs t m2 None xs" "hdrs t m2 pv (with_end ys e)"
    using H1(1,4) ap unfolding m2 b(2) by (subst hdrs_upd(1) [OF old(1) tl(1) el]; auto simp del: hdrs.simps)+
  moreover have "free_lists t m2 (frees t (xs @ ys))"
    unfolding m2 b(2) using E(1) F(1) by (intro free_lists_hdr(2) [OF old(1) tl(1) el _ sub(2)]) simp
  moreover have "no_adjacent xs"
    using old(3) by (simp add: no_adjacent_append)
  ultimately show "detached t lo e m2 xs p (y + 8 + z) True ys"
    using old(1,4) tl(2) unfolding detached_def hdrs_append by blast
  have K: "set (xs @ ys) \<subseteq> set ?bs" "Domain (frees t ((xs @ [(p, y, True)]) @ ys)) \<subseteq> Domain (frees t ?bs)"
    by auto
  show "keeps t (xs @ ys) m m2"
    unfolding m2 b(2) by (rule keeps_trans [OF keeps_frame [OF old(1) tl(1) K(1) E(2) K(2)] keeps_hdr(2) [OF old(1) tl(1) K(1) el]])
qed


text \<open>Neither neighbour is free.\<close>

lemma attach:
  assumes D: "detached t lo e m xs i z True ys" and na: "no_adjacent (xs @ (i, z, True) # ys)"
    and b: "b = t + of_nat i" "nb = t + of_nat (i + 8 + z)" and cl: "MAPPING_INSERT (of_nat z) = (int f, int s)" "f < REAL_FLI" "s < MAX_SLI"
    and m1: "m1 = INSERT_BLOCK b t (int f) (int s) m" and m2: "m2 = m1(size_at nb := m1 (size_at nb) OR PREV_FREE, nb := b)"
  shows "pool_rep t lo e m2 (xs @ (i, z, True) # ys)" "m1 (size_at b) = m (size_at b)" "keeps t (xs @ ys) m m2"
proof -
  let ?bs = "xs @ (i, z, True) # ys"
  note old = detachedD [OF D]
  obtain nz nf rest where n: "with_end ys e = (i + 8 + z, nz, nf) # rest" "4 dvd nz" "nz < e \<or> nz = 0"
    by (rule next_block [OF old(2)])
  have nz: "nz < 2 ^ 32"
    using n(3) old(1) by (auto simp: layout_def)
  note ap = parts_apart(3,4) [OF old(2) n(1)]
  have el: "(i + 8 + z, nz, nf) \<in> set (with_end ?bs e)"
    using n(1) by simp
  have sub: "insert b (Domain (frees t (xs @ ys))) \<subseteq> addrs t ?bs" "fst ` set rest \<subseteq> fst ` set (with_end ?bs e)"
    using frees_addrs [of t ?bs] n(1) by (auto simp: b image_Un)
  have "b \<notin> Domain (frees t (xs @ ys))"
    using frees_outside [OF old(1,2)] by (simp add: b)
  note I = insert_free [OF old(8) this spread_mono [OF pool_spread [OF old(1,2)] sub(1)] cl m1]
  note same = hdrs_frame [OF old(1,2) I(2) sub(1)]
  obtain pv where "hdrs t m pv ((i + 8 + z, nz, nf) # rest)"
    using old(7) n(1) by auto
  then have H1: "hdrs t m1 None (xs @ [(i, z, True)])" "hdrs t m1 pv ((i + 8 + z, nz, nf) # rest)"
    using old(5,6) n(1) by (subst same; auto simp: hdrs_append simp del: hdrs.simps)+
  then show "m1 (size_at b) = m (size_at b)"
    using old(6) by (simp add: hdrs_append b)
  have v: "m1 (size_at nb) OR PREV_FREE = hdr nz nf True"
    using H1(2) hdr_bits(5) [OF n(2) nz] by (simp add: b)
  have upd: "hdrs t m2 pv cs \<longleftrightarrow> hdrs t m1 pv cs" if "fst ` set cs \<subseteq> fst ` set (with_end ?bs e)" "i + 8 + z \<notin> fst ` set cs" for pv cs
    unfolding m2 b(2) hdrs_upd(2) [OF old(1,2) el that] hdrs_upd(1) [OF old(1,2) el that] ..
  have "hdrs t m2 None (xs @ [(i, z, True)])"
    using H1(1) ap(1) tiles_parts(3) [OF old(2)] by (subst upd) (auto simp del: hdrs.simps)
  moreover have "hdrs t m2 (if nf then Some (i + 8 + z) else None) rest"
    using H1(2) ap(2) sub(2) by (subst upd) auto
  then have "hdrs t m2 (Some i) (with_end ys e)"
    unfolding n(1) using v by (simp add: m2 b)
  ultimately have "hdrs t m2 None (with_end ?bs e)"
    by (simp add: hdrs_append)
  moreover have "free_lists t m2 (frees t ?bs)"
    unfolding m2 b(2) using I(1) sub(1)
    by (intro free_lists_hdr(1) [OF old(1,2) el] free_lists_hdr(2) [OF old(1,2) el]) (auto simp: b)
  ultimately show "pool_rep t lo e m2 ?bs"
    using old(1,2) na by (simp add: pool_rep_def)
  have K: "set (xs @ ys) \<subseteq> set ?bs" "insert b (Domain (frees t (xs @ ys))) \<subseteq> Domain (frees t ?bs)"
    by (auto simp: b)
  note K1 = keeps_frame [OF old(1,2) K(1) I(2) K(2)] and K2 = keeps_hdr [OF old(1,2) K(1) el]
  show "keeps t (xs @ ys) m m2"
    unfolding m2 b(2) by (rule keeps_trans [OF keeps_trans [OF K1 K2(2)] K2(1)])
qed


section \<open>The steps of \<open>free_ex\<close>\<close>

definition free_next :: "u32 \<Rightarrow> u32 \<Rightarrow> mem \<Rightarrow> mem" where
  "free_next b t m =
     (let tmp_b = GET_NEXT_BLOCK (buffer_of b) (m (size_at b) AND BLOCK_SIZE)
      in if m (size_at tmp_b) AND FREE_BLOCK \<noteq> 0 then
           let (fl, sl) = MAPPING_INSERT (m (size_at tmp_b) AND BLOCK_SIZE);
               m = EXTRACT_BLOCK tmp_b t fl sl m
           in m(size_at b := m (size_at b) + ((m (size_at tmp_b) AND BLOCK_SIZE) + BHDR_OVERHEAD))
         else m)"

definition free_prev :: "u32 \<Rightarrow> u32 \<Rightarrow> mem \<Rightarrow> u32 \<times> mem" where
  "free_prev b t m =
     (if m (size_at b) AND PREV_FREE \<noteq> 0 then
        let tmp_b = m (prev_hdr_at b);
            (fl, sl) = MAPPING_INSERT (m (size_at tmp_b) AND BLOCK_SIZE);
            m = EXTRACT_BLOCK tmp_b t fl sl m
        in (tmp_b, m(size_at tmp_b := m (size_at tmp_b) + ((m (size_at b) AND BLOCK_SIZE) + BHDR_OVERHEAD)))
      else (b, m))"

definition free_insert :: "u32 \<Rightarrow> u32 \<Rightarrow> mem \<Rightarrow> mem" where
  "free_insert b t m =
     (let (fl, sl) = MAPPING_INSERT (m (size_at b) AND BLOCK_SIZE);
          m = INSERT_BLOCK b t fl sl m;
          tmp_b = GET_NEXT_BLOCK (buffer_of b) (m (size_at b) AND BLOCK_SIZE)
      in m(size_at tmp_b := m (size_at tmp_b) OR PREV_FREE, prev_hdr_at tmp_b := b))"

lemma free_ex_steps:
  assumes "buffer_of b \<noteq> 0"
  shows "free_ex (buffer_of b) t m =
    (let m = m(size_at b := m (size_at b) OR FREE_BLOCK, prev_at b := 0, next_at b := 0);
         (b, m) = free_prev b t (free_next b t m)
     in free_insert b t m)"
proof -
  have b: "buffer_of b - BHDR_OVERHEAD = b"
    by (simp add: BHDR_OVERHEAD_def)
  show ?thesis
    unfolding free_ex_def if_not_P [OF assms] Let_def b free_next_def free_prev_def free_insert_def ..
qed

fun join_next :: "nat \<Rightarrow> block list \<Rightarrow> nat \<times> block list" where
  "join_next z ((j, y, True) # ys) = (z + 8 + y, ys)"
| "join_next z ys = (z, ys)"

definition join_prev :: "block list \<Rightarrow> nat \<Rightarrow> nat \<Rightarrow> block list \<times> nat \<times> nat" where
  "join_prev xs i z = (if xs \<noteq> [] \<and> snd (snd (last xs)) then (butlast xs, fst (last xs), fst (snd (last xs)) + 8 + z) else (xs, i, z))"

definition release :: "block list \<Rightarrow> nat \<Rightarrow> nat \<Rightarrow> block list \<Rightarrow> block list" where
  "release xs i z ys = (let (z, ys) = join_next z ys; (xs, i, z) = join_prev xs i z in xs @ (i, z, True) # ys)"

lemma class_in_pool:
  assumes "layout t lo e" "tiles lo bs e" "(i, z, f) \<in> set bs"
  obtains fl sl where "MAPPING_INSERT (of_nat z) = (int fl, int sl)" "fl < REAL_FLI" "sl < MAX_SLI" "4 dvd z" "z < 2 ^ 32"
proof -
  have "4 dvd z" "z < 2 ^ 30"
    using tiles_in [OF assms(2,3)] assms(1) by (auto simp: layout_def)
  moreover from this have "unat (of_nat z :: u32) < 2 ^ 30"
    by (simp add: unat_of_nat)
  ultimately show ?thesis
    using that by (elim class_in_index) auto
qed

lemma free_next_rep:
  assumes D: "detached t lo e m xs i z True ys" and b: "b = t + of_nat i" and J: "join_next z ys = (z', ys')"
  shows "detached t lo e (free_next b t m) xs i z' True ys' \<and> keeps t (xs @ ys) m (free_next b t m)"
proof -
  note old = detachedD [OF D]
  obtain nz nf rest where n: "with_end ys e = (i + 8 + z, nz, nf) # rest" "4 dvd nz" "nz < e \<or> nz = 0"
    by (rule next_block [OF old(2)])
  have "nz < 2 ^ 32"
    using n(3) old(1) by (auto simp: layout_def)
  note nb = hdr_bits(1,2) [OF n(2) this]
  obtain "4 dvd z" "z < 2 ^ 32"
    by (rule class_in_pool [OF old(1,2), of i z True]) auto
  then have "m (size_at b) AND BLOCK_SIZE = of_nat z"
    using old(6) hdr_bits(1) by (simp add: b)
  then have next_b: "GET_NEXT_BLOCK (buffer_of b) (m (size_at b) AND BLOCK_SIZE) = t + of_nat (i + 8 + z)"
    by (simp add: GET_NEXT_BLOCK_def b)
  obtain pf where pv: "m (size_at (t + of_nat (i + 8 + z))) = hdr nz nf pf"
    using old(7) unfolding n(1) hdrs.simps by blast
  show ?thesis
  proof (cases nf)
    case True
    then obtain ys1 where ys: "ys = (i + 8 + z, nz, True) # ys1"
      using n(1) by (cases ys) auto
    obtain fl sl where c: "MAPPING_INSERT (of_nat nz) = (int fl, int sl)" "fl < REAL_FLI" "sl < MAX_SLI"
      by (rule class_in_pool [OF old(1,2), of "i + 8 + z" nz True]) (use ys in auto)
    show ?thesis
      using merge_next [OF D [unfolded ys] b refl c refl refl] J ys True c(1) pv nb(1) nb(2) [of True pf]
      unfolding free_next_def next_b Let_def by (simp add: keeps_free del: of_nat_add)
  next
    case False
    then have "join_next z ys = (z, ys)"
      using n(1) by (cases "(z, ys)" rule: join_next.cases) auto
    then show ?thesis
      using D J False pv nb(2) [of False pf] unfolding free_next_def next_b Let_def by (simp del: of_nat_add)
  qed
qed


lemma free_before_last: "free_before None xs = (if xs \<noteq> [] \<and> snd (snd (last xs)) then Some (fst (last xs)) else None)"
proof (induction xs rule: rev_induct)
  case (snoc x xs)
  then show ?case
    by (cases x) (simp add: free_before_append)
qed simp

lemma free_prev_rep:
  assumes D: "detached t lo e m xs i z True ys" and b: "b = t + of_nat i" and J: "join_prev xs i z = (xs', i', z')"
  shows "detached t lo e (snd (free_prev b t m)) xs' i' z' True ys \<and> fst (free_prev b t m) = t + of_nat i' \<and>
    keeps t (xs @ ys) m (snd (free_prev b t m))"
proof -
  note old = detachedD [OF D]
  obtain z: "4 dvd z" "z < 2 ^ 32"
    by (rule class_in_pool [OF old(1,2), of i z True]) auto
  have pf: "m (size_at b) AND PREV_FREE \<noteq> 0 \<longleftrightarrow> free_before None xs \<noteq> None"
    using old(6) hdr_bits(3) [OF z] by (simp add: b)
  show ?thesis
  proof (cases "xs \<noteq> [] \<and> snd (snd (last xs))")
    case True
    then obtain xs1 p y where xs: "xs = xs1 @ [(p, y, True)]"
      by (metis append_butlast_last_id prod.collapse)
    then have prev: "m (size_at b) AND PREV_FREE \<noteq> 0" "m b = t + of_nat p" "m (size_at (t + of_nat p)) = hdr y True (free_before None xs1 \<noteq> None)"
      using pf old(5,6) by (simp_all add: free_before_append hdrs_append b)
    obtain fl sl where c: "MAPPING_INSERT (of_nat y) = (int fl, int sl)" "fl < REAL_FLI" "sl < MAX_SLI" and y: "4 dvd y" "y < 2 ^ 32"
      by (rule class_in_pool [OF old(1,2), of p y True]) (use xs in auto)
    show ?thesis
      using merge_prev [OF D [unfolded xs] b refl c refl refl] J xs c(1) prev hdr_bits(1) [OF y]
      by (simp add: free_prev_def join_prev_def Let_def keeps_free)
  next
    case False
    then show ?thesis
      using D J pf b by (auto simp: free_prev_def join_prev_def free_before_last)
  qed
qed

lemma free_insert_rep:
  assumes D: "detached t lo e m xs i z True ys" and na: "no_adjacent (xs @ (i, z, True) # ys)"
  shows "pool_rep t lo e (free_insert (t + of_nat i) t m) (xs @ (i, z, True) # ys)" "keeps t (xs @ ys) m (free_insert (t + of_nat i) t m)"
proof -
  note old = detachedD [OF D]
  let ?b = "t + of_nat i"
  obtain fl sl where c: "MAPPING_INSERT (of_nat z) = (int fl, int sl)" "fl < REAL_FLI" "sl < MAX_SLI" and z: "4 dvd z" "z < 2 ^ 32"
    by (rule class_in_pool [OF old(1,2), of i z True]) auto
  have m: "m (size_at ?b) AND BLOCK_SIZE = of_nat z"
    using old(6) hdr_bits(1) [OF z] by simp
  note A = attach [OF D na refl refl c refl refl]
  have "GET_NEXT_BLOCK (buffer_of ?b) (of_nat z) = t + of_nat (i + 8 + z)"
    by (simp add: GET_NEXT_BLOCK_def)
  then show "pool_rep t lo e (free_insert ?b t m) (xs @ (i, z, True) # ys)" "keeps t (xs @ ys) m (free_insert ?b t m)"
    using A(1,3) unfolding free_insert_def m c(1) prod.case Let_def A(2) by (simp_all only:)
qed

lemma join_prev_ok:
  assumes "no_adjacent xs" "join_prev xs i z = (xs2, i2, z2)"
  shows "xs2 = [] \<or> \<not> snd (snd (last xs2))" "no_adjacent xs2"
proof -
  have "(xs2 = [] \<or> \<not> snd (snd (last xs2))) \<and> no_adjacent xs2"
    using assms by (cases xs rule: rev_cases) (auto simp: join_prev_def no_adjacent_append split: if_splits)
  then show "xs2 = [] \<or> \<not> snd (snd (last xs2))" "no_adjacent xs2"
    by simp_all
qed

lemma join_user:
  "join_next z ys = (z1, ys1) \<Longrightarrow> user t ys1 = user t ys" "join_prev xs i z = (xs2, i2, z2) \<Longrightarrow> user t xs2 = user t xs"
proof -
  show "join_next z ys = (z1, ys1) \<Longrightarrow> user t ys1 = user t ys"
    by (cases "(z, ys)" rule: join_next.cases) auto
  show "join_prev xs i z = (xs2, i2, z2) \<Longrightarrow> user t xs2 = user t xs"
    by (cases xs rule: rev_cases) (auto simp: join_prev_def split: if_splits)
qed

text \<open>\<open>free_ex\<close> on a block in use, whatever the header behind it says of it.\<close>

lemma free_detached:
  assumes D: "detached t lo e m xs i z False ys"
  shows "pool_rep t lo e (free_ex (t + of_nat (i + 8)) t m) (release xs i z ys)"
    "keeps t (xs @ ys) m (free_ex (t + of_nat (i + 8)) t m)"
proof -
  let ?b = "t + of_nat i"
  note old = detachedD [OF D]
  define m1 where "m1 = m(size_at ?b := m (size_at ?b) OR FREE_BLOCK, prev_at ?b := 0, next_at ?b := 0)"
  obtain z1 ys1 where n: "join_next z ys = (z1, ys1)"
    by (rule prod.exhaust)
  obtain xs2 i2 z2 where p: "join_prev xs i z1 = (xs2, i2, z2)"
    by (metis prod_cases3)
  note d1 = detach [OF D refl m1_def]
  note d2 = free_next_rep [OF d1(1) refl n]
  obtain m3 where m3: "free_prev ?b t (free_next ?b t m1) = (t + of_nat i2, m3)" "detached t lo e m3 xs2 i2 z2 True ys1"
      "keeps t (xs @ ys1) (free_next ?b t m1) m3"
    using free_prev_rep [OF conjunct1 [OF d2] refl p] by (metis prod.collapse)
  have "ys1 = [] \<or> \<not> snd (snd (hd ys1))"
    using old(4) n by (cases "(z, ys)" rule: join_next.cases) (auto simp: no_adjacent_Cons)
  then have "no_adjacent (xs2 @ (i2, z2, True) # ys1)"
    using join_prev_ok(1) [OF old(3) p] detachedD(3,4) [OF m3(2)] by (auto simp: no_adjacent_append no_adjacent_Cons)
  note d4 = free_insert_rep [OF m3(2) this]
  have "buffer_of ?b = t + of_nat (i + 8)"
    by simp
  then have fin: "free_ex (t + of_nat (i + 8)) t m = free_insert (t + of_nat i2) t m3"
    using free_ex_steps [of ?b t m] block_not_null [OF old(1,2), of i z False] m3(1) unfolding m1_def [symmetric] Let_def by (simp add: add.assoc)
  show "pool_rep t lo e (free_ex (t + of_nat (i + 8)) t m) (release xs i z ys)"
    using d4(1) n p unfolding fin by (simp add: release_def)
  show "keeps t (xs @ ys) m (free_ex (t + of_nat (i + 8)) t m)"
    using d1(2) d2 m3(3) d4(2) join_user(1) [OF n] join_user(2) [OF p] unfolding fin keeps_def by simp
qed

lemma free_rep:
  assumes P: "pool_rep t lo e m (xs @ (i, z, False) # ys)"
  shows "pool_rep t lo e (free_ex (t + of_nat (i + 8)) t m) (release xs i z ys)"
    "keeps t (xs @ ys) m (free_ex (t + of_nat (i + 8)) t m)"
proof -
  note old = pool_repD [OF P]
  have "hdrs t m None (xs @ [(i, z, False)])" "hdrs t m None (with_end ys e)" "no_adjacent xs" "no_adjacent ys"
    using old(3,4) by (simp_all add: hdrs_append no_adjacent_append no_adjacent_Cons)
  then have "detached t lo e m xs i z False ys"
    using old(1,2,5) unfolding detached_def frees_used by blast
  then show "pool_rep t lo e (free_ex (t + of_nat (i + 8)) t m) (release xs i z ys)"
    "keeps t (xs @ ys) m (free_ex (t + of_nat (i + 8)) t m)"
    by (rule free_detached)+
qed

end
