(* ===== verification/Tlsf_Pool.thy ===== *)
theory Tlsf_Pool
  imports Tlsf_Release
begin

text \<open>
  A pool that \<open>init_memory_pool\<close> has set up satisfies \<open>pool_rep\<close>: the record of its area is in use and the
  rest is one free block.
\<close>

unbundle bit_operations_syntax

section \<open>A fresh pool\<close>

lemma init_area:
  assumes t: "t \<noteq> 0" "4 dvd unat t" "m t \<noteq> TLSF_SIGNATURE" and sz: "3244 \<le> unat sz" "unat sz < 2 ^ 30"
    and A: "A = ROUNDDOWN_SIZE (sz - sizeof_tlsf)"
  obtains m0 m1 m2 where "index_empty t m0" "process_area (t + of_nat 3184) A m0 = (t + of_nat 3184, m1)"
    "m2 = free_ex (t + of_nat (3200 + 8)) t m1"
    "init_memory_pool sz t mp m =
      ((m2(area_head_at t := t + of_nat 3192)) (size_at (t + of_nat 3200)) AND BLOCK_SIZE, t, m2(area_head_at t := t + of_nat 3192))"
    "unat A = (unat sz - 3180) div 8 * 8" "8 dvd unat A" "64 \<le> unat A"
proof -
  define m0 where "m0 = (memset t 0 sizeof_tlsf m)(t := TLSF_SIGNATURE)"
  have "unat (sz - sizeof_tlsf) = unat sz - 3180"
    using sz(1) unat_sub [of sizeof_tlsf sz] by (simp add: word_le_nat_alt sizeof_tlsf_def)
  then have A': "unat A = (unat sz - 3180) div 8 * 8"
    unfolding A unat_rounddown by simp
  then have A8: "8 dvd unat A" "64 \<le> unat A" "unat A < 2 ^ 31"
    using sz by auto
  have "index_empty t (memset t 0 sizeof_tlsf m)"
    using t(2) unfolding index_empty_def index_offsets
    by (auto intro!: memset_zero_word simp: sizeof_tlsf_def REAL_FLI_def MAX_SLI_def simp del: of_nat_numeral of_nat_add)
  then have e0: "index_empty t m0"
    unfolding m0_def by (intro index_empty_upd) auto
  obtain m1 where P: "process_area (t + of_nat 3184) A m0 = (t + of_nat 3184, m1)"
    using process_area_words [OF refl A8(1)] A8(2) by fastforce
  note L = process_area_layout [OF e0 refl A8 P]
  have "buffer_of (t + of_nat 3200) = t + of_nat (3200 + 8)" "buffer_of (t + of_nat 3184) = t + of_nat 3192"
    by simp_all
  then show ?thesis
    using that [OF e0 P refl _ A' A8(1,2)] init_memory_pool_eq [OF t sz(1) refl refl P [unfolded A m0_def] L(3) refl, of mp] by (simp only:)
qed

lemma empty_lists:
  assumes "index_empty t m"
  shows "free_lists t m {}"
proof -
  have "index_ok t m"
    using assms by (simp add: index_ok_def index_empty_def)
  moreover have "list_in m 0 (class_of {} fl sl)" for fl sl
    by (auto simp: list_in_def class_of_def intro!: exI [of _ "[]"])
  ultimately show ?thesis
    using assms by (simp add: free_lists_def index_empty_def spread_def)
qed

lemma area_head_rep:
  assumes P: "pool_rep t lo e m bs"
  shows "pool_rep t lo e (m(area_head_at t := v)) bs"
proof -
  let ?m = "m(area_head_at t := v)" and ?F = "frees t bs"
  note old = pool_repD [OF P]
  have c: "control t (area_head_at t)"
    by (simp add: control_def sizeof_tlsf_def)
  have far: "?m x = m x" if "\<not> control t x" for x
    using that c by auto
  have low: "?m (fl_at t) = m (fl_at t)" "?m (sl_at t (int fl)) = m (sl_at t (int fl))"
    "?m (matrix_at t (int fl) (int sl)) = m (matrix_at t (int fl) (int sl))" if "fl < REAL_FLI" "sl < MAX_SLI" for fl sl
    using index_not_low [OF that, of 4 t] by simp_all
  have r: "0 < REAL_FLI" "0 < MAX_SLI"
    by (simp_all add: REAL_FLI_def MAX_SLI_def)
  have "index_ok t ?m"
    using low r by (intro index_ok_cong [OF free_listsD(1) [OF old(5)]]) (simp_all del: fun_upd_apply)
  moreover have "list_in ?m (?m (matrix_at t (int fl) (int sl))) (class_of ?F fl sl)" if "fl < REAL_FLI" "sl < MAX_SLI" for fl sl
    unfolding low(3) [OF that] using free_listsD(4) [OF old(5) that]
  proof (rule list_in_cong)
    fix x assume "x \<in> class_of ?F fl sl"
    then show "?m (prev_at x) = m (prev_at x) \<and> ?m (next_at x) = m (next_at x)"
      using class_of_sub [of ?F fl sl] spreadD [OF free_listsD(3) [OF old(5)], of x] far by blast
  qed
  ultimately have "free_lists t ?m ?F"
    using old(5) by (simp add: free_lists_def del: fun_upd_apply)
  moreover have "hdrs t ?m None (with_end bs e)"
  proof -
    have "?m (t + of_nat i) = m (t + of_nat i) \<and> ?m (size_at (t + of_nat i)) = m (size_at (t + of_nat i))"
      if "(i, z, f) \<in> set (with_end bs e)" for i z f
      using far [OF header_words(1) [OF old(1,2) that, of 0]] far [OF header_words(1) [OF old(1,2) that, of 4]]
      unfolding at_offset by (simp del: fun_upd_apply of_nat_add)
    then show ?thesis
      using hdrs_cong [of "with_end bs e" ?m t m] old(4) by blast
  qed
  ultimately show ?thesis
    using old by (simp add: pool_rep_def)
qed

lemma area_detached:
  assumes e: "index_empty t m" and A: "8 dvd unat A" "64 \<le> unat A" "unat A < 2 ^ 30 - 3180" "unat t + unat A + 3184 \<le> 2 ^ 32"
    and k: "k = unat A - 32" and P: "process_area (t + of_nat 3184) A m = (ib, m1)"
  shows "detached t 3184 (3208 + k) m1 [(3184, 8, False)] 3200 k False []"
proof -
  have k': "32 \<le> k" "k < 2 ^ 30 - 3212" "of_nat k = A - 32" "4 dvd k"
    using A dvd_trans [of 4 8 k] dvd_diff_nat [OF A(1), of 32] by (auto simp: k of_nat_diff)
  have M: "m1 = m(t + of_nat 3188 := 8, t + of_nat 3204 := A - 32, t + of_nat 3212 := 0, t + of_nat 3208 := 0,
           t + of_nat (3208 + k) := t + of_nat 3200, t + of_nat (3212 + k) := 2,
           t + of_nat 3196 := 0, t + of_nat 3192 := t + of_nat (3208 + k))"
    using P process_area_words [OF refl A(1), of t m] A(2) by (simp add: k)
  have ne: "i \<noteq> j \<Longrightarrow> i < 2 ^ 32 \<Longrightarrow> j < 2 ^ 32 \<Longrightarrow> (f(t + of_nat j := v)) (t + of_nat i) = f (t + of_nat i)" for f :: mem and i j v
    using word_offset_eq [of i j t] by (metis fun_upd_other)
  have W: "m1 (t + of_nat 3188) = 8" "m1 (t + of_nat 3204) = A - 32" "m1 (t + of_nat (3208 + k)) = t + of_nat 3200"
    "m1 (t + of_nat (3212 + k)) = 2"
    unfolding M using k' by (simp_all add: ne fun_upd_same del: of_nat_numeral of_nat_add fun_upd_apply)
  have at: "size_at (t + of_nat 3184) = t + of_nat 3188" "size_at (t + of_nat 3200) = t + of_nat 3204"
    "size_at (t + of_nat (3208 + k)) = t + of_nat (3212 + k)"
    by simp_all
  have h: "hdr 8 False False = 8" "hdr k False False = A - 32" "hdr 0 False True = 2"
    by (simp_all add: hdr_def k'(3) PREV_FREE_def)
  have "hdrs t m1 None ([(3184, 8, False)] @ [(3200, k, False)])" "hdrs t m1 (Some 3200) (with_end [] (3208 + k))"
    unfolding append.simps hdrs.simps at W using h by simp_all
  moreover have "layout t 3184 (3208 + k)" "tiles 3184 ([(3184, 8, False)] @ [(3200, k, False)]) (3208 + k)"
    using A k' k by (auto simp: layout_def sizeof_tlsf_def)
  moreover have "8 dvd unat A" "unat A < 2 ^ 31"
    using A by auto
  then have "index_empty t m1"
    using process_area_layout(2) [OF e refl _ A(2) _ P] by blast
  then have "free_lists t m1 (frees t ([(3184, 8, False)] @ []))"
    using empty_lists by simp
  moreover have "no_adjacent [(3184, 8, False)]" "no_adjacent []"
    by simp_all
  ultimately show ?thesis
    unfolding detached_def by blast
qed

text \<open>A fresh pool: the record of the area, and the rest as one free block.\<close>

lemma init_rep:
  assumes t: "t \<noteq> 0" "4 dvd unat t" "m t \<noteq> TLSF_SIGNATURE"
    and sz: "3244 \<le> unat sz" "unat sz < 2 ^ 30" "unat t + unat sz + 4 \<le> 2 ^ 32"
    and I: "init_memory_pool sz t mp m = (r, mp', m')"
  shows "pool_rep t 3184 (3208 + unat r) m' [(3184, 8, False), (3200, unat r, True)]"
proof -
  define A where "A = ROUNDDOWN_SIZE (sz - sizeof_tlsf)"
  obtain m0 m1 m2 where e0: "index_empty t m0" and P: "process_area (t + of_nat 3184) A m0 = (t + of_nat 3184, m1)"
    and m2: "m2 = free_ex (t + of_nat (3200 + 8)) t m1"
    and I2: "init_memory_pool sz t mp m =
      ((m2(area_head_at t := t + of_nat 3192)) (size_at (t + of_nat 3200)) AND BLOCK_SIZE, t, m2(area_head_at t := t + of_nat 3192))"
    and A: "unat A = (unat sz - 3180) div 8 * 8" "8 dvd unat A" "64 \<le> unat A"
    by (rule init_area [OF t(1,2) _ sz(1,2) A_def, of m mp]) (use t(3) in auto)
  have "unat A \<le> unat sz - 3180"
    using A(1) by simp
  then have "detached t 3184 (3208 + (unat A - 32)) m1 [(3184, 8, False)] 3200 (unat A - 32) False []"
    using sz by (intro area_detached [OF e0 A(2,3) _ _ refl P]) auto
  from free_detached(1) [OF this]
  have "pool_rep t 3184 (3208 + (unat A - 32)) m2 [(3184, 8, False), (3200, unat A - 32, True)]"
    unfolding m2 by (simp add: release_def join_prev_def)
  moreover have "unat t + unat sz \<le> 2 ^ 32"
    using sz(3) by simp
  then have "unat r = unat A - 32"
    using init_pool(3) [where m = m, OF t sz(1,2) _ I] A(1) by simp
  moreover have "m' = m2(area_head_at t := t + of_nat 3192)"
    using I unfolding I2 prod.inject by metis
  ultimately show ?thesis
    using area_head_rep by metis
qed

end
