(* ===== verification/Alloc_Clients.thy ===== *)
theory Alloc_Clients
  imports Tlsf
begin

text \<open>
  The interface of a memory allocator: what its clients rely on, and what follows for every sequence of
  requests, releases and stores they make.
\<close>

section \<open>Clients\<close>

text \<open>
  The buffers a client holds, as pairs of an address and a requested size. A word at \<open>x\<close> lies in a buffer
  when its four bytes do.
\<close>

type_synonym buffers = "(u32 \<times> nat) list"

definition owns :: "buffers \<Rightarrow> u32 \<Rightarrow> bool" where
  "owns A x \<longleftrightarrow> list_ex (\<lambda>(p, n). unat (x - p) + 4 \<le> n) A"

definition disjoint_buffers :: "buffers \<Rightarrow> bool" where
  "disjoint_buffers A \<longleftrightarrow> list_all (\<lambda>(p, n). list_all (\<lambda>(q, k). p = q \<or> unat p + n \<le> unat q \<or> unat q + k \<le> unat p) A) A"

definition drop_buffer :: "u32 \<Rightarrow> buffers \<Rightarrow> buffers" where
  "drop_buffer p A = filter (\<lambda>b. fst b \<noteq> p) A"

record client =
  cmem :: mem
  held :: buffers
  stored :: "(u32 \<times> u32) list"

datatype call = Malloc u32 | Free u32 | Store u32 u32

text \<open>
  A call of a client that keeps to the rules: it asks for less than \<open>lim\<close> bytes, frees buffers it holds and
  stores aligned words inside them. \<open>stored\<close> records the words it has stored in the buffers it still holds.
\<close>

fun client_step :: "nat \<Rightarrow> (u32 \<Rightarrow> mem \<Rightarrow> u32 \<times> mem) \<Rightarrow> (u32 \<Rightarrow> mem \<Rightarrow> mem) \<Rightarrow> call \<Rightarrow> client \<Rightarrow> client option" where
  "client_step lim al de (Malloc n) s =
     (if unat n < lim then
        let (p, m) = al n (cmem s)
        in Some (if p = 0 then s\<lparr>cmem := m\<rparr> else s\<lparr>cmem := m, held := (p, unat n) # held s\<rparr>)
      else None)"
| "client_step lim al de (Free p) s =
     (if p \<in> fst ` set (held s) then
        let A = drop_buffer p (held s)
        in Some (s\<lparr>cmem := de p (cmem s), held := A, stored := filter (\<lambda>w. owns A (fst w)) (stored s)\<rparr>)
      else None)"
| "client_step lim al de (Store x v) s =
     (if 4 dvd unat x \<and> owns (held s) x then
        Some (s\<lparr>cmem := (cmem s)(x := v), stored := (x, v) # filter (\<lambda>w. fst w \<noteq> x) (stored s)\<rparr>)
      else None)"

fun client_run :: "nat \<Rightarrow> (u32 \<Rightarrow> mem \<Rightarrow> u32 \<times> mem) \<Rightarrow> (u32 \<Rightarrow> mem \<Rightarrow> mem) \<Rightarrow> call list \<Rightarrow> client \<Rightarrow> client option" where
  "client_run lim al de [] s = Some s"
| "client_run lim al de (c # cs) s =
     (case client_step lim al de c s of None \<Rightarrow> None | Some s' \<Rightarrow> client_run lim al de cs s')"

definition new_client :: "mem \<Rightarrow> client" where
  "new_client m = \<lparr>cmem = m, held = [], stored = []\<rparr>"

lemma owns_simps [simp]: "owns [] x \<longleftrightarrow> False" "owns ((p, n) # A) x \<longleftrightarrow> unat (x - p) + 4 \<le> n \<or> owns A x"
  by (simp_all add: owns_def)

lemma owns_in: "owns A x \<longleftrightarrow> (\<exists>p n. (p, n) \<in> set A \<and> unat (x - p) + 4 \<le> n)"
  by (auto simp: owns_def list_ex_iff)

lemma in_drop_buffer [simp]: "b \<in> set (drop_buffer p A) \<longleftrightarrow> b \<in> set A \<and> fst b \<noteq> p"
  by (simp add: drop_buffer_def)

lemma owns_drop: "owns (drop_buffer p A) x \<Longrightarrow> owns A x"
  unfolding owns_in by auto

section \<open>The contract\<close>

text \<open>\<open>ok m A\<close>: in the memory \<open>m\<close> the allocator has handed out the buffers \<open>A\<close>.\<close>

locale allocator =
  fixes lim :: nat and al :: "u32 \<Rightarrow> mem \<Rightarrow> u32 \<times> mem" and de :: "u32 \<Rightarrow> mem \<Rightarrow> mem" and ok :: "mem \<Rightarrow> buffers \<Rightarrow> bool"
  assumes alloc_some: "ok m A \<Longrightarrow> unat n < lim \<Longrightarrow> al n m = (p, m') \<Longrightarrow> p \<noteq> 0 \<Longrightarrow> ok m' ((p, unat n) # A)"
    and alloc_null: "ok m A \<Longrightarrow> unat n < lim \<Longrightarrow> al n m = (0, m') \<Longrightarrow> ok m' A"
    and alloc_keeps: "ok m A \<Longrightarrow> unat n < lim \<Longrightarrow> al n m = (p, m') \<Longrightarrow> owns A x \<Longrightarrow> m' x = m x"
    and free_ok: "ok m A \<Longrightarrow> p \<in> fst ` set A \<Longrightarrow> ok (de p m) (drop_buffer p A)"
    and free_keeps: "ok m A \<Longrightarrow> p \<in> fst ` set A \<Longrightarrow> owns (drop_buffer p A) x \<Longrightarrow> de p m x = m x"
    and store_ok: "ok m A \<Longrightarrow> owns A x \<Longrightarrow> ok (m(x := v)) A"
    and held_distinct: "ok m A \<Longrightarrow> distinct (map fst A)"
    and apart: "ok m A \<Longrightarrow> disjoint_buffers A"
begin

definition client_ok :: "client \<Rightarrow> bool" where
  "client_ok s \<longleftrightarrow> ok (cmem s) (held s) \<and> (\<forall>(x, v) \<in> set (stored s). owns (held s) x \<and> cmem s x = v)"

lemma client_okD: "client_ok s \<Longrightarrow> ok (cmem s) (held s)" "client_ok s \<Longrightarrow> (x, v) \<in> set (stored s) \<Longrightarrow> owns (held s) x \<and> cmem s x = v"
  by (auto simp: client_ok_def)

lemma step_ok:
  assumes "client_ok s" "client_step lim al de c s = Some s'"
  shows "client_ok s'"
proof (cases c)
  case (Malloc n)
  obtain p m where pm: "al n (cmem s) = (p, m)"
    by (rule prod.exhaust)
  then have n: "unat n < lim" "s' = (if p = 0 then s\<lparr>cmem := m\<rparr> else s\<lparr>cmem := m, held := (p, unat n) # held s\<rparr>)"
    using assms(2) Malloc by (simp_all split: if_splits)
  note ok = client_okD(1) [OF assms(1)]
  have "\<forall>(x, v) \<in> set (stored s). owns (held s) x \<and> m x = v"
    using client_okD(2) [OF assms(1)] alloc_keeps [OF ok n(1) pm] by fastforce
  then show ?thesis
    using alloc_some [OF ok n(1) pm] alloc_null [OF ok n(1)] pm n(2) by (auto simp: client_ok_def)
next
  case (Free p)
  then show ?thesis
    using assms free_ok free_keeps by (fastforce simp: client_ok_def Let_def split: if_splits)
next
  case (Store x v)
  then show ?thesis
    using assms store_ok by (auto simp: client_ok_def split: if_splits)
qed

lemma run_ok: "client_ok s \<Longrightarrow> client_run lim al de cs s = Some s' \<Longrightarrow> client_ok s'"
  by (induction cs arbitrary: s) (auto split: option.splits intro: step_ok)

text \<open>From the first call on, buffers are disjoint and keep what was stored in them.\<close>

lemma run_isolated:
  assumes "ok m []" "client_run lim al de cs (new_client m) = Some s"
  shows "ok (cmem s) (held s)" "distinct (map fst (held s))" "disjoint_buffers (held s)"
    "(x, v) \<in> set (stored s) \<Longrightarrow> cmem s x = v"
proof -
  have "client_ok (new_client m)"
    using assms(1) by (simp add: client_ok_def new_client_def)
  then have s: "client_ok s"
    using assms(2) by (rule run_ok)
  show "ok (cmem s) (held s)" "distinct (map fst (held s))" "disjoint_buffers (held s)" "(x, v) \<in> set (stored s) \<Longrightarrow> cmem s x = v"
    using client_okD [OF s] held_distinct apart by auto
qed

end

end
