(* ===== verification/Tlsf_Heap.thy ===== *)
theory Tlsf_Heap
  imports Tlsf_Pool Alloc_Clients
begin

text \<open>
  TLSF keeps the contract of an allocator: \<open>malloc_ex\<close> and \<open>free_ex\<close> hand out disjoint buffers and leave
  the contents of the buffers in use alone, and a pool whose buffers have all been returned is as new.
\<close>

section \<open>The contract of the allocator\<close>

text \<open>
  The blocks \<open>bs\<close> in use are the buffers \<open>A\<close> of the clients, each at least as large as was asked for.
\<close>

definition serves :: "u32 \<Rightarrow> buffers \<Rightarrow> block list \<Rightarrow> bool" where
  "serves t A bs \<longleftrightarrow> distinct (map fst A) \<and> fst ` set A = {t + of_nat (i + 8) | i z. (i, z, False) \<in> set bs} \<and>
     (\<forall>p n i z. (p, n) \<in> set A \<and> (i, z, False) \<in> set bs \<and> p = t + of_nat (i + 8) \<longrightarrow> n \<le> z)"

definition heap_ok :: "u32 \<Rightarrow> nat \<Rightarrow> mem \<Rightarrow> buffers \<Rightarrow> bool" where
  "heap_ok t e m A \<longleftrightarrow> (\<exists>bs. pool_rep t 3184 e m ((3184, 8, False) # bs) \<and> serves t A bs)"

lemma serves_held:
  assumes "serves t A bs" "p \<in> fst ` set A"
  obtains i z where "(i, z, False) \<in> set bs" "p = t + of_nat (i + 8)"
proof -
  have "fst ` set A = {t + of_nat (i + 8) | i z. (i, z, False) \<in> set bs}"
    using assms(1) by (simp add: serves_def)
  then have "p \<in> {t + of_nat (i + 8) | i z. (i, z, False) \<in> set bs}"
    using assms(2) by (simp only:)
  then show ?thesis
    using that by blast
qed

lemma serves_size:
  assumes "serves t A bs" "(p, n) \<in> set A" "(i, z, False) \<in> set bs" "p = t + of_nat (i + 8)"
  shows "n \<le> z"
  using assms unfolding serves_def by blast

lemma servesD:
  assumes "serves t A bs" "(p, n) \<in> set A"
  obtains i z where "(i, z, False) \<in> set bs" "p = t + of_nat (i + 8)" "n \<le> z"
proof -
  have "p \<in> fst ` set A"
    using assms(2) by force
  then obtain i z where "(i, z, False) \<in> set bs" "p = t + of_nat (i + 8)"
    by (rule serves_held [OF assms(1)])
  then show ?thesis
    using that serves_size [OF assms] by blast
qed

lemma buffer_word: "unat (x - (t + of_nat (i + 8))) = k \<Longrightarrow> x = t + of_nat (i + (8 + k))" for x :: u32
proof -
  assume "unat (x - (t + of_nat (i + 8))) = k"
  then have "x - (t + of_nat (i + 8)) = of_nat k"
    by (metis of_nat_unat ucast_id)
  then have "x = of_nat k + (t + of_nat (i + 8))"
    by (simp only: diff_eq_eq)
  then show ?thesis
    by (simp add: ac_simps)
qed

lemma serves_user:
  assumes "serves t A bs" "owns A x"
  shows "x \<in> user t bs"
proof -
  obtain p n where p: "(p, n) \<in> set A" "unat (x - p) + 4 \<le> n"
    using assms(2) by (auto simp: owns_in)
  obtain i z where i: "(i, z, False) \<in> set bs" "p = t + of_nat (i + 8)" "n \<le> z"
    by (rule servesD [OF assms(1) p(1)])
  define k where "k = 8 + unat (x - p)"
  have "x = t + of_nat (i + k)" "8 \<le> k" "k < 8 + z"
    using buffer_word [of x t i] i(2,3) p(2) unfolding k_def by (blast, simp, linarith)
  then show ?thesis
    using i(1) unfolding user_def by blast
qed

lemma block_inj:
  assumes "layout t lo e" "tiles lo bs e" "(i, z, f) \<in> set bs" "(j, y, g) \<in> set bs" "t + of_nat (i + 8) = t + of_nat (j + 8)"
  shows "i = j" "z = y" "f = g"
proof -
  have "i + 8 = j + 8"
    using assms(1,5) tiles_in [OF assms(2,3)] tiles_in [OF assms(2,4)]
    by (subst (asm) word_offset_eq) (auto simp: layout_def)
  then show "i = j" "z = y" "f = g"
    using tiles_apart [OF assms(2-4)] tiles_in [OF assms(2,3)] tiles_in [OF assms(2,4)] by auto
qed

lemma serves_new:
  assumes S: "serves t A bs" and L: "layout t lo e" "tiles lo bs' e" and p: "p = t + of_nat (i + 8)" "n \<le> k"
    and B: "(i, k, False) \<in> set bs'" "\<And>j z. (j, z, False) \<in> set bs' \<longleftrightarrow> (j, z) = (i, k) \<or> (j, z, False) \<in> set bs" "\<And>z. (i, z, False) \<notin> set bs"
  shows "serves t ((p, n) # A) bs'"
proof -
  have new: "p \<notin> fst ` set A"
  proof
    assume "p \<in> fst ` set A"
    then obtain j z where j: "(j, z, False) \<in> set bs" "p = t + of_nat (j + 8)"
      by (rule serves_held [OF S])
    then have "(j, z, False) \<in> set bs'" "t + of_nat (i + 8) = t + of_nat (j + 8)"
      using B(2) [of j z] p(1) by simp_all
    then have "i = j"
      by (rule block_inj(1) [OF L B(1)])
    then show False
      using B(3) j(1) by blast
  qed
  have "m \<le> z" if "(q, m) \<in> set A" "(j, z, False) \<in> set bs'" "q = t + of_nat (j + 8)" for q m j z
  proof -
    have "(j, z, False) \<in> set bs"
      using that new p(1) B(2) [of j z] by (metis Pair_inject fst_conv image_eqI)
    then show ?thesis
      using serves_size [OF S that(1) _ that(3)] by blast
  qed
  moreover have "n \<le> z" if "(j, z, False) \<in> set bs'" "p = t + of_nat (j + 8)" for j z
    using block_inj(2) [OF L B(1) that(1)] p that(2) by simp
  moreover have "{t + of_nat (j + 8) | j z. (j, z, False) \<in> set bs'} = insert p {t + of_nat (j + 8) | j z. (j, z, False) \<in> set bs}"
    unfolding B(2) p(1) by blast
  ultimately show ?thesis
    using S new unfolding serves_def by auto
qed

lemma serves_drop:
  assumes S: "serves t A bs" and L: "layout t lo e" "tiles lo bs e" and p: "p = t + of_nat (i + 8)" "(i, k, False) \<in> set bs"
    and B: "\<And>j z. (j, z, False) \<in> set bs' \<longleftrightarrow> j \<noteq> i \<and> (j, z, False) \<in> set bs"
  shows "serves t (drop_buffer p A) bs'"
proof -
  have inj: "j = i" if "(j, z, False) \<in> set bs" "t + of_nat (j + 8) = p" for j z
    using block_inj(1) [OF L that(1) p(2)] that(2) p(1) by simp
  have "{t + of_nat (j + 8) | j z. (j, z, False) \<in> set bs'} = {t + of_nat (j + 8) | j z. (j, z, False) \<in> set bs} - {p}"
    unfolding B using inj p(1) by blast
  moreover have "fst ` set (drop_buffer p A) = fst ` set A - {p}"
    by force
  moreover have "distinct (map fst (drop_buffer p A))"
    using S unfolding serves_def drop_buffer_def by (simp add: distinct_map_filter)
  ultimately show ?thesis
    using S B unfolding serves_def by auto
qed

lemma heap_okE:
  assumes "heap_ok t e m A"
  obtains bs where "pool_rep t 3184 e m ((3184, 8, False) # bs)" "serves t A bs" "layout t 3200 e" "tiles 3200 bs e"
proof -
  obtain bs where bs: "pool_rep t 3184 e m ((3184, 8, False) # bs)" "serves t A bs"
    using assms unfolding heap_ok_def by blast
  then show ?thesis
    using that pool_repD(1,2) [OF bs(1)] by (simp add: layout_def)
qed

lemma keeps_owned:
  assumes "keeps t cs m m'" "serves t A bs" "owns A x" "\<And>j z. (j, z, False) \<in> set bs \<Longrightarrow> (j, z, False) \<in> set cs"
  shows "m' x = m x"
proof -
  have "user t bs \<subseteq> user t cs"
    using assms(4) unfolding user_def by blast
  then show ?thesis
    using serves_user [OF assms(2,3)] assms(1) by (auto simp: keeps_def)
qed

lemma malloc_heap:
  assumes H: "heap_ok t e m A" and n: "unat n < 2 ^ 28" and M: "malloc_ex n t m = (p, m')" "p \<noteq> 0"
  shows "heap_ok t e m' ((p, unat n) # A)" "owns A x \<Longrightarrow> m' x = m x"
proof -
  obtain bs where bs: "pool_rep t 3184 e m ((3184, 8, False) # bs)" "serves t A bs" "layout t 3200 e" "tiles 3200 bs e"
    by (rule heap_okE [OF H])
  obtain xs0 i z ys r where x: "(3184, 8, False) # bs = xs0 @ (i, z, True) # ys" and r: "unat n \<le> r" "r \<le> z"
    and p: "p = t + of_nat (i + 8)" and R: "pool_rep t 3184 e m' (xs0 @ cut_block r (i, z, True) @ ys)" "keeps t (xs0 @ ys) m m'"
    by (rule malloc_rep [OF bs(1) n M])
  obtain xs where xs: "xs0 = (3184, 8, False) # xs" "bs = xs @ (i, z, True) # ys"
    using x by (cases xs0) auto
  define k where "k = (if r + 16 \<le> z then r else z)"
  let ?new = "xs @ cut_block r (i, z, True) @ ys"
  have U: "(j, y, False) \<in> set ?new \<longleftrightarrow> (j, y) = (i, k) \<or> (j, y, False) \<in> set bs" for j y
    by (auto simp: xs(2) k_def)
  have "(i, y, False) \<notin> set bs" for y
    using block_inj(3) [OF bs(3,4), of i z True i y False] xs(2) by auto
  moreover have "tiles 3200 ?new e" "(i, k, False) \<in> set ?new"
    using pool_repD(2) [OF R(1)] xs(1) by (auto simp: k_def)
  ultimately have "serves t ((p, unat n) # A) ?new"
    using r by (intro serves_new [OF bs(2,3) _ p _ _ U]) (auto simp: k_def)
  then show "heap_ok t e m' ((p, unat n) # A)"
    using R(1) xs(1) unfolding heap_ok_def by auto
  show "owns A x \<Longrightarrow> m' x = m x"
    by (rule keeps_owned [OF R(2) bs(2)]) (auto simp: xs)
qed

lemma release_used: "(j, y, False) \<in> set (release xs i z ys) \<longleftrightarrow> (j, y, False) \<in> set xs \<or> (j, y, False) \<in> set ys"
  by (cases "(z, ys)" rule: join_next.cases; cases xs rule: rev_cases) (auto simp: release_def join_prev_def)

lemma release_Cons: "release ((l, y, False) # xs) i z ys = (l, y, False) # release xs i z ys"
  by (simp add: release_def join_prev_def split: prod.splits)

lemma free_heap:
  assumes H: "heap_ok t e m A" and p: "p \<in> fst ` set A"
  shows "heap_ok t e (free_ex p t m) (drop_buffer p A)" "owns (drop_buffer p A) x \<Longrightarrow> free_ex p t m x = m x"
proof -
  obtain bs where bs: "pool_rep t 3184 e m ((3184, 8, False) # bs)" "serves t A bs" "layout t 3200 e" "tiles 3200 bs e"
    by (rule heap_okE [OF H])
  obtain i z where i: "(i, z, False) \<in> set bs" "p = t + of_nat (i + 8)"
    by (rule serves_held [OF bs(2) p])
  obtain xs ys where xs: "bs = xs @ (i, z, False) # ys"
    using i(1) by (metis split_list)
  let ?r = "(3184, 8, False)"
  have "pool_rep t 3184 e m ((?r # xs) @ (i, z, False) # ys)"
    using bs(1) xs by simp
  note R = free_rep [OF this, folded i(2), unfolded release_Cons]
  have "(j, y, False) \<in> set (release xs i z ys) \<longleftrightarrow> j \<noteq> i \<and> (j, y, False) \<in> set bs" for j y
    unfolding release_used using parts_apart(1,2) [OF bs(4) [unfolded xs]] by (auto simp: xs offset_in)
  then have S: "serves t (drop_buffer p A) (release xs i z ys)"
    by (rule serves_drop [OF bs(2-4) i(2,1)])
  then show "heap_ok t e (free_ex p t m) (drop_buffer p A)"
    using R(1) unfolding heap_ok_def by blast
  show "owns (drop_buffer p A) x \<Longrightarrow> free_ex p t m x = m x"
    by (rule keeps_owned [OF R(2) S]) (auto simp: release_used)
qed

lemma store_rep:
  assumes P: "pool_rep t lo e m bs" and x: "x \<in> user t bs"
  shows "pool_rep t lo e (m(x := v)) bs"
proof -
  note old = pool_repD [OF P]
  note W = user_words [OF old(1,2) order_refl x]
  have "x \<notin> prev_at ` Domain (frees t bs) \<and> x \<notin> next_at ` Domain (frees t bs)"
    using used_not_free [OF old(1,2)] by (intro W(3) frees_addrs) blast
  then have "free_lists t (m(x := v)) (frees t bs)"
    using free_lists_upd [OF old(5) W(1)] by blast
  moreover have "t + of_nat i \<noteq> x \<and> size_at (t + of_nat i) \<noteq> x" if "(i, z, f) \<in> set (with_end bs e)" for i z f
    using W(2) [OF that, of 0] W(2) [OF that, of 4] unfolding at_offset by (auto simp del: of_nat_add)
  then have "hdrs t (m(x := v)) None (with_end bs e)"
    using hdrs_cong [of "with_end bs e" "m(x := v)" t m None] old(4) by auto
  ultimately show ?thesis
    using old by (simp add: pool_rep_def)
qed

lemma servesE:
  assumes "heap_ok t e m A" "(p, n) \<in> set A"
  obtains i z where "unat p = unat t + (i + 8)" "n \<le> z" "3200 \<le> i" "i + 8 + z \<le> e"
    "\<And>q k. (q, k) \<in> set A \<Longrightarrow> p \<noteq> q \<Longrightarrow> unat p + z \<le> unat q \<or> unat q + k \<le> unat p"
proof -
  obtain bs where bs: "serves t A bs" "layout t 3200 e" "tiles 3200 bs e"
    by (rule heap_okE [OF assms(1)])
  have at: "unat (t + of_nat (j + 8)) = unat t + (j + 8)" if "(j, y, False) \<in> set bs" for j y
  proof -
    have lt: "unat t + (j + 8) < 2 ^ 32"
      using tiles_in [OF bs(3) that] bs(2) by (auto simp: layout_def)
    then have "unat (of_nat (j + 8) :: u32) = j + 8"
      by (subst unat_of_nat) simp
    then show ?thesis
      using lt by (subst unat_add_lem [THEN iffD1]) simp_all
  qed
  obtain i z where i: "(i, z, False) \<in> set bs" "p = t + of_nat (i + 8)" "n \<le> z"
    by (rule servesD [OF bs(1) assms(2)])
  have "unat p + z \<le> unat q \<or> unat q + k \<le> unat p" if q: "(q, k) \<in> set A" "p \<noteq> q" for q k
  proof -
    obtain j y where j: "(j, y, False) \<in> set bs" "q = t + of_nat (j + 8)" "k \<le> y"
      by (rule servesD [OF bs(1) q(1)])
    then show ?thesis
      using tiles_apart [OF bs(3) i(1) j(1)] at [OF i(1)] at [OF j(1)] i(2) q(2) by auto
  qed
  then show ?thesis
    using that [of i z] at [OF i(1)] i tiles_in [OF bs(3) i(1)] by simp
qed

lemma heap_apart:
  assumes "heap_ok t e m A"
  shows "disjoint_buffers A"
proof -
  have "p = q \<or> unat p + n \<le> unat q \<or> unat q + k \<le> unat p" if A: "(p, n) \<in> set A" "(q, k) \<in> set A" for p n q k
  proof -
    obtain z where "n \<le> z" "p \<noteq> q \<Longrightarrow> unat p + z \<le> unat q \<or> unat q + k \<le> unat p"
      by (rule servesE [OF assms A(1)]) (use A(2) in blast)
    then show ?thesis
      by linarith
  qed
  then show ?thesis
    unfolding disjoint_buffers_def list_all_iff by blast
qed

lemma malloc_heap_null:
  assumes H: "heap_ok t e m A" "unat n < 2 ^ 28" "malloc_ex n t m = (0, m')"
  shows "m' = m"
proof -
  obtain bs where bs: "pool_rep t 3184 e m ((3184, 8, False) # bs)"
    by (rule heap_okE [OF H(1)])
  obtain r fl sl where "MAPPING_SEARCH (request_size n) = (r, fl, sl)"
    by (rule prod_cases3)
  then show ?thesis
    by (rule malloc_none(1) [OF bs H(2,3)])
qed

lemma store_heap:
  assumes "heap_ok t e m A" "owns A x"
  shows "heap_ok t e (m(x := v)) A"
proof -
  obtain bs where bs: "pool_rep t 3184 e m ((3184, 8, False) # bs)" "serves t A bs"
    by (rule heap_okE [OF assms(1)])
  have "x \<in> user t ((3184, 8, False) # bs)"
    using serves_user [OF bs(2) assms(2)] user_mono [of bs "(3184, 8, False) # bs" t] by auto
  then show ?thesis
    using store_rep [OF bs(1)] bs(2) unfolding heap_ok_def by blast
qed

lemma malloc_heap_cases:
  assumes H: "heap_ok t e m A" "unat n < 2 ^ 28" "malloc_ex n t m = (p, m')"
  shows "if p = 0 then m' = m else heap_ok t e m' ((p, unat n) # A)" "owns A x \<Longrightarrow> m' x = m x"
  using malloc_heap [OF H] malloc_heap_null [OF H(1,2)] H(3) by (cases "p = 0"; simp)+

text \<open>TLSF keeps the contract, for requests below \<open>2 ^ 28\<close> bytes.\<close>

interpretation tlsf: allocator "2 ^ 28" "\<lambda>n. malloc_ex n t" "\<lambda>p. free_ex p t" "heap_ok t e" for t e
proof unfold_locales
  show "distinct (map fst A)" if "heap_ok t e m A" for m A
    using that by (auto simp: heap_ok_def serves_def)
next
  show "heap_ok t e m' ((p, unat n) # A)" if "heap_ok t e m A" "unat n < 2 ^ 28" "malloc_ex n t m = (p, m')" "p \<noteq> 0" for m A n p m'
    by (rule malloc_heap(1) [OF that])
next
  show "heap_ok t e m' A" if "heap_ok t e m A" "unat n < 2 ^ 28" "malloc_ex n t m = (0, m')" for m A n m'
    using malloc_heap_null [OF that] that(1) by simp
qed (fact malloc_heap_cases(2) free_heap store_heap heap_apart)+

section \<open>A pool that is all free\<close>

lemma all_free:
  assumes "tiles a bs e" "no_adjacent bs" "a < e" "\<And>i z. (i, z, False) \<notin> set bs"
  shows "bs = [(a, e - a - 8, True)]"
proof (cases bs rule: no_adjacent.cases)
  case (1 i z f j y g cs)
  then show ?thesis
    using assms(2,4) by (cases f; cases g) auto
qed (use assms in \<open>auto split: if_splits\<close>)

text \<open>When the clients have returned every buffer, the pool is as after its initialisation.\<close>

lemma heap_drained:
  assumes "heap_ok t e m []" "3200 < e"
  shows "pool_rep t 3184 e m [(3184, 8, False), (3200, e - 3208, True)]"
proof -
  obtain bs where bs: "pool_rep t 3184 e m ((3184, 8, False) # bs)" "serves t [] bs" "tiles 3200 bs e"
    by (rule heap_okE [OF assms(1)])
  have "(i, z, False) \<notin> set bs" for i z
    using bs(2) unfolding serves_def by auto
  moreover have "no_adjacent bs"
    using pool_repD(3) [OF bs(1)] by (simp add: no_adjacent_Cons)
  ultimately have "bs = [(3200, e - 3200 - 8, True)]"
    using all_free [OF bs(3) _ assms(2)] by blast
  then show ?thesis
    using bs(1) by simp
qed

lemma init_heap:
  assumes "t \<noteq> 0" "4 dvd unat t" "m t \<noteq> TLSF_SIGNATURE" "3244 \<le> unat sz" "unat sz < 2 ^ 30" "unat t + unat sz + 4 \<le> 2 ^ 32"
    and "init_memory_pool sz t mp m = (r, mp', m')"
  shows "heap_ok t (3208 + unat r) m' []"
  unfolding heap_ok_def serves_def by (intro exI [of _ "[(3200, unat r, True)]"]) (use init_rep [where m = m, OF assms] in auto)

lemma drained_serves:
  assumes H: "heap_ok t (3208 + k) m []" and n: "unat n < 2 ^ 28" "MAPPING_SEARCH (request_size n) = (r, fl, sl)" "unat r \<le> k"
  shows "fst (malloc_ex n t m) \<noteq> 0"
proof
  assume "fst (malloc_ex n t m) = 0"
  then have "malloc_ex n t m = (0, snd (malloc_ex n t m))"
    by (metis prod.collapse)
  moreover have "pool_rep t 3184 (3208 + k) m [(3184, 8, False), (3200, k, True)]"
    using heap_drained [OF H] by simp
  ultimately have "k < unat r"
    using malloc_none(2) [OF _ n(1) _ n(2)] by fastforce
  then show False
    using n(3) by simp
qed

text \<open>Buffers lie in the pool.\<close>

lemma held_inside:
  assumes "heap_ok t e m A" "(p, n) \<in> set A"
  shows "unat t + 3208 \<le> unat p" "unat p + n \<le> unat t + e"
proof -
  obtain i z where "unat p = unat t + (i + 8)" "n \<le> z" "3200 \<le> i" "i + 8 + z \<le> e"
    by (rule servesE [OF assms])
  then show "unat t + 3208 \<le> unat p" "unat p + n \<le> unat t + e"
    by simp_all
qed

text \<open>The first buffer of a fresh pool.\<close>

lemma first_malloc:
  assumes H: "heap_ok t (3208 + k) m []" and n: "unat n < 2 ^ 28" "MAPPING_SEARCH (request_size n) = (r, fl, sl)" "unat r \<le> k"
  obtains m' c where "malloc_ex n t m = (t + of_nat 3208, m')" "heap_ok t (3208 + k) m' [(t + of_nat 3208, unat n)]"
    "pool_rep t 3184 (3208 + k) m' ((3184, 8, False) # cut_block c (3200, k, True))"
proof -
  obtain p m' where M: "malloc_ex n t m = (p, m')"
    by (rule prod.exhaust)
  then have p: "p \<noteq> 0"
    using drained_serves [OF H n] by simp
  have "pool_rep t 3184 (3208 + k) m [(3184, 8, False), (3200, k, True)]"
    using heap_drained [OF H] by simp
  then obtain xs i z ys c where x: "[(3184, 8, False), (3200, k, True)] = xs @ (i, z, True) # ys" "p = t + of_nat (i + 8)"
      "pool_rep t 3184 (3208 + k) m' (xs @ cut_block c (i, z, True) @ ys)"
    by (rule malloc_rep [OF _ n(1) M p]) blast
  then have "xs = [(3184, 8, False)]" "i = 3200" "z = k" "ys = []"
    by (cases xs; cases "tl xs"; simp)+
  then show ?thesis
    using that [of m' c] x(2,3) M malloc_heap(1) [OF H n(1) M p] by simp
qed

text \<open>The pool at 0x1000 with 0x2000 bytes, for the examples.\<close>

lemma request_1000: "MAPPING_SEARCH (request_size 1000) = (1008, 3, 31)"
  by code_simp

lemma example_pool:
  obtains r m where "init_memory_pool 0x2000 0x1000 0 (\<lambda>_. 0) = (r, 0x1000, m)" "heap_ok 0x1000 (3208 + 4976) m []"
proof -
  obtain r mp m where I: "init_memory_pool 0x2000 0x1000 0 (\<lambda>_. 0) = (r, mp, m)"
    by (rule prod_cases3)
  have "mp = 0x1000" "unat r = 4976"
    using init_pool(2,3) [OF _ _ _ _ _ _ I] by (simp_all add: TLSF_SIGNATURE_def)
  then show ?thesis
    using that I init_heap [OF _ _ _ _ _ _ I] by (simp add: TLSF_SIGNATURE_def)
qed

end
