(* ===== verification/Libc_Heap.thy ===== *)
theory Libc_Heap
  imports Tlsf "HOL-Library.Multiset"
begin

text \<open>
  The binary heap of \<open>core/libc/heap.c\<close> on word memory: a \<open>heap_t\<close> at an address \<open>h\<close> has the address of its
  nodes, its capacity and its size in three words; a node has a signed 64-bit key and a pointer. Entry 0 of the
  nodes is a sentinel with key -1. The operations implement a priority queue, that is, a multiset from
  which a node with the least key is extracted.
\<close>

section \<open>Operations\<close>

record heapnode_t =
  key :: u64
  item :: u32

definition node_at :: "u32 \<Rightarrow> int \<Rightarrow> u32" where
  "node_at e i = e + 12 * of_int i"

definition get_node :: "mem \<Rightarrow> u32 \<Rightarrow> int \<Rightarrow> heapnode_t" where
  "get_node m e i =
     \<lparr>key = ucast (m (node_at e i)) OR push_bit 32 (ucast (m (node_at e i + 4))), item = m (node_at e i + 8)\<rparr>"

definition put_node :: "u32 \<Rightarrow> int \<Rightarrow> heapnode_t \<Rightarrow> mem \<Rightarrow> mem" where
  "put_node e i v m =
     m(node_at e i := ucast (key v), node_at e i + 4 := ucast (drop_bit 32 (key v)), node_at e i + 8 := item v)"

abbreviation key_at :: "mem \<Rightarrow> u32 \<Rightarrow> int \<Rightarrow> int" where
  "key_at m e i \<equiv> sint (key (get_node m e i))"

text \<open>The fields of \<open>heap_t\<close>.\<close>

abbreviation (input) elements_at :: "u32 \<Rightarrow> u32" where "elements_at h \<equiv> h"
abbreviation (input) capacity_at :: "u32 \<Rightarrow> u32" where "capacity_at h \<equiv> h + 4"
abbreviation (input) hsize_at :: "u32 \<Rightarrow> u32" where "hsize_at h \<equiv> h + 8"

definition LCHILD :: "int \<Rightarrow> int" where "LCHILD x = x * 2"
definition PARENT :: "int \<Rightarrow> int" where "PARENT x = x div 2"

text \<open>\<open>None\<close> is the write through a null pointer after a failed allocation. The size is not set.\<close>

definition heap_create :: "u32 \<Rightarrow> u32 \<Rightarrow> mem \<Rightarrow> (u32 \<times> mem) option" where
  "heap_create system_pool capacity m =
     (let (h, m) = malloc_ex 12 system_pool m
      in if h = 0 then None
         else
           let (e, m) = calloc_ex capacity 12 system_pool m;
               m = m(elements_at h := e);
               m = m(capacity_at h := capacity + 1)
           in if e = 0 then None
              else Some (h, m(node_at e 0 := -1, node_at e 0 + 4 := -1)))"

partial_function (option) heap_up :: "u32 \<Rightarrow> int \<Rightarrow> u64 \<Rightarrow> mem \<Rightarrow> (int \<times> mem) option" where
  "heap_up h i k m =
     (if key_at m (m (elements_at h)) (PARENT i) > sint k then
        heap_up h (PARENT i) k (put_node (m (elements_at h)) i (get_node m (m (elements_at h)) (PARENT i)) m)
      else Some (i, m))"

definition heap_insert :: "u32 \<Rightarrow> u32 \<Rightarrow> u64 \<Rightarrow> mem \<Rightarrow> mem option" where
  "heap_insert h it k m =
     (let m = m(hsize_at h := m (hsize_at h) + 1)
      in map_option (\<lambda>(i, m). put_node (m (elements_at h)) i \<lparr>key = k, item = it\<rparr> m)
           (heap_up h (sint (m (hsize_at h))) k m))"

definition heap_getmin :: "u32 \<Rightarrow> mem \<Rightarrow> u64" where
  "heap_getmin h m = (if sint (m (hsize_at h)) > 0 then key (get_node m (m (elements_at h)) 1) else -1)"

text \<open>The loop of \<open>heap_extract\<close>; \<open>lst\<close> is the index of the node that is moved.\<close>

definition smaller_child :: "u32 \<Rightarrow> int \<Rightarrow> mem \<Rightarrow> int" where
  "smaller_child h i m =
     (let child = LCHILD i
      in if child \<noteq> sint (m (hsize_at h)) \<and>
            key_at m (m (elements_at h)) (child + 1) < key_at m (m (elements_at h)) child
         then child + 1 else child)"

partial_function (option) heap_down :: "u32 \<Rightarrow> int \<Rightarrow> int \<Rightarrow> mem \<Rightarrow> (int \<times> mem) option" where
  "heap_down h lst i m =
     (if LCHILD i \<le> sint (m (hsize_at h)) then
        let child = smaller_child h i m
        in if key_at m (m (elements_at h)) lst > key_at m (m (elements_at h)) child then
             heap_down h lst child (put_node (m (elements_at h)) i (get_node m (m (elements_at h)) child) m)
           else Some (i, m)
      else Some (i, m))"

definition heap_extract :: "u32 \<Rightarrow> mem \<Rightarrow> (u32 \<times> mem) option" where
  "heap_extract h m =
     (if m (hsize_at h) = 0 then Some (0, m)
      else
        let min = item (get_node m (m (elements_at h)) 1);
            lst = sint (m (hsize_at h));
            m = m(hsize_at h := m (hsize_at h) - 1)
        in map_option (\<lambda>(i, m). (min, put_node (m (elements_at h)) i (get_node m (m (elements_at h)) lst) m))
             (heap_down h lst 1 m))"

definition heap_destroy :: "u32 \<Rightarrow> u32 \<Rightarrow> mem \<Rightarrow> mem" where
  "heap_destroy system_pool h m = free_ex h system_pool (free_ex (m (elements_at h)) system_pool m)"

section \<open>Nodes in memory\<close>

lemma node_words: "get_node (put_node e i v m) e i = v"
proof -
  have "ucast (ucast (key v) :: u32) OR push_bit 32 (ucast (ucast (drop_bit 32 (key v)) :: u32)) = key v"
    by (rule bit_word_eqI) (auto simp: bit_simps)
  then show ?thesis
    by (simp add: get_node_def put_node_def)
qed

text \<open>Offsets of the words of a node within the nodes.\<close>

lemma node_at_offset: "0 \<le> i \<Longrightarrow> node_at e i + of_nat k = e + of_nat (12 * nat i + k)"
  by (simp add: node_at_def)

lemma node_other:
  assumes "0 \<le> i" "0 \<le> j" "i \<noteq> j" "12 * nat i + 12 \<le> 2 ^ 32" "12 * nat j + 12 \<le> 2 ^ 32"
  shows "get_node (put_node e i v m) e j = get_node m e j"
proof -
  have ne: "node_at e j + of_nat a \<noteq> node_at e i + of_nat b" if "a < 12" "b < 12" for a b
  proof
    assume "node_at e j + of_nat a = node_at e i + of_nat b"
    then have "unat (of_nat (12 * nat j + a) :: u32) = unat (of_nat (12 * nat i + b) :: u32)"
      using assms(1,2) by (simp add: node_at_offset)
    then have "12 * nat j + a = 12 * nat i + b"
      using assms(4,5) that by (simp only: unat_of_nat) simp
    moreover have "nat i \<noteq> nat j"
      using assms(1-3) by simp
    ultimately show False
      using that by linarith
  qed
  show ?thesis
    using ne [of 0 0] ne [of 0 4] ne [of 0 8] ne [of 4 0] ne [of 4 4] ne [of 4 8] ne [of 8 0] ne [of 8 4] ne [of 8 8]
    by (simp add: get_node_def put_node_def)
qed


lemma node_keeps:
  assumes "0 \<le> i" "12 * nat i + 12 \<le> unat (x - e)"
  shows "put_node e i v m x = m x"
proof -
  have "x \<noteq> node_at e i + of_nat b" if "b < 12" for b
  proof
    assume "x = node_at e i + of_nat b"
    then have "x - e = of_nat (12 * nat i + b)"
      using assms(1) by (simp add: node_at_offset)
    then have "unat (x - e) = (12 * nat i + b) mod 2 ^ 32"
      by (simp only: unat_of_nat) simp
    then show False
      using assms(2) that unat_u32 [of "x - e"] by simp
  qed
  from this [of 0] this [of 4] this [of 8] show ?thesis
    by (simp add: put_node_def)
qed

section \<open>Heaps\<close>

text \<open>
  The nodes 0 to \<open>N\<close> of the heap \<open>h\<close> lie at \<open>e\<close>, and the heap's own words elsewhere. \<open>nodes_of\<close> is the
  multiset of the nodes at a set of indices.
\<close>

definition heap_fits :: "u32 \<Rightarrow> u32 \<Rightarrow> nat \<Rightarrow> bool" where
  "heap_fits h e N \<longleftrightarrow> 12 * N + 12 \<le> unat (elements_at h - e) \<and> 12 * N + 12 \<le> unat (hsize_at h - e)"

definition nodes_of :: "mem \<Rightarrow> u32 \<Rightarrow> int set \<Rightarrow> heapnode_t multiset" where
  "nodes_of m e J = image_mset (get_node m e) (mset_set J)"

definition heap_rep :: "u32 \<Rightarrow> u32 \<Rightarrow> nat \<Rightarrow> mem \<Rightarrow> heapnode_t multiset \<Rightarrow> bool" where
  "heap_rep h e N m H \<longleftrightarrow>
     heap_fits h e N \<and> m (elements_at h) = e \<and> size H \<le> N \<and> m (hsize_at h) = of_nat (size H) \<and> key_at m e 0 = -1 \<and>
     (\<forall>j \<in> {2..int (size H)}. key_at m e (j div 2) \<le> key_at m e j) \<and> H = nodes_of m e {1..int (size H)}"

lemma heap_fits_bound: "heap_fits h e N \<Longrightarrow> 12 * N + 12 < 2 ^ 32"
  using unat_u32 [of "h - e"] by (simp add: heap_fits_def)

lemma heap_put:
  assumes "heap_fits h e N" "0 \<le> i" "i \<le> int N"
  shows "put_node e i v m (elements_at h) = m (elements_at h)" "put_node e i v m (hsize_at h) = m (hsize_at h)"
    "0 \<le> j \<Longrightarrow> j \<le> int N \<Longrightarrow> get_node (put_node e i v m) e j = (if j = i then v else get_node m e j)"
proof -
  have "12 * nat i + 12 \<le> 12 * N + 12"
    using assms(2,3) by simp
  then show "put_node e i v m (elements_at h) = m (elements_at h)" "put_node e i v m (hsize_at h) = m (hsize_at h)"
    using assms by (auto simp: heap_fits_def intro!: node_keeps elim: order_trans)
  show "get_node (put_node e i v m) e j = (if j = i then v else get_node m e j)" if "0 \<le> j" "j \<le> int N"
  proof (cases "j = i")
    case True
    then show ?thesis
      by (simp add: node_words)
  next
    case False
    have "12 * nat i + 12 \<le> 2 ^ 32" "12 * nat j + 12 \<le> 2 ^ 32"
      using heap_fits_bound [OF assms(1)] assms(2,3) that by simp_all
    then show ?thesis
      using False node_other [OF assms(2) that(1)] by simp
  qed
qed

lemma nodes_of_cong:
  assumes "finite J" "\<And>j. j \<in> J \<Longrightarrow> get_node m' e j = get_node m e j"
  shows "nodes_of m' e J = nodes_of m e J"
  unfolding nodes_of_def using assms by (intro image_mset_cong) simp

lemma nodes_of_put:
  assumes "heap_fits h e N" "0 \<le> i" "i \<le> int N" "J \<subseteq> {0..int N}"
  shows "nodes_of (put_node e i v m) e J = (if i \<in> J then add_mset v (nodes_of m e (J - {i})) else nodes_of m e J)"
proof -
  have fin: "finite J"
    using assms(4) finite_subset by blast
  have eq: "nodes_of (put_node e i v m) e (J - {i}) = nodes_of m e (J - {i})"
    using fin assms(4) heap_put(3) [OF assms(1-3)] by (intro nodes_of_cong) (auto simp: subset_iff)
  show ?thesis
  proof (cases "i \<in> J")
    case True
    then have "mset_set J = add_mset i (mset_set (J - {i}))"
      using fin by (simp add: mset_set.remove)
    then show ?thesis
      using eq True heap_put(3) [OF assms(1-3), of i v m] assms(2,3) by (simp add: nodes_of_def)
  next
    case False
    then show ?thesis
      using eq by simp
  qed
qed

lemma nodes_of_remove:
  "finite J \<Longrightarrow> i \<in> J \<Longrightarrow> nodes_of m e J = add_mset (get_node m e i) (nodes_of m e (J - {i}))"
  by (simp add: nodes_of_def mset_set.remove)

text \<open>Moving the node \<open>p\<close> into a hole at \<open>i\<close> moves the hole to \<open>p\<close>.\<close>

lemma move_hole:
  assumes "heap_fits h e N" "J \<subseteq> {0..int N}" "i \<in> J" "p \<in> J" "p \<noteq> i"
  shows "nodes_of (put_node e i (get_node m e p) m) e (J - {p}) = nodes_of m e (J - {i})"
proof -
  have "nodes_of m e (J - {i}) = add_mset (get_node m e p) (nodes_of m e (J - {i} - {p}))"
    using nodes_of_remove [of "J - {i}" p m e] assms(4,5) finite_subset [OF assms(2)] by simp
  also have "J - {i} - {p} = J - {p} - {i}"
    by auto
  also have "add_mset (get_node m e p) (nodes_of m e (J - {p} - {i})) = nodes_of (put_node e i (get_node m e p) m) e (J - {p})"
    using nodes_of_put [OF assms(1), of i "J - {p}" "get_node m e p" m] assms(2,3,5) by (simp add: subset_iff)
  finally show ?thesis
    by (rule sym)
qed


section \<open>Insertion\<close>

text \<open>The nodes 1 to \<open>n\<close> are ordered apart from a hole at \<open>i\<close> that a key \<open>k\<close> may fill from below.\<close>

definition up_inv :: "u32 \<Rightarrow> int \<Rightarrow> int \<Rightarrow> int \<Rightarrow> mem \<Rightarrow> bool" where
  "up_inv e n i k m \<longleftrightarrow>
     (\<forall>j \<in> {2..n}. j \<noteq> i \<and> j div 2 \<noteq> i \<longrightarrow> key_at m e (j div 2) \<le> key_at m e j) \<and>
     (\<forall>j \<in> {2..n}. j div 2 = i \<longrightarrow> k \<le> key_at m e j \<and> (2 \<le> i \<longrightarrow> key_at m e (i div 2) \<le> key_at m e j))"

lemma up_inv_step:
  assumes "heap_fits h e N" "2 \<le> i" "i \<le> n" "n \<le> int N" "up_inv e n i k m" "key_at m e (i div 2) > k"
  shows "up_inv e n (i div 2) k (put_node e i (get_node m e (i div 2)) m)"
proof -
  define p q where "p = i div 2" and "q = p div 2"
  let ?m = "put_node e i (get_node m e p) m"
  have p: "1 \<le> p" "p < i" "0 \<le> q" "q < p"
    using assms(2) by (auto simp: p_def q_def)
  have g: "get_node ?m e j = (if j = i then get_node m e p else get_node m e j)" if "0 \<le> j" "j \<le> n" for j
    using heap_put(3) [OF assms(1), of i j] assms(2-4) that by simp
  have ord: "key_at m e (j div 2) \<le> key_at m e j" if "2 \<le> j" "j \<le> n" "j \<noteq> i" "j div 2 \<noteq> i" for j
    using assms(5) that by (simp add: up_inv_def)
  have child: "key_at m e p \<le> key_at m e j" if "2 \<le> j" "j \<le> n" "j div 2 = i" for j
    using assms(2,5) that by (auto simp: up_inv_def p_def)
  have up: "key_at m e q \<le> key_at m e p" if "2 \<le> p"
    using ord [OF that] p assms(3) by (simp add: q_def)
  have "key_at ?m e (j div 2) \<le> key_at ?m e j" if j: "2 \<le> j" "j \<le> n" "j \<noteq> p" "j div 2 \<noteq> p" for j
  proof -
    have "0 \<le> j div 2" "j div 2 \<le> n" "j \<noteq> i"
      using j by (auto simp: p_def)
    then show ?thesis
      using ord [OF j(1,2)] child [OF j(1,2)] g [of j] g [of "j div 2"] j(1,2) by simp
  qed
  moreover have "k \<le> key_at ?m e j \<and> (2 \<le> p \<longrightarrow> key_at ?m e q \<le> key_at ?m e j)"
    if j: "2 \<le> j" "j \<le> n" "j div 2 = p" for j
  proof -
    have "key_at m e p \<le> key_at ?m e j"
      using g [of j] ord [OF j(1,2)] j p by simp
    then show ?thesis
      using g [of q] up p assms(3,6) by (auto simp: p_def [symmetric])
  qed
  ultimately show ?thesis
    by (simp add: up_inv_def p_def q_def)
qed

lemma heap_up_ok:
  assumes "heap_fits h e N" "1 \<le> i" "i \<le> n" "n \<le> int N" "m (elements_at h) = e" "key_at m e 0 = -1" "-1 \<le> sint k"
    and "up_inv e n i (sint k) m"
  shows "\<exists>i' m'. heap_up h i k m = Some (i', m') \<and> 1 \<le> i' \<and> i' \<le> n \<and> m' (elements_at h) = e \<and> m' (hsize_at h) = m (hsize_at h) \<and>
    key_at m' e 0 = -1 \<and> up_inv e n i' (sint k) m' \<and> key_at m' e (i' div 2) \<le> sint k \<and>
    nodes_of m' e ({1..n} - {i'}) = nodes_of m e ({1..n} - {i})"
  using assms
proof (induction "nat i" arbitrary: i m rule: less_induct)
  case less
  show ?case
  proof (cases "key_at m e (i div 2) > sint k")
    case False
    then show ?thesis
      using less.prems by (subst heap_up.simps) (auto simp: PARENT_def)
  next
    case True
    let ?m = "put_node e i (get_node m e (i div 2)) m"
    have i: "2 \<le> i"
      using True less.prems(2,6,7) by (cases "i = 1") auto
    then have p: "1 \<le> i div 2" "i div 2 < i"
      by auto
    note put = heap_put [OF less.prems(1), of i]
    have m: "?m (elements_at h) = e" "?m (hsize_at h) = m (hsize_at h)" "key_at ?m e 0 = -1"
      using put(1,2) put(3) [of 0] less.prems(2-6) by simp_all
    have nodes: "nodes_of ?m e ({1..n} - {i div 2}) = nodes_of m e ({1..n} - {i})"
      by (rule move_hole [OF less.prems(1)]) (use p less.prems(2-4) in auto)
    have loop: "heap_up h i k m = heap_up h (i div 2) k ?m"
      using True less.prems(5) by (subst heap_up.simps) (simp add: PARENT_def)
    have inv: "up_inv e n (i div 2) (sint k) ?m"
      by (rule up_inv_step [OF less.prems(1) i less.prems(3,4,8) True])
    have "nat (i div 2) < nat i" "i div 2 \<le> n"
      using p less.prems(3) by linarith+
    then show ?thesis
      using less.hyps [OF _ less.prems(1) p(1) _ less.prems(4) m(1,3) less.prems(7) inv] by (simp only: loop nodes m(2))
  qed
qed

text \<open>Filling the hole.\<close>

lemma up_inv_fill:
  assumes "heap_fits h e N" "1 \<le> i" "i \<le> n" "n \<le> int N" "up_inv e n i (sint (key v)) m" "key_at m e (i div 2) \<le> sint (key v)"
    and "2 \<le> j" "j \<le> n"
  shows "key_at (put_node e i v m) e (j div 2) \<le> key_at (put_node e i v m) e j"
proof -
  have "get_node (put_node e i v m) e l = (if l = i then v else get_node m e l)" if "0 \<le> l" "l \<le> n" for l
    using heap_put(3) [OF assms(1), of i l] assms(2-4) that by simp
  then show ?thesis
    using assms(2,5-8) by (auto simp: up_inv_def)
qed


lemma get_node_hsize:
  assumes "heap_fits h e N" "0 \<le> j" "j \<le> int N"
  shows "get_node (m(hsize_at h := v)) e j = get_node m e j"
proof -
  have "node_at e j + of_nat b \<noteq> hsize_at h" if "b < 12" for b
  proof
    assume "node_at e j + of_nat b = hsize_at h"
    then have "hsize_at h - e = of_nat (12 * nat j + b)"
      using node_at_offset [OF assms(2), of e b] by (metis add_diff_cancel_left')
    then have "unat (hsize_at h - e) = (12 * nat j + b) mod 2 ^ 32"
      by (simp only: unat_of_nat) simp
    then have "unat (hsize_at h - e) \<le> 12 * nat j + b"
      by simp
    moreover have "12 * nat j + b < 12 * N + 12"
      using assms(2,3) that by linarith
    ultimately show False
      using assms(1) by (simp add: heap_fits_def)
  qed
  from this [of 0] this [of 4] this [of 8] show ?thesis
    by (simp add: get_node_def)
qed

lemma sint_size: "heap_fits h e N \<Longrightarrow> n \<le> N \<Longrightarrow> sint (of_nat n :: u32) = int n"
proof -
  assume "heap_fits h e N" "n \<le> N"
  then have "n < 2 ^ 31"
    using heap_fits_bound by fastforce
  then show ?thesis
    by (simp add: signed_of_nat signed_take_bit_int_eq_self)
qed

lemma heap_repI:
  assumes "heap_fits h e N" "int (size H) = n" "n \<le> int N" "m (elements_at h) = e" "m (hsize_at h) = of_nat (size H)"
    and "key_at m e 0 = -1" "\<And>j. 2 \<le> j \<Longrightarrow> j \<le> n \<Longrightarrow> key_at m e (j div 2) \<le> key_at m e j" "nodes_of m e {1..n} = H"
  shows "heap_rep h e N m H"
  using assms by (auto simp: heap_rep_def)

lemma heap_repD:
  assumes "heap_rep h e N m H" "int (size H) = n"
  shows "heap_fits h e N" "n \<le> int N" "m (elements_at h) = e" "m (hsize_at h) = of_nat (size H)" "key_at m e 0 = -1"
    "2 \<le> j \<Longrightarrow> j \<le> n \<Longrightarrow> key_at m e (j div 2) \<le> key_at m e j" "nodes_of m e {1..n} = H"
  using assms by (auto simp: heap_rep_def)

lemma heap_insert_rep:
  assumes "heap_rep h e N m H" "size H < N" "-1 \<le> sint k"
  shows "\<exists>m'. heap_insert h it k m = Some m' \<and> heap_rep h e N m' (add_mset \<lparr>key = k, item = it\<rparr> H)"
proof -
  define n v where "n = int (size H) + 1" and "v = \<lparr>key = k, item = it\<rparr>"
  define m1 where "m1 = m(hsize_at h := m (hsize_at h) + 1)"
  have "int (size H) = n - 1"
    by (simp add: n_def)
  note R = heap_repD [OF assms(1) this]
  have fits: "heap_fits h e N" and n: "1 \<le> n" "n \<le> int N"
    using R(1) assms(2) by (auto simp: n_def)
  have g: "get_node m1 e j = get_node m e j" if "0 \<le> j" "j \<le> int N" for j
    using get_node_hsize [OF fits that] by (simp add: m1_def)
  have m1: "m1 (elements_at h) = e" "m1 (hsize_at h) = of_nat (Suc (size H))" "key_at m1 e 0 = -1"
    using R(3-5) g [of 0] n by (simp_all add: m1_def)
  have "n div 2 \<le> n" "\<And>j. j \<le> n \<Longrightarrow> 2 \<le> j \<Longrightarrow> j div 2 < n"
    using n by auto
  then have "up_inv e n n (sint k) m1"
    using R(6) g n by (auto simp: up_inv_def)
  then obtain i m2 where up: "heap_up h n k m1 = Some (i, m2)" "1 \<le> i" "i \<le> n"
    and m2: "m2 (elements_at h) = e" "m2 (hsize_at h) = m1 (hsize_at h)" "key_at m2 e 0 = -1" "up_inv e n i (sint k) m2"
      "key_at m2 e (i div 2) \<le> sint k" "nodes_of m2 e ({1..n} - {i}) = nodes_of m1 e ({1..n} - {n})"
    using heap_up_ok [OF fits n(1) order.refl n(2) m1(1,3) assms(3)] by blast
  define m3 where "m3 = put_node e i v m2"
  have "nodes_of m3 e {1..n} = add_mset v (nodes_of m2 e ({1..n} - {i}))"
    using nodes_of_put [OF fits, of i "{1..n}" v m2] up(2,3) n by (auto simp: m3_def)
  also have "nodes_of m2 e ({1..n} - {i}) = nodes_of m e ({1..n} - {n})"
    unfolding m2(6) using n g by (intro nodes_of_cong) auto
  also have "{1..n} - {n} = {1..n - 1}"
    by auto
  finally have H: "nodes_of m3 e {1..n} = add_mset v H"
    using R(7) by simp
  have "sint (m1 (hsize_at h)) = n"
    using sint_size [OF fits, of "Suc (size H)"] assms(2) by (simp add: m1(2) n_def)
  then have "heap_insert h it k m = Some m3"
    using up(1) m2(1) by (simp add: heap_insert_def m1_def [symmetric] Let_def m3_def v_def)
  moreover have "heap_rep h e N m3 (add_mset v H)"
  proof (rule heap_repI [OF fits _ n(2) _ _ _ _ H])
    show "m3 (elements_at h) = e" "m3 (hsize_at h) = of_nat (size (add_mset v H))" "key_at m3 e 0 = -1"
      using heap_put [OF fits, of i] up(2,3) n m2(1-3) m1(2) by (simp_all add: m3_def)
    show "key_at m3 e (j div 2) \<le> key_at m3 e j" if "2 \<le> j" "j \<le> n" for j
      unfolding m3_def using up_inv_fill [OF fits up(2,3) n(2), of v m2 j] m2(4,5) that by (simp add: v_def)
  qed (simp add: n_def)
  ultimately show ?thesis
    by (auto simp: v_def)
qed


section \<open>Extraction\<close>

text \<open>The hole at \<open>i\<close> may be filled from above: its parent is not greater than \<open>k\<close> and the children of the hole.\<close>

definition down_inv :: "u32 \<Rightarrow> int \<Rightarrow> int \<Rightarrow> int \<Rightarrow> mem \<Rightarrow> bool" where
  "down_inv e n i k m \<longleftrightarrow>
     (\<forall>j \<in> {2..n}. j \<noteq> i \<and> j div 2 \<noteq> i \<longrightarrow> key_at m e (j div 2) \<le> key_at m e j) \<and>
     (2 \<le> i \<longrightarrow> key_at m e (i div 2) \<le> k \<and> (\<forall>j \<in> {2..n}. j div 2 = i \<longrightarrow> key_at m e (i div 2) \<le> key_at m e j))"

lemma smaller_child_ok:
  assumes "m (elements_at h) = e" "sint (m (hsize_at h)) = n" "1 \<le> i" "2 * i \<le> n" "c = smaller_child h i m"
  shows "c div 2 = i" "i < c" "c \<le> n" "\<And>j. j \<le> n \<Longrightarrow> j div 2 = i \<Longrightarrow> key_at m e c \<le> key_at m e j"
proof -
  have c: "c = (if 2 * i \<noteq> n \<and> key_at m e (2 * i + 1) < key_at m e (2 * i) then 2 * i + 1 else 2 * i)"
    using assms by (simp add: smaller_child_def LCHILD_def Let_def mult.commute)
  then show "c div 2 = i" "i < c" "c \<le> n"
    using assms(3,4) by auto
  fix j
  assume j: "j \<le> n" "j div 2 = i"
  then have "j = 2 * i \<or> j = 2 * i + 1"
    by presburger
  then show "key_at m e c \<le> key_at m e j"
    using c j(1) by (auto split: if_splits)
qed

lemma down_inv_step:
  assumes "heap_fits h e N" "1 \<le> i" "i < c" "c \<le> n" "n \<le> int N" "c div 2 = i"
    and "\<And>j. j \<le> n \<Longrightarrow> j div 2 = i \<Longrightarrow> key_at m e c \<le> key_at m e j" "down_inv e n i k m" "key_at m e c < k"
  shows "down_inv e n c k (put_node e i (get_node m e c) m)"
proof -
  define p where "p = i div 2"
  let ?m = "put_node e i (get_node m e c) m"
  have p: "0 \<le> p" "p < i" "2 \<le> i \<Longrightarrow> 1 \<le> p"
    using assms(2) by (auto simp: p_def)
  have g: "get_node ?m e j = (if j = i then get_node m e c else get_node m e j)" if "0 \<le> j" "j \<le> n" for j
    using heap_put(3) [OF assms(1), of i j] assms(2-5) that by simp
  have ord: "key_at m e (j div 2) \<le> key_at m e j" if "2 \<le> j" "j \<le> n" "j \<noteq> i" "j div 2 \<noteq> i" for j
    using assms(8) that by (simp add: down_inv_def)
  have up: "key_at m e p \<le> key_at m e c" if "2 \<le> i"
    using assms(2-4,6,8) that by (simp add: down_inv_def p_def)
  have "key_at ?m e (j div 2) \<le> key_at ?m e j" if j: "2 \<le> j" "j \<le> n" "j \<noteq> c" "j div 2 \<noteq> c" for j
  proof -
    have "0 \<le> j div 2" "j div 2 \<le> n" "j div 2 \<noteq> j"
      using j by auto
    then show ?thesis
      using ord [OF j(1,2)] assms(7) [of j] up g [of j] g [of "j div 2"] j(1,2) by (auto simp: p_def)
  qed
  moreover have "key_at ?m e i \<le> key_at ?m e j" if j: "2 \<le> j" "j \<le> n" "j div 2 = c" for j
  proof -
    have "j \<noteq> i"
      using j assms(2,3) by auto
    then show ?thesis
      using g [of i] g [of j] ord [OF j(1,2)] j assms(2-4) by simp
  qed
  moreover have "key_at ?m e i \<le> k"
    using g [of i] assms(2-4,9) by simp
  ultimately show ?thesis
    by (simp add: down_inv_def assms(6))
qed


lemma heap_down_ok:
  assumes "heap_fits h e N" "1 \<le> i" "i \<le> max 1 n" "n + 1 \<le> int N" "m (elements_at h) = e" "sint (m (hsize_at h)) = n"
    and "get_node m e (n + 1) = v" "down_inv e n i (sint (key v)) m"
  shows "\<exists>i' m'. heap_down h (n + 1) i m = Some (i', m') \<and> 1 \<le> i' \<and> i' \<le> max 1 n \<and> m' (elements_at h) = e \<and>
    m' (hsize_at h) = m (hsize_at h) \<and> key_at m' e 0 = key_at m e 0 \<and> get_node m' e (n + 1) = v \<and>
    down_inv e n i' (sint (key v)) m' \<and> (\<forall>j \<in> {2..n}. j div 2 = i' \<longrightarrow> sint (key v) \<le> key_at m' e j) \<and>
    nodes_of m' e ({1..n} - {i'}) = nodes_of m e ({1..n} - {i})"
  using assms
proof (induction "nat (n - i)" arbitrary: i m rule: less_induct)
  case less
  let ?c = "smaller_child h i m"
  show ?case
  proof (cases "2 * i \<le> n")
    case False
    then have "j div 2 \<noteq> i" if "j \<le> n" for j
      using that less.prems(2) by auto
    then show ?thesis
      using False less.prems by (subst heap_down.simps) (auto simp: LCHILD_def)
  next
    case True
    note c = smaller_child_ok [OF less.prems(5,6,2) True refl]
    show ?thesis
    proof (cases "key_at m e ?c < sint (key v)")
      case False
      then have "sint (key v) \<le> key_at m e j" if "j \<le> n" "j div 2 = i" for j
        using c(4) [OF that] by simp
      then show ?thesis
        using False less.prems by (subst heap_down.simps) (auto simp: Let_def)
    next
      case lt: True
      let ?m = "put_node e i (get_node m e ?c) m"
      have n: "n \<le> int N" "i \<le> int N" "0 \<le> i" "i \<noteq> n + 1" "0 \<le> n"
        using less.prems(2-4) True by auto
      note put = heap_put [OF less.prems(1) n(3,2)]
      have m: "?m (elements_at h) = e" "?m (hsize_at h) = m (hsize_at h)" "key_at ?m e 0 = key_at m e 0"
          "get_node ?m e (n + 1) = v"
        using put(1,2) put(3) [of 0] put(3) [of "n + 1"] less.prems n by simp_all
      have nodes: "nodes_of ?m e ({1..n} - {?c}) = nodes_of m e ({1..n} - {i})"
        by (rule move_hole [OF less.prems(1)]) (use c less.prems(2,4) True in auto)
      have loop: "heap_down h (n + 1) i m = heap_down h (n + 1) ?c ?m"
        using True lt less.prems(5-7) by (subst heap_down.simps) (simp add: LCHILD_def mult.commute Let_def)
      have inv: "down_inv e n ?c (sint (key v)) ?m"
        by (rule down_inv_step [OF less.prems(1,2) c(2,3) n(1) c(1,4) less.prems(8) lt])
      have "nat (n - ?c) < nat (n - i)" "1 \<le> ?c" "?c \<le> max 1 n"
        using c(2,3) less.prems(2) by linarith+
      then show ?thesis
        using less.hyps [OF _ less.prems(1) _ _ less.prems(4) m(1) _ m(4) inv] less.prems(6) by (simp only: loop nodes m(2,3))
    qed
  qed
qed

lemma down_inv_fill:
  assumes "heap_fits h e N" "1 \<le> i" "i \<le> int N" "n \<le> int N" "down_inv e n i (sint (key v)) m"
    and "\<forall>j \<in> {2..n}. j div 2 = i \<longrightarrow> sint (key v) \<le> key_at m e j" "2 \<le> j" "j \<le> n"
  shows "key_at (put_node e i v m) e (j div 2) \<le> key_at (put_node e i v m) e j"
proof -
  have g: "get_node (put_node e i v m) e l = (if l = i then v else get_node m e l)" if "0 \<le> l" "l \<le> n" for l
    using heap_put(3) [OF assms(1), of i l] assms(2-4) that by simp
  have "0 \<le> j div 2" "j div 2 \<le> n" "j div 2 \<noteq> j"
    using assms(7,8) by auto
  then show ?thesis
    using assms(5-8) g [of j] g [of "j div 2"] by (auto simp: down_inv_def)
qed

lemma root_least:
  assumes "\<And>j. 2 \<le> j \<Longrightarrow> j \<le> n \<Longrightarrow> key_at m e (j div 2) \<le> key_at m e j" "1 \<le> j" "j \<le> n"
  shows "key_at m e 1 \<le> key_at m e j"
  using assms(2,3)
proof (induction "nat j" arbitrary: j rule: less_induct)
  case less
  show ?case
  proof (cases "j = 1")
    case False
    then have "2 \<le> j" "1 \<le> j div 2" "nat (j div 2) < nat j" "j div 2 \<le> n"
      using less.prems by auto
    then show ?thesis
      using less.hyps [of "j div 2"] assms(1) [of j] less.prems(2) by simp
  qed simp
qed


lemma fill_last:
  assumes "heap_fits h e N" "0 \<le> n" "n + 1 \<le> int N" "1 \<le> i" "i \<le> max 1 n"
    and "nodes_of m' e ({1..n} - {i}) = nodes_of m e ({1..n} - {1})" "v = get_node m e (n + 1)"
  shows "nodes_of m e {1..n + 1} = add_mset (get_node m e 1) (nodes_of (put_node e i v m') e {1..n})"
proof -
  have "nodes_of (put_node e i v m') e {1..n} = nodes_of m e ({1..n + 1} - {1})"
  proof (cases "n = 0")
    case False
    then have "nodes_of (put_node e i v m') e {1..n} = add_mset v (nodes_of m e ({1..n} - {1}))"
      using nodes_of_put [OF assms(1), of i "{1..n}" v m'] assms(2-6) by auto
    also have "{1..n} - {1} = {1..n + 1} - {1} - {n + 1}"
      using assms(2) by auto
    finally show ?thesis
      using nodes_of_remove [of "{1..n + 1} - {1}" "n + 1" m e] assms(2,7) False by simp
  qed (simp add: nodes_of_def)
  then show ?thesis
    using nodes_of_remove [of "{1..n + 1}" 1 m e] assms(2) by simp
qed

lemma heap_extract_rep:
  assumes "heap_rep h e N m H" "H \<noteq> {#}"
  shows "\<exists>v m'. heap_extract h m = Some (item v, m') \<and> v \<in># H \<and> (\<forall>w \<in># H. sint (key v) \<le> sint (key w)) \<and>
    heap_rep h e N m' (H - {#v#})"
proof -
  define n where "n = int (size H) - 1"
  have size: "int (size H) = n + 1" and n: "0 \<le> n"
    using assms(2) by (simp_all add: n_def) (metis Suc_leI nonempty_has_size)
  note R = heap_repD [OF assms(1) size]
  define v m1 where "v = get_node m e (n + 1)" and "m1 = m(hsize_at h := m (hsize_at h) - 1)"
  have g: "get_node m1 e j = get_node m e j" if "0 \<le> j" "j \<le> int N" for j
    using get_node_hsize [OF R(1) that] by (simp add: m1_def)
  have hs: "m1 (hsize_at h) = of_nat (size H - 1)" "sint (m1 (hsize_at h)) = n" "sint (m (hsize_at h)) = n + 1" "m (hsize_at h) \<noteq> 0"
  proof -
    have s: "int (size H - 1) = n" "size H - 1 \<le> N" "size H \<le> N"
      using size n R(2) by linarith+
    show 1: "m1 (hsize_at h) = of_nat (size H - 1)"
      using assms(2) by (simp add: m1_def R(4) of_nat_diff Suc_leI nonempty_has_size)
    show "sint (m1 (hsize_at h)) = n" "sint (m (hsize_at h)) = n + 1"
      unfolding 1 R(4) sint_size [OF R(1) s(2)] sint_size [OF R(1) s(3)] using s size by simp_all
    then show "m (hsize_at h) \<noteq> 0"
      using n by auto
  qed
  have m1: "m1 (elements_at h) = e" "get_node m1 e (n + 1) = v"
    using R(2,3) g [of "n + 1"] n by (simp_all add: m1_def v_def)
  have "down_inv e n 1 (sint (key v)) m1"
    using R(2,6) g by (auto simp: down_inv_def)
  then obtain i m2 where down: "heap_down h (n + 1) 1 m1 = Some (i, m2)" "1 \<le> i" "i \<le> max 1 n"
    and m2: "m2 (elements_at h) = e" "m2 (hsize_at h) = m1 (hsize_at h)" "key_at m2 e 0 = key_at m1 e 0" "get_node m2 e (n + 1) = v"
      "down_inv e n i (sint (key v)) m2" "\<forall>j \<in> {2..n}. j div 2 = i \<longrightarrow> sint (key v) \<le> key_at m2 e j"
      "nodes_of m2 e ({1..n} - {i}) = nodes_of m1 e ({1..n} - {1})"
    using heap_down_ok [OF R(1) order.refl max.cobounded1 R(2) m1(1) hs(2) m1(2)] by blast
  define m3 where "m3 = put_node e i v m2"
  have i: "0 \<le> i" "i \<le> int N" "n \<le> int N"
    using down(2,3) R(2) n by auto
  note put = heap_put [OF R(1) i(1,2)]
  have "nodes_of m1 e ({1..n} - {1}) = nodes_of m e ({1..n} - {1})"
    using g R(2) by (intro nodes_of_cong) auto
  then have "H = add_mset (get_node m e 1) (nodes_of m3 e {1..n})"
    using fill_last [OF R(1) n R(2) down(2,3) _ v_def] m2(7) unfolding R(7) m3_def by simp
  then have H: "nodes_of m3 e {1..n} = H - {#get_node m e 1#}" "get_node m e 1 \<in># H"
    by simp_all
  have "heap_extract h m = Some (item (get_node m e 1), m3)"
    using down(1) hs(3,4) m2(1,4) R(3) by (simp add: heap_extract_def m1_def [symmetric] m3_def Let_def)
  moreover have "heap_rep h e N m3 (H - {#get_node m e 1#})"
  proof (rule heap_repI [OF R(1) _ i(3) _ _ _ _ H(1)])
    show "int (size (H - {#get_node m e 1#})) = n"
      using H(2) size n by (simp add: size_Diff_singleton)
    show "m3 (elements_at h) = e" "m3 (hsize_at h) = of_nat (size (H - {#get_node m e 1#}))" "key_at m3 e 0 = -1"
      using put m2(1-3) hs(1) H(2) down(2) g [of 0] R(5) by (simp_all add: m3_def size_Diff_singleton)
    show "key_at m3 e (j div 2) \<le> key_at m3 e j" if "2 \<le> j" "j \<le> n" for j
      unfolding m3_def by (rule down_inv_fill [OF R(1) down(2) i(2,3) m2(5,6) that])
  qed
  moreover have "sint (key (get_node m e 1)) \<le> sint (key w)" if "w \<in># H" for w
    using that root_least [OF R(6)] unfolding R(7) [symmetric] by (auto simp: nodes_of_def)
  ultimately show ?thesis
    using H(2) by blast
qed


section \<open>Priority queues\<close>

text \<open>Inserting the elements of a list one after the other, and extracting \<open>n\<close> items.\<close>

fun insert_all :: "('v \<Rightarrow> 'm \<Rightarrow> 'm option) \<Rightarrow> 'v list \<Rightarrow> 'm \<Rightarrow> 'm option" where
  "insert_all ins [] m = Some m"
| "insert_all ins (v # vs) m = Option.bind (ins v m) (insert_all ins vs)"

fun extract_many :: "('m \<Rightarrow> ('i \<times> 'm) option) \<Rightarrow> nat \<Rightarrow> 'm \<Rightarrow> ('i list \<times> 'm) option" where
  "extract_many ext 0 m = Some ([], m)"
| "extract_many ext (Suc n) m =
     Option.bind (ext m) (\<lambda>(i, m). map_option (\<lambda>(is, m). (i # is, m)) (extract_many ext n m))"

text \<open>
  The contract of a priority queue with room for \<open>cap\<close> elements: \<open>rep m H\<close> says that the state \<open>m\<close> holds the
  multiset \<open>H\<close>. Its client sorts.
\<close>

locale priority_queue =
  fixes rep :: "'m \<Rightarrow> 'v multiset \<Rightarrow> bool" and cap :: nat and ok :: "'v \<Rightarrow> bool"
    and prio :: "'v \<Rightarrow> 'k :: linorder" and payload :: "'v \<Rightarrow> 'i"
    and ins :: "'v \<Rightarrow> 'm \<Rightarrow> 'm option" and ext :: "'m \<Rightarrow> ('i \<times> 'm) option"
  assumes ins_ok: "rep m H \<Longrightarrow> size H < cap \<Longrightarrow> ok v \<Longrightarrow> \<exists>m'. ins v m = Some m' \<and> rep m' (add_mset v H)"
    and ext_ok: "rep m H \<Longrightarrow> H \<noteq> {#} \<Longrightarrow>
      \<exists>v m'. ext m = Some (payload v, m') \<and> v \<in># H \<and> (\<forall>w \<in># H. prio v \<le> prio w) \<and> rep m' (H - {#v#})"
begin

lemma insert_all_ok:
  "rep m H \<Longrightarrow> size H + length vs \<le> cap \<Longrightarrow> list_all ok vs \<Longrightarrow>
     \<exists>m'. insert_all ins vs m = Some m' \<and> rep m' (H + mset vs)"
proof (induction vs arbitrary: m H)
  case (Cons v vs)
  then obtain m1 where "ins v m = Some m1" "rep m1 (add_mset v H)"
    using ins_ok by fastforce
  then show ?case
    using Cons.IH [of m1 "add_mset v H"] Cons.prems by simp
qed simp

lemma extract_many_sorted:
  "rep m H \<Longrightarrow> size H = n \<Longrightarrow>
     \<exists>vs m'. extract_many ext n m = Some (map payload vs, m') \<and> mset vs = H \<and> sorted (map prio vs) \<and> rep m' {#}"
proof (induction n arbitrary: m H)
  case (Suc n)
  then obtain v m1 where 1: "ext m = Some (payload v, m1)" "v \<in># H" "\<forall>w \<in># H. prio v \<le> prio w" "rep m1 (H - {#v#})"
    using ext_ok [of m H] by fastforce
  then obtain vs m' where 2: "extract_many ext n m1 = Some (map payload vs, m')" "mset vs = H - {#v#}"
      "sorted (map prio vs)" "rep m' {#}"
    using Suc.IH [of m1 "H - {#v#}"] Suc.prems(2) by (auto simp: size_Diff_singleton)
  have "\<forall>w \<in> set vs. prio v \<le> prio w"
    using 1(3) 2(2) by (metis in_diffD set_mset_mset)
  then have "extract_many ext (Suc n) m = Some (map payload (v # vs), m') \<and> mset (v # vs) = H \<and> sorted (map prio (v # vs))"
    using 1 2 by simp
  then show ?case
    using 2(4) by blast
qed simp

lemma drains_sorted:
  assumes "rep m {#}" "length vs \<le> cap" "list_all ok vs"
  shows "\<exists>m1 ws m2. insert_all ins vs m = Some m1 \<and> extract_many ext (length vs) m1 = Some (map payload ws, m2) \<and>
    mset ws = mset vs \<and> sorted (map prio ws) \<and> rep m2 {#}"
  using insert_all_ok [of m "{#}" vs] extract_many_sorted [of _ "mset vs" "length vs"] assms by fastforce

end

interpretation heapq: priority_queue "heap_rep h e N" N "\<lambda>v. -1 \<le> sint (key v)" "\<lambda>v. sint (key v)" item
  "\<lambda>v. heap_insert h (item v) (key v)" "heap_extract h" for h e N
proof unfold_locales
  fix m H and v :: heapnode_t
  assume "heap_rep h e N m H" "size H < N" "-1 \<le> sint (key v)"
  from heap_insert_rep [OF this, of "item v"]
  show "\<exists>m'. heap_insert h (item v) (key v) m = Some m' \<and> heap_rep h e N m' (add_mset v H)"
    by (cases v) simp
qed (rule heap_extract_rep)

end
