(* ===== verification/Libc_Region.thy ===== *)
theory Libc_Region
  imports Libc_String
begin

text \<open>
  The region allocator of \<open>core/libc/region.c\<close>: memory is handed out from the start of a slot to its end and
  freed as a whole. The \<open>region_t\<close> at the start of the slot has five words: the start of the memory, the next free
  address, the number of bytes, the number of bytes in use, and the element size of an array under
  construction or zero.
\<close>

unbundle bit_operations_syntax

section \<open>Operations\<close>

abbreviation (input) pstart_at :: "u32 \<Rightarrow> u32" where "pstart_at r \<equiv> r"
abbreviation (input) pfree_at :: "u32 \<Rightarrow> u32" where "pfree_at r \<equiv> r + 4"
abbreviation (input) rsize_at :: "u32 \<Rightarrow> u32" where "rsize_at r \<equiv> r + 8"
abbreviation (input) used_at :: "u32 \<Rightarrow> u32" where "used_at r \<equiv> r + 12"
abbreviation (input) array_lock_at :: "u32 \<Rightarrow> u32" where "array_lock_at r \<equiv> r + 16"

definition sizeof_region :: u32 where "sizeof_region = 20"

definition new_region :: "u32 \<Rightarrow> u32 \<Rightarrow> mem \<Rightarrow> u32 \<times> mem" where
  "new_region pstart memsize m =
     (let region = pstart;
          m = m(pstart_at region := pstart + sizeof_region);
          m = m(pfree_at region := m (pstart_at region));
          m = m(rsize_at region := memsize - sizeof_region);
          m = m(used_at region := 0);
          m = m(array_lock_at region := 0)
      in (region, m))"

definition ralloc :: "u32 \<Rightarrow> u32 \<Rightarrow> mem \<Rightarrow> u32 \<times> mem" where
  "ralloc region sz m =
     (if m (array_lock_at region) \<noteq> 0 then (0, m)
      else
        let size_rounded = (sz + 3) AND NOT 3
        in if sint (m (rsize_at region)) < sint (m (used_at region) + size_rounded) then (0, m)
           else
             let pmem = m (pfree_at region);
                 m = m(pfree_at region := m (pfree_at region) + size_rounded);
                 m = m(used_at region := m (used_at region) + size_rounded)
             in (pmem, m))"

definition rcalloc :: "u32 \<Rightarrow> u32 \<Rightarrow> mem \<Rightarrow> u32 \<times> mem" where
  "rcalloc region sz m =
     (let (pbuf, m) = ralloc region sz m
      in if pbuf \<noteq> 0 then (pbuf, memset pbuf 0 sz m) else (0, m))"

definition rfree :: "u32 \<Rightarrow> mem \<Rightarrow> mem" where
  "rfree region m = m(pfree_at region := m (pstart_at region), used_at region := 0)"

definition rnew_array :: "u32 \<Rightarrow> u32 \<Rightarrow> u32 \<Rightarrow> mem \<Rightarrow> u32 \<times> mem" where
  "rnew_array region itemsize maxsize m =
     (if m (array_lock_at region) \<noteq> 0 then (0, m)
      else
        let m = m(array_lock_at region := itemsize);
            m = (if maxsize \<noteq> 0 then m(maxsize := m (rsize_at region) - m (used_at region)) else m)
        in (m (pfree_at region), m))"

definition rclose_array :: "u32 \<Rightarrow> u32 \<Rightarrow> mem \<Rightarrow> mem" where
  "rclose_array region nitems m =
     (let m = m(used_at region := m (used_at region) + m (array_lock_at region) * nitems);
          m = m(pfree_at region := m (pfree_at region) + m (array_lock_at region) * nitems);
          m = m(pfree_at region := (m (pfree_at region) + 3) AND NOT 3)
      in m(array_lock_at region := 0))"

section \<open>Allocation\<close>

text \<open>A region without an array under construction that has handed out its first \<open>u\<close> of \<open>n\<close> bytes.\<close>

definition region_ok :: "u32 \<Rightarrow> nat \<Rightarrow> nat \<Rightarrow> mem \<Rightarrow> bool" where
  "region_ok r n u m \<longleftrightarrow>
     m (array_lock_at r) = 0 \<and> m (pstart_at r) = r + sizeof_region \<and> m (pfree_at r) = r + sizeof_region + of_nat u \<and>
     m (rsize_at r) = of_nat n \<and> m (used_at r) = of_nat u \<and> u \<le> n \<and> 4 dvd u \<and> r \<noteq> 0 \<and> unat r + 20 + n \<le> 2 ^ 31"

lemma round4:
  assumes "unat sz < 2 ^ 31"
  shows "unat ((sz + 3) AND NOT 3 :: u32) = (unat sz + 3) div 4 * 4"
proof -
  have "unat (sz + 3) = unat sz + 3"
    using assms by (simp add: unat_word_ariths)
  moreover have "NOT (3 :: u32) = NOT (mask 2)"
    by (simp add: mask_eq_exp_minus_1)
  ultimately show ?thesis
    using unat_and_not_mask [of "sz + 3" 2] by simp
qed


lemma ralloc_step:
  assumes ok: "region_ok r n u m" and sz: "u + unat sz + 3 < 2 ^ 31" and k: "k = (unat sz + 3) div 4 * 4"
  shows "u + k \<le> n \<Longrightarrow> fst (ralloc r sz m) = r + sizeof_region + of_nat u \<and> region_ok r n (u + k) (snd (ralloc r sz m))"
    "n < u + k \<Longrightarrow> ralloc r sz m = (0, m)"
proof -
  define w :: u32 where "w = (sz + 3) AND NOT 3"
  have "unat w = k"
    using round4 [of sz] sz k by (simp add: w_def)
  then have w: "w = of_nat k"
    by auto
  have kb: "u + k < 2 ^ 31" "4 dvd k"
    using sz k by auto
  have sint31: "sint (of_nat i :: u32) = int i" if "i < 2 ^ 31" for i
    using that by (simp add: signed_of_nat signed_take_bit_int_eq_self)
  have "sint (m (rsize_at r)) = int n"
    using ok sint31 [of n] by (auto simp: region_ok_def)
  moreover have "sint (m (used_at r) + w) = int (u + k)"
    using ok sint31 [OF kb(1)] by (auto simp: region_ok_def w)
  ultimately have c: "sint (m (rsize_at r)) < sint (m (used_at r) + w) \<longleftrightarrow> n < u + k"
    by (simp only: of_nat_less_iff)
  have "m (array_lock_at r) = 0"
    using ok by (simp add: region_ok_def)
  then have R: "ralloc r sz m =
    (if n < u + k then (0, m)
     else (m (pfree_at r), m(pfree_at r := m (pfree_at r) + w, used_at r := m (used_at r) + w)))"
    unfolding ralloc_def Let_def w_def [symmetric] c by simp
  show "ralloc r sz m = (0, m)" if "n < u + k"
    using that R by simp
  show "fst (ralloc r sz m) = r + sizeof_region + of_nat u \<and> region_ok r n (u + k) (snd (ralloc r sz m))" if "u + k \<le> n"
    using that ok kb(2) unfolding R by (simp add: region_ok_def w)
qed

fun ralloc_all :: "u32 \<Rightarrow> u32 list \<Rightarrow> mem \<Rightarrow> u32 list \<times> mem" where
  "ralloc_all r [] m = ([], m)"
| "ralloc_all r (sz # szs) m = (let (p, m) = ralloc r sz m; (ps, m) = ralloc_all r szs m in (p # ps, m))"

text \<open>The buffers that were served, as offsets into the region's memory with their sizes.\<close>

definition buffers :: "u32 \<Rightarrow> u32 list \<Rightarrow> u32 list \<Rightarrow> (nat \<times> nat) list" where
  "buffers r ps szs = map (\<lambda>(p, sz). (unat (p - (r + sizeof_region)), unat sz)) (filter (\<lambda>(p, sz). p \<noteq> 0) (zip ps szs))"

lemma ralloc_all_disjoint:
  assumes "region_ok r n u m" "n < 2 ^ 29" "list_all (\<lambda>sz. unat sz < 2 ^ 30) szs" "ralloc_all r szs m = (ps, m')"
  shows "list_all (\<lambda>(a, k). u \<le> a \<and> a + k \<le> n) (buffers r ps szs) \<and>
    sorted_wrt (\<lambda>(a, k) (b, l). a + k \<le> b) (buffers r ps szs)"
  using assms
proof (induction szs arbitrary: u m ps)
  case (Cons sz szs)
  define k where "k = (unat sz + 3) div 4 * 4"
  obtain p m1 qs where 1: "ralloc r sz m = (p, m1)" "ralloc_all r szs m1 = (qs, m')" "ps = p # qs"
    using Cons.prems(4) by (auto split: prod.splits)
  have u: "u \<le> n" "unat r + 20 + n \<le> 2 ^ 31" "r \<noteq> 0"
    using Cons.prems(1) by (simp_all add: region_ok_def)
  have "u + unat sz + 3 < 2 ^ 31"
    using u Cons.prems(2,3) by simp
  note step = ralloc_step [OF Cons.prems(1) this k_def]
  show ?case
  proof (cases "u + k \<le> n")
    case False
    then have "buffers r ps (sz # szs) = buffers r qs szs" "m1 = m"
      using step(2) 1 by (simp_all add: buffers_def)
    then show ?thesis
      using Cons.IH [OF Cons.prems(1,2)] Cons.prems(3) 1(2) by simp
  next
    case True
    have p: "p = r + sizeof_region + of_nat u" and ok: "region_ok r n (u + k) m1"
      using step(1) [OF True] 1(1) by simp_all
    have off: "unat (p - (r + sizeof_region)) = u"
      using u by (simp add: p unat_of_nat)
    have "unat p = unat r + 20 + u"
      using u by (simp add: p sizeof_region_def unat_word_ariths unat_of_nat)
    then have "p \<noteq> 0"
      by auto
    then have "buffers r ps (sz # szs) = (u, unat sz) # buffers r qs szs"
      using 1(3) off by (simp add: buffers_def)
    moreover have "unat sz \<le> k"
      unfolding k_def by presburger
    ultimately show ?thesis
      using Cons.IH [OF ok Cons.prems(2) _ 1(2)] Cons.prems(3) True by (fastforce simp: list_all_iff)
  qed
qed (simp add: buffers_def)

lemma new_region_ok:
  assumes "unat sz < 2 ^ 31" "20 \<le> unat sz" "r \<noteq> 0" "unat r + unat sz \<le> 2 ^ 31"
  shows "fst (new_region r sz m) = r \<and> region_ok r (unat sz - 20) 0 (snd (new_region r sz m))"
  using assms by (simp add: new_region_def region_ok_def sizeof_region_def Let_def of_nat_diff)

text \<open>\<open>rfree\<close> makes the whole region available again.\<close>

lemma rfree_ok: "region_ok r n u m \<Longrightarrow> region_ok r n 0 (rfree r m)"
  by (simp add: region_ok_def rfree_def)

end
