(* ===== verification/Libc_Stdlib.thy ===== *)
theory Libc_Stdlib
  imports Libc_String
begin

text \<open>
  Character classes (\<open>core/include/ctype.h\<close>) and the conversion of strings to numbers
  (\<open>core/libc/stdlib.c\<close>). A \<open>char\<close> is signed and is extended to an \<open>int\<close>, kept as a 32-bit
  word; \<open>long\<close> has 32 bits, and its arithmetic wraps as the processor's does. The pointer
  \<open>*endptr\<close> is stored into the word memory when \<open>endptr\<close> is not null. \<open>strtoul\<close> multiplies in two
  halves to notice an overflow; it is shown to return the number the digits denote, or the greatest
  number exactly when that one does not fit.
\<close>

section \<open>ctype.h\<close>

definition isdigit :: "u32 \<Rightarrow> bool" where
  "isdigit ch \<longleftrightarrow> ch - 48 < 10"

definition isspace :: "u32 \<Rightarrow> bool" where
  "isspace ch \<longleftrightarrow> ch - 9 < 5 \<or> ch = 32"

definition isxdigit :: "u32 \<Rightarrow> bool" where
  "isxdigit ch \<longleftrightarrow> ch - 48 < 10 \<or> (ch OR 0x20) - 97 < 6"

definition isalnum :: "u32 \<Rightarrow> bool" where
  "isalnum ch \<longleftrightarrow> (ch OR 0x20) - 97 < 26 \<or> ch - 48 < 10"

section \<open>atoi\<close>

definition get_char :: "mem \<Rightarrow> u32 \<Rightarrow> u32" where
  "get_char m s = scast (get_byte m s)"

partial_function (option) skip_space :: "u32 \<Rightarrow> mem \<Rightarrow> u32 option" where
  "skip_space s m =
     (if get_char m s = 32 \<or> get_char m s - 9 < 5 then skip_space (s + 1) m else Some s)"

partial_function (option) atoi_digits :: "u32 \<Rightarrow> u32 \<Rightarrow> mem \<Rightarrow> u32 option" where
  "atoi_digits v s m =
     (if get_char m s - 48 < 10 then atoi_digits (v * 10 + get_char m s - 48) (s + 1) m else Some v)"

definition atoi :: "u32 \<Rightarrow> mem \<Rightarrow> int option" where
  "atoi s m =
     Option.bind (skip_space s m) (\<lambda>s.
       let neg = (get_char m s = 45);
           s = (if get_char m s = 45 \<or> get_char m s = 43 then s + 1 else s)
       in map_option (\<lambda>v. sint (if neg then - v else v)) (atoi_digits 0 s m))"

section \<open>strtoul and strtol\<close>

definition ULONG_MAX :: u32 where "ULONG_MAX = 0xffffffff"
definition LONG_MAX :: u32 where "LONG_MAX = 0x7fffffff"
definition LONG_MIN :: u32 where "LONG_MIN = 0x80000000"
definition ABS_LONG_MIN :: u32 where "ABS_LONG_MIN = 0x80000000"

text \<open>The base and where the digits begin. \<open>None\<close> is the early \<open>return 0\<close> for a base that is out of
  range.\<close>

definition skip0x :: "u32 \<Rightarrow> int \<Rightarrow> mem \<Rightarrow> u32 \<times> int" where
  "skip0x nptr base m =
     (if (get_char m (nptr + 1) = 120 \<or> get_char m (nptr + 1) = 88) \<and> isxdigit (get_char m (nptr + 2))
      then (nptr + 2, 16) else (nptr, base))"

definition strtoul_base :: "u32 \<Rightarrow> int \<Rightarrow> mem \<Rightarrow> (u32 \<times> int) option" where
  "strtoul_base nptr base m =
     (if base = 16 \<and> get_char m nptr = 48 then Some (skip0x nptr base m)
      else if base \<noteq> 0 then
        if (word_of_int (base - 2) :: u32) > 34 then None else Some (nptr, base)
      else if get_char m nptr = 48 then Some (skip0x nptr 8 m)
      else Some (nptr, 10))"

definition digit_value :: "u8 \<Rightarrow> u8" where
  "digit_value c =
     (if c \<ge> 97 then c - 97 + 10 else if c \<ge> 65 then c - 65 + 10 else if c \<le> 57 then c - 48 else 0xff)"

definition strtoul_add :: "int \<Rightarrow> u8 \<Rightarrow> u32 \<times> bool \<Rightarrow> u32 \<times> bool" where
  "strtoul_add base c = (\<lambda>(v, overflow).
     let x = (v AND 0xff) * word_of_int base + ucast c;
         w = drop_bit 8 v * word_of_int base + drop_bit 8 x
     in (push_bit 8 w + (x AND 0xff), if w > drop_bit 8 ULONG_MAX then True else overflow))"

partial_function (option) strtoul_loop ::
  "int \<Rightarrow> u32 \<Rightarrow> u32 \<times> bool \<Rightarrow> mem \<Rightarrow> (u32 \<times> u32 \<times> bool) option" where
  "strtoul_loop base nptr vo m =
     (if get_byte m nptr \<noteq> 0 \<and> \<not> uint (digit_value (get_byte m nptr)) \<ge> base
      then strtoul_loop base (nptr + 1) (strtoul_add base (digit_value (get_byte m nptr)) vo) m
      else Some (nptr, vo))"

partial_function (option) skip_isspace :: "u32 \<Rightarrow> mem \<Rightarrow> u32 option" where
  "skip_isspace s m = (if isspace (get_char m s) then skip_isspace (s + 1) m else Some s)"

definition strtoul :: "u32 \<Rightarrow> u32 \<Rightarrow> int \<Rightarrow> mem \<Rightarrow> (u32 \<times> mem) option" where
  "strtoul ptr endptr base m =
     Option.bind (skip_isspace ptr m) (\<lambda>nptr.
       let neg = (get_char m nptr = 45);
           orig = (if get_char m nptr = 45 \<or> get_char m nptr = 43 then nptr + 1 else nptr)
       in case strtoul_base orig base m of
            None \<Rightarrow> Some (0, m)
          | Some (nptr, base) \<Rightarrow>
              map_option (\<lambda>(nptr, v, overflow).
                  let (nptr, v) = (if nptr = orig then (ptr, 0) else (nptr, v));
                      m = (if endptr \<noteq> 0 then m(endptr := nptr) else m)
                  in (if overflow then ULONG_MAX else if neg then - v else v, m))
                (strtoul_loop base nptr (0, False) m))"

definition strtol :: "u32 \<Rightarrow> u32 \<Rightarrow> int \<Rightarrow> mem \<Rightarrow> (u32 \<times> mem) option" where
  "strtol nptr endptr base m =
     (let orig = nptr in
      Option.bind (skip_isspace nptr m) (\<lambda>nptr.
        let neg = (get_char m nptr = 45 \<and> isalnum (get_char m (nptr + 1)));
            nptr = (if neg then nptr + 1 else nptr)
        in map_option (\<lambda>(v, m).
              let m = (if endptr \<noteq> 0 \<and> m endptr = nptr then m(endptr := orig) else m)
              in (if v \<ge> ABS_LONG_MIN then
                    if v = ABS_LONG_MIN \<and> neg then v
                    else if neg then LONG_MIN else LONG_MAX
                  else if neg then - v else v, m))
            (strtoul nptr endptr base m)))"

section \<open>The value of a string of digits\<close>

lemma unat_low_byte: "unat (v AND 0xff) = unat v mod 256" for v :: u32
proof -
  have "v AND 0xff = take_bit 8 v"
    by (simp add: take_bit_eq_mask mask_eq_exp_minus_1)
  then show ?thesis
    by (simp add: take_bit_eq_mod unat_mod)
qed

lemma unat_high_bytes: "unat (drop_bit 8 v) = unat v div 256" for v :: u32
  by (simp add: drop_bit_eq_div unat_div)

lemma strtoul_add_value:
  fixes b :: nat
  assumes "b \<le> 36" "unat c < b"
  shows "strtoul_add (int b) c (v, overflow) =
    (of_nat (unat v * b + unat c), overflow \<or> unat v * b + unat c \<ge> 2 ^ 32)"
proof -
  define x w where "x = (v AND 0xff) * of_nat b + ucast c" and "w = drop_bit 8 v * of_nat b + drop_bit 8 x"
  have le: "unat v mod 256 * b \<le> 255 * 36" "unat v div 256 * b \<le> 16777215 * 36"
    by (rule mult_le_mono; use assms unat_u32 [of v] in \<open>simp; linarith\<close>)+
  have b: "unat (of_nat b :: u32) = b" "unat (ucast c :: u32) = unat c"
    using assms by (simp_all add: unat_of_nat unsigned_ucast_eq take_bit_nat_eq_self)
  have x: "unat x = unat v mod 256 * b + unat c"
    unfolding x_def using le assms b by (simp add: unat_word_ariths unat_low_byte)
  have w: "unat w = unat v div 256 * b + unat x div 256"
    unfolding w_def using le assms b x by (simp add: unat_word_ariths unat_high_bytes)
  have v: "unat v * b = 256 * (unat v div 256 * b) + unat v mod 256 * b"
    by (metis add_mult_distrib mult.assoc mult_div_mod_eq)
  have V: "256 * unat w + unat x mod 256 = unat v * b + unat c"
    unfolding w v by (simp only: add_mult_distrib2 add.assoc mult_div_mod_eq x)
  have "push_bit 8 w + (x AND 0xff) = of_nat (256 * unat w + unat x mod 256)"
    by (simp add: push_bit_eq_mult unat_low_byte [symmetric])
  moreover have "w > drop_bit 8 ULONG_MAX \<longleftrightarrow> unat v * b + unat c \<ge> 2 ^ 32"
    using V by (auto simp: ULONG_MAX_def word_less_nat_alt)
  ultimately show ?thesis
    using V by (simp add: strtoul_add_def Let_def flip: x_def w_def)
qed

definition digits_value :: "nat \<Rightarrow> nat \<Rightarrow> u8 list \<Rightarrow> nat" where
  "digits_value b a cs = foldl (\<lambda>a c. a * b + unat (digit_value c)) a cs"

definition is_digit :: "nat \<Rightarrow> u8 \<Rightarrow> bool" where
  "is_digit b c \<longleftrightarrow> c \<noteq> 0 \<and> unat (digit_value c) < b"

lemma digits_value_simps [simp]:
  "digits_value b a [] = a" "digits_value b a (c # cs) = digits_value b (a * b + unat (digit_value c)) cs"
  by (simp_all add: digits_value_def)

lemma digits_value_mono: "0 < b \<Longrightarrow> a \<le> digits_value b a cs"
proof (induction cs arbitrary: a)
  case (Cons c cs)
  have "a \<le> a * b + unat (digit_value c)"
    using Cons.prems by (simp add: trans_le_add1)
  then show ?case
    using Cons.IH [OF Cons.prems] order_trans by fastforce
qed simp

lemma strtoul_loop_step:
  "strtoul_loop (int b) p vo m =
     (if is_digit b (get_byte m p)
      then strtoul_loop (int b) (p + 1) (strtoul_add (int b) (digit_value (get_byte m p)) vo) m
      else Some (p, vo))"
proof -
  have "uint d < int b \<longleftrightarrow> unat d < b" for d :: u8
    using of_nat_less_iff [of "unat d" b, where 'a = int] by simp
  then show ?thesis
    by (subst strtoul_loop.simps) (simp add: is_digit_def not_le)
qed

text \<open>\<open>A\<close> is the number read so far; \<open>v\<close> is that number as long as it fits.\<close>

lemma strtoul_loop_value:
  assumes "0 < b" "b \<le> 36" "list_all (is_digit b) cs" "cstr m p (cs @ rest)"
    and "rest \<noteq> [] \<Longrightarrow> \<not> is_digit b (hd rest)" and "overflow \<or> unat v = A"
  shows "\<exists>v'. strtoul_loop (int b) p (v, overflow) m =
      Some (p + of_nat (length cs), v', overflow \<or> digits_value b A cs \<ge> 2 ^ 32) \<and>
    (\<not> overflow \<and> digits_value b A cs < 2 ^ 32 \<longrightarrow> unat v' = digits_value b A cs)"
  using assms(3-)
proof (induction cs arbitrary: p v overflow A)
  case Nil
  then have "\<not> is_digit b (get_byte m p)"
    by (cases rest) (simp_all add: is_digit_def)
  then show ?case
    using Nil.prems(4) unat_u32 [of v] by (subst strtoul_loop_step) auto
next
  case (Cons c cs)
  let ?d = "digit_value c"
  obtain v1 o1 where 1: "strtoul_add (int b) ?d (v, overflow) = (v1, o1)"
    by fastforce
  have c: "get_byte m p = c" "c \<noteq> 0" "unat ?d < b"
    using Cons.prems by (simp_all add: is_digit_def)
  have v1: "v1 = of_nat (unat v * b + unat ?d)" "o1 = (overflow \<or> unat v * b + unat ?d \<ge> 2 ^ 32)"
    using strtoul_add_value [OF assms(2) c(3)] 1 by simp_all
  have "unat v1 = A * b + unat ?d" if "\<not> o1"
    using that v1 Cons.prems(4) unat_of_nat [of "unat v * b + unat ?d", where 'a = 32]
    by (auto simp del: of_nat_add of_nat_mult)
  then obtain v' where "strtoul_loop (int b) (p + 1) (v1, o1) m =
      Some (p + 1 + of_nat (length cs), v', o1 \<or> digits_value b (A * b + unat ?d) cs \<ge> 2 ^ 32)"
    "\<not> o1 \<and> digits_value b (A * b + unat ?d) cs < 2 ^ 32 \<longrightarrow> unat v' = digits_value b (A * b + unat ?d) cs"
    using Cons.IH [of "p + 1" o1 v1 "A * b + unat ?d"] Cons.prems by auto
  moreover have "o1 \<Longrightarrow> overflow \<or> digits_value b (A * b + unat ?d) cs \<ge> 2 ^ 32"
    using v1(2) Cons.prems(4) digits_value_mono [OF assms(1), of "A * b + unat ?d" cs] by auto
  ultimately show ?case
    using c 1 v1(2) by (subst strtoul_loop_step) (auto simp: is_digit_def add.assoc [symmetric])
qed

lemma digit_range: "is_digit b c \<Longrightarrow> b \<le> 36 \<Longrightarrow> 48 \<le> unat c \<and> unat c \<le> 122"
  by (auto simp: is_digit_def digit_value_def word_le_nat_alt unat_word_ariths unat_sub_if' split: if_splits)

lemma get_char_digit:
  assumes "is_digit b (get_byte m p)" "b \<le> 36"
  shows "get_char m p = of_nat (unat (get_byte m p))"
proof -
  have "uint (get_byte m p) < 2 ^ 7"
    using digit_range [OF assms] of_nat_less_iff [of "unat (get_byte m p)" 128, where 'a = int] by simp
  then have "sint (get_byte m p) = uint (get_byte m p)"
    unfolding sint_uint by (intro signed_take_bit_int_eq_self) (simp_all add: order_trans [OF _ uint_ge_0])
  then show ?thesis
    by (simp add: get_char_def scast_eq)
qed

lemma unat_get_char:
  assumes "is_digit b (get_byte m p)" "b \<le> 36"
  shows "unat (get_char m p) = unat (get_byte m p)"
  using unat_of_nat [of "unat (get_byte m p)", where 'a = 32] digit_range [OF assms]
  unfolding get_char_digit [OF assms] by simp

lemma get_char_not_space:
  assumes "is_digit b (get_byte m p)" "b \<le> 36"
  shows "\<not> isspace (get_char m p)" "get_char m p \<noteq> 45" "get_char m p \<noteq> 43"
  using digit_range [OF assms] unat_get_char [OF assms]
  by (auto simp: isspace_def word_less_nat_alt unat_sub_if' word_unat_eq_iff)

lemma strtoul_digits:
  assumes "2 \<le> b" "b \<le> 36" "cs \<noteq> []" "list_all (is_digit b) cs" "cstr m p (cs @ rest)"
    and "rest \<noteq> [] \<Longrightarrow> \<not> is_digit b (hd rest)" "b = 16 \<Longrightarrow> hd cs \<noteq> 48" "length cs < 2 ^ 32"
  shows "strtoul p endptr (int b) m =
    Some (if digits_value b 0 cs < 2 ^ 32 then of_nat (digits_value b 0 cs) else ULONG_MAX,
      if endptr \<noteq> 0 then m(endptr := p + of_nat (length cs)) else m)"
proof -
  obtain c cs' where cs: "cs = c # cs'"
    using assms(3) by (cases cs) auto
  then have d: "is_digit b (get_byte m p)" and c: "get_byte m p = c"
    using assms(4,5) by auto
  note ns = get_char_not_space [OF d assms(2)]
  have ne: "p + of_nat (length cs) \<noteq> p"
    using of_nat_Suc_neq [of "length cs'"] assms(8) cs by simp
  have "get_char m p \<noteq> 48" if "b = 16"
    using assms(7) that cs c unat_get_char [OF d assms(2)] by (auto simp: word_unat_eq_iff)
  moreover have "(word_of_int (int b - 2) :: u32) \<le> 34"
    using assms(1,2) by (simp add: word_le_nat_alt unat_sub_if' unat_of_nat)
  ultimately have base: "strtoul_base p (int b) m = Some (p, int b)"
    using assms(1) by (auto simp: strtoul_base_def not_less)
  obtain v' where "strtoul_loop (int b) p (0, False) m =
      Some (p + of_nat (length cs), v', digits_value b 0 cs \<ge> 2 ^ 32)"
    and v': "digits_value b 0 cs < 2 ^ 32 \<longrightarrow> unat v' = digits_value b 0 cs"
    using strtoul_loop_value [OF _ assms(2,4,5,6), of False 0 0] assms(1) by auto
  moreover have "digits_value b 0 cs < 2 ^ 32 \<Longrightarrow> v' = of_nat (digits_value b 0 cs)"
  proof -
    have "of_nat (unat v') = v'"
      by simp
    then show "digits_value b 0 cs < 2 ^ 32 \<Longrightarrow> v' = of_nat (digits_value b 0 cs)"
      using v' by metis
  qed
  ultimately show ?thesis
    using ns ne base by (auto simp: strtoul_def skip_isspace.simps [of p])
qed

end
