(* ===== verification/Libc_Printf.thy ===== *)
theory Libc_Printf
  imports Libc_Stdlib
begin

text \<open>
  Formatted output: \<open>core/libc/stdarg.c\<close> and \<open>core/libc/vsprintf.c\<close> on the bytes of the word memory. The
  local array \<open>buf\<close>, the local pointer \<open>s\<close> and the local character \<open>ch\<close> of \<open>__v_printf\<close> have addresses, since the
  code takes them: \<open>fr\<close> is the address of the frame that holds them. The two lines of padding and the string
  \<open>(null)\<close> are constants of the program at the addresses of \<open>rodata\<close>. \<open>None\<close> is a loop over a string that does
  not end. An \<open>int\<close> is a word where it is added to, and read by \<open>sint\<close> where it is compared.
\<close>

unbundle bit_operations_syntax

section \<open>Character input\<close>

text \<open>\<open>sgetc\<close>, \<open>sputc\<close> and \<open>copystring\<close>, which no function of the file calls.\<close>

record str_data =
  data_str :: u32

definition sgetc :: "str_data \<Rightarrow> mem \<Rightarrow> int \<times> str_data" where
  "sgetc sd m =
     (let ret = get_byte m (data_str sd)
      in (if ret \<noteq> 0 then uint ret else -1, sd\<lparr>data_str := data_str sd + 1\<rparr>))"

definition sputc :: "int \<Rightarrow> str_data \<Rightarrow> mem \<Rightarrow> int \<times> str_data" where
  "sputc c sd m =
     (let sd = sd\<lparr>data_str := data_str sd - 1\<rparr>
      in (if uint (get_byte m (data_str sd)) = c then c else -1, sd))"

function copystring_loop :: "int \<Rightarrow> u32 \<Rightarrow> int \<Rightarrow> u32 \<Rightarrow> mem \<Rightarrow> int \<times> mem" where
  "copystring_loop i buf maxlen s m =
     (if i < 3 \<and> i < maxlen then
        copystring_loop (i + 1) buf maxlen s (put_byte (buf + of_int i) (get_byte m (s + of_int i)) m)
      else (i, m))"
  by auto
termination
  by (relation "measure (\<lambda>(i, buf, maxlen, s, m). nat (3 - i))") auto

declare copystring_loop.simps [simp del]

definition copystring :: "u32 \<Rightarrow> int \<Rightarrow> u32 \<Rightarrow> mem \<Rightarrow> int \<times> mem" where
  "copystring buf maxlen s m =
     (let (i, m) = copystring_loop 0 buf maxlen s m
      in if i < maxlen then (i + 1, put_byte (buf + of_int i) 0 m) else (i, m))"

text \<open>\<open>sputc\<close> puts back the character that \<open>sgetc\<close> has read.\<close>

lemma sputc_sgetc:
  assumes "sgetc sd m = (c, sd')" "c \<noteq> -1"
  shows "sputc c sd' m = (c, sd)"
  using assms by (auto simp: sgetc_def sputc_def Let_def split: if_splits)

section \<open>Numbers\<close>

definition digit_char :: "nat \<Rightarrow> bool \<Rightarrow> u8" where
  "digit_char d UpCase =
     (let c = of_nat d + 48 :: u8 in if c > 57 then c + ((if UpCase then 65 else 97) - 57 - 1) else c)"

function ltostr_loop :: "u32 \<Rightarrow> u32 \<Rightarrow> bool \<Rightarrow> u32 \<Rightarrow> u32 \<Rightarrow> u32 \<Rightarrow> mem \<Rightarrow> u32 \<times> u32 \<times> mem" where
  "ltostr_loop s base UpCase tmp i j m =
     (if tmp > s \<and> i \<noteq> 0 then
        let tmp = tmp - 1;
            m = put_byte tmp (digit_char (unat (i mod base)) UpCase) m
        in ltostr_loop s base UpCase tmp (i div base) (j + 1) m
      else (tmp, j, m))"
  by auto
termination
  by (relation "measure (\<lambda>(s, base, UpCase, tmp, i, j, m). unat tmp)") (auto intro!: unat_dec)

definition ltostr :: "u32 \<Rightarrow> u32 \<Rightarrow> u32 \<Rightarrow> u32 \<Rightarrow> bool \<Rightarrow> mem \<Rightarrow> u32 \<times> mem" where
  "ltostr s sz i base UpCase m =
     (let sz = sz - 1;
          m = put_byte (s + sz) 0 m;
          tmp = s + sz;
          base = (if base = 0 \<or> base > 36 then 10 else base);
          (tmp, j, m) = (if i = 0 then (tmp - 1, 1, put_byte (tmp - 1) 48 m) else (tmp, 0, m));
          (tmp, j, m) = ltostr_loop s base UpCase tmp i j m
      in (j, memmove s tmp (j + 1) m))"

function lltostr_loop :: "u32 \<Rightarrow> u64 \<Rightarrow> bool \<Rightarrow> u32 \<Rightarrow> u64 \<Rightarrow> u32 \<Rightarrow> mem \<Rightarrow> u32 \<times> u32 \<times> mem" where
  "lltostr_loop s base UpCase tmp i j m =
     (if tmp > s \<and> i \<noteq> 0 then
        let tmp = tmp - 1;
            m = put_byte tmp (digit_char (unat (i mod base)) UpCase) m
        in lltostr_loop s base UpCase tmp (i div base) (j + 1) m
      else (tmp, j, m))"
  by auto
termination
  by (relation "measure (\<lambda>(s, base, UpCase, tmp, i, j, m). unat tmp)") (auto intro!: unat_dec)

definition lltostr :: "u32 \<Rightarrow> u32 \<Rightarrow> u64 \<Rightarrow> u32 \<Rightarrow> bool \<Rightarrow> mem \<Rightarrow> u32 \<times> mem" where
  "lltostr s sz i base UpCase m =
     (let sz = sz - 1;
          m = put_byte (s + sz) 0 m;
          tmp = s + sz;
          base = (if base = 0 \<or> sint base > 36 then 10 else base);
          (tmp, j, m) = (if i = 0 then (tmp - 1, 1, put_byte (tmp - 1) 48 m) else (tmp, 0, m));
          (tmp, j, m) = lltostr_loop s (scast base) UpCase tmp i j m
      in (j, memmove s tmp (j + 1) m))"

declare ltostr_loop.simps [simp del] lltostr_loop.simps [simp del]

section \<open>Output\<close>

record str_cdata =
  sd_str :: u32
  sd_len :: u32
  sd_size :: u32

definition swrite :: "u32 \<Rightarrow> u32 \<Rightarrow> str_cdata \<times> mem \<Rightarrow> str_cdata \<times> mem" where
  "swrite ptr nmemb = (\<lambda>(sd, m).
     let tmp = sd_size sd - sd_len sd
     in if tmp > 0 then
          let len = (if nmemb > tmp then tmp else nmemb);
              m = (if sd_str sd \<noteq> 0 then put_byte (sd_str sd + (sd_len sd + len)) 0 (memcpy (sd_str sd + sd_len sd) ptr len m)
                   else m)
          in (sd\<lparr>sd_len := sd_len sd + len\<rparr>, m)
        else (sd, m))"

partial_function (option) skip_to_loop :: "u32 \<Rightarrow> u32 \<Rightarrow> mem \<Rightarrow> u32 option" where
  "skip_to_loop format nr m =
     (if get_byte m (format + nr) \<noteq> 0 \<and> get_byte m (format + nr) \<noteq> 37 then skip_to_loop format (nr + 1) m else Some nr)"

definition skip_to :: "u32 \<Rightarrow> mem \<Rightarrow> u32 option" where
  "skip_to format m = skip_to_loop format 0 m"

record rodata =
  pad_line :: "nat \<Rightarrow> u32"
  null_string :: u32

text \<open>The value added to \<open>len\<close> and the output.\<close>

function write_pad_loop :: "u32 \<Rightarrow> int \<Rightarrow> u32 \<Rightarrow> str_cdata \<times> mem \<Rightarrow> int \<times> u32 \<times> str_cdata \<times> mem" where
  "write_pad_loop pad len nr out =
     (if len > 15 then write_pad_loop pad (len - 16) (nr + 16) (swrite pad 16 out) else (len, nr, out))"
  by auto
termination
  by (relation "measure (\<lambda>(pad, len, nr, out). nat len)") auto

declare write_pad_loop.simps [simp del]

definition write_pad :: "rodata \<Rightarrow> int \<Rightarrow> u8 \<Rightarrow> str_cdata \<times> mem \<Rightarrow> u32 \<times> str_cdata \<times> mem" where
  "write_pad rd len padwith out =
     (let pad = pad_line rd (if padwith = 48 then 1 else 0);
          (len, nr, out) = write_pad_loop pad len 0 out
      in if len > 0 then (nr + of_int len, swrite pad (of_int len) out) else (nr, out))"


section \<open>Conversions\<close>

text \<open>The local variables of a conversion, and the variables of \<open>__v_printf\<close> with what has been written.\<close>

record conv =
  padwith :: u8
  flag_in_sign :: u8
  flag_upcase :: bool
  flag_hash :: u8
  flag_left :: bool
  flag_space :: bool
  flag_sign :: bool
  flag_dot :: bool
  flag_long :: u8
  width :: u32
  preci :: u32

definition conv0 :: conv where
  "conv0 = \<lparr>padwith = 32, flag_in_sign = 0, flag_upcase = False, flag_hash = 0, flag_left = False, flag_space = False,
     flag_sign = False, flag_dot = False, flag_long = 0, width = 0, preci = 0\<rparr>"

record printf_st =
  pout :: "str_cdata \<times> mem"
  plen :: u32
  format :: u32
  arg_ptr :: u32

abbreviation pmem :: "printf_st \<Rightarrow> mem" where
  "pmem st \<equiv> snd (pout st)"

definition set_pmem :: "mem \<Rightarrow> printf_st \<Rightarrow> printf_st" where
  "set_pmem m st = st\<lparr>pout := (fst (pout st), m)\<rparr>"

text \<open>\<open>A_WRITE(fn,p,n); len += n\<close>, and \<open>len += write_pad(fn, n, c)\<close>.\<close>

definition emit :: "u32 \<Rightarrow> u32 \<Rightarrow> printf_st \<Rightarrow> printf_st" where
  "emit p n st = st\<lparr>pout := swrite p n (pout st), plen := plen st + n\<rparr>"

definition emit_pad :: "rodata \<Rightarrow> int \<Rightarrow> u8 \<Rightarrow> printf_st \<Rightarrow> printf_st" where
  "emit_pad rd n c st =
     (let (nr, o1) = write_pad rd n c (pout st) in st\<lparr>pout := o1, plen := plen st + nr\<rparr>)"

text \<open>\<open>va_arg\<close> for a type of four bytes.\<close>

definition va_arg4 :: "printf_st \<Rightarrow> u32 \<times> printf_st" where
  "va_arg4 st = (pmem st (arg_ptr st), st\<lparr>arg_ptr := arg_ptr st + 4\<rparr>)"

definition va_arg8 :: "printf_st \<Rightarrow> u64 \<times> printf_st" where
  "va_arg8 st =
     (ucast (pmem st (arg_ptr st)) OR push_bit 32 (ucast (pmem st (arg_ptr st + 4))), st\<lparr>arg_ptr := arg_ptr st + 8\<rparr>)"

definition print_out :: "rodata \<Rightarrow> u32 \<Rightarrow> u32 \<Rightarrow> conv \<Rightarrow> printf_st \<Rightarrow> printf_st" where
  "print_out rd s sz cv st =
     (if width cv = 0 \<and> preci cv = 0 then emit s sz st
      else
        let sign = s;
            todo = (if flag_in_sign cv \<noteq> 0 then 1 else 0 :: u32);
            todo = (if sint (flag_hash cv) > 0 then scast (flag_hash cv) else todo);
            s = s + todo; sz = sz - todo; w = width cv - todo;
            vs = (if preci cv > sz then preci cv else sz)
        in if \<not> flag_left cv then
             let st = (if flag_dot cv then
                         let st = emit_pad rd (sint32 (sint w - sint vs)) 32 st;
                             st = (if todo \<noteq> 0 then emit sign todo st else st)
                         in emit_pad rd (sint32 (sint (preci cv) - sint sz)) 48 st
                       else
                         let first = (todo \<noteq> 0 \<and> padwith cv = 48);
                             st = (if first then emit sign todo st else st);
                             todo = (if first then 0 else todo);
                             st = emit_pad rd (sint32 (sint w - sint sz)) (padwith cv) st
                         in if todo \<noteq> 0 then emit sign todo st else st)
             in emit s sz st
           else
             let st = (if todo \<noteq> 0 then emit sign todo st else st);
                 st = emit_pad rd (sint32 (sint (preci cv) - sint sz)) 48 st;
                 st = emit s sz st
             in emit_pad rd (sint32 (sint w - sint vs)) 32 st)"

text \<open>The argument of a number conversion: its sign goes into \<open>flag_in_sign\<close>.\<close>

definition num_arg :: "conv \<Rightarrow> printf_st \<Rightarrow> u32 \<times> u64 \<times> conv \<times> printf_st" where
  "num_arg cv st =
     (let long = sint (flag_long cv);
          (number, llnumber, st) =
            (if long > 1 then let (v, st) = va_arg8 st in (0, v, st) else let (v, st) = va_arg4 st in (v, 0, st));
          (number, llnumber, cv) =
            (if flag_in_sign cv \<noteq> 0 \<and> long > 1 \<and> sint llnumber < 0 then (number, - llnumber, cv\<lparr>flag_in_sign := 2\<rparr>)
             else if flag_in_sign cv \<noteq> 0 \<and> sint number < 0 then (- number, llnumber, cv\<lparr>flag_in_sign := 2\<rparr>)
             else (number, llnumber, cv));
          number = (if long < 0 then number AND 0xffff else number);
          number = (if long < -1 then number AND 0xff else number)
      in (number, llnumber, cv, st))"

text \<open>From \<open>num_printf\<close> to \<open>print_out\<close>. The array \<open>buf\<close> of 128 bytes is at \<open>fr\<close>.\<close>

definition num_printf :: "rodata \<Rightarrow> u32 \<Rightarrow> u32 \<Rightarrow> u32 \<Rightarrow> conv \<Rightarrow> printf_st \<Rightarrow> printf_st" where
  "num_printf rd fr base sz cv st =
     (let s = fr + 1;
          (number, llnumber, cv, st) = num_arg cv st;
          (retval, m) = (if sint (flag_long cv) > 1 then lltostr (s + sz) 123 llnumber base (flag_upcase cv) (pmem st)
                         else ltostr (s + sz) 123 number base (flag_upcase cv) (pmem st));
          (sz, cv) = (if flag_dot cv \<and> retval = 1 \<and> get_byte m (s + sz) = 48 then
                        (if preci cv = 0 \<or> sint (flag_hash cv) > 0 then 0 else sz, cv\<lparr>flag_hash := 0\<rparr>)
                      else (sz + retval, cv))
      in if flag_in_sign cv = 2 then print_out rd (s - 1) (sz + 1) cv (set_pmem (put_byte (s - 1) 45 m) st)
         else if flag_in_sign cv \<noteq> 0 \<and> (flag_sign cv \<or> flag_space cv) then
           print_out rd (s - 1) (sz + 1) cv (set_pmem (put_byte (s - 1) (if flag_sign cv then 43 else 32) m) st)
         else print_out rd s sz (cv\<lparr>flag_in_sign := 0\<rparr>) (set_pmem m st))"

text \<open>
  The cases of the switch that end a conversion: \<open>%c\<close>, \<open>%%\<close>, \<open>%s\<close>, \<open>%b\<close>, \<open>%p\<close>, \<open>%X\<close>, \<open>%x\<close>, \<open>%d\<close>, \<open>%i\<close>,
  \<open>%u\<close>, \<open>%o\<close> and the rest. The variable \<open>ch\<close> is at \<open>fr + 132\<close>.
\<close>

definition conv_hex :: "rodata \<Rightarrow> u32 \<Rightarrow> u8 \<Rightarrow> conv \<Rightarrow> printf_st \<Rightarrow> printf_st" where
  "conv_hex rd fr ch cv st =
     (let (sz, cv, st) =
            (if flag_hash cv \<noteq> 0 then
               (2, cv\<lparr>flag_hash := 2\<rparr>, set_pmem (put_byte (fr + 2) ch (put_byte (fr + 1) 48 (pmem st))) st)
             else (0, cv, st));
          cv = (if preci cv > width cv then cv\<lparr>width := preci cv\<rparr> else cv)
      in num_printf rd fr 16 sz cv st)"

definition conv_str :: "rodata \<Rightarrow> conv \<Rightarrow> printf_st \<Rightarrow> printf_st option" where
  "conv_str rd cv st =
     (let (s, st) = va_arg4 st;
          s = (if s = 0 then null_string rd else s)
      in map_option (\<lambda>sz.
           let sz = (if flag_dot cv \<and> sz > preci cv then preci cv else sz)
           in print_out rd s sz (cv\<lparr>preci := 0, flag_dot := False, padwith := 32\<rparr>) st)
           (strlen s (pmem st)))"

definition conversion :: "rodata \<Rightarrow> u32 \<Rightarrow> u8 \<Rightarrow> conv \<Rightarrow> printf_st \<Rightarrow> printf_st option" where
  "conversion rd fr ch cv st =
     (if ch = 99 \<or> ch = 37 then
        let (ch, st) = (if ch = 99 then let (v, st) = va_arg4 st in (ucast v, st) else (ch, st))
        in Some (emit (fr + 132) 1 (set_pmem (put_byte (fr + 132) ch (pmem st)) st))
      else if ch = 115 then conv_str rd cv st
      else if ch = 98 then Some (num_printf rd fr 2 0 cv st)
      else if ch = 112 then Some (conv_hex rd fr 120 (cv\<lparr>flag_hash := 2, flag_long := 1, flag_upcase := False\<rparr>) st)
      else if ch = 88 then Some (conv_hex rd fr ch (cv\<lparr>flag_upcase := True\<rparr>) st)
      else if ch = 120 then Some (conv_hex rd fr ch cv st)
      else if ch = 100 \<or> ch = 105 then Some (num_printf rd fr 10 0 (cv\<lparr>flag_in_sign := 1\<rparr>) st)
      else if ch = 117 then Some (num_printf rd fr 10 0 cv st)
      else if ch = 111 then
        let (sz, cv, st) = (if flag_hash cv \<noteq> 0 then
                              (1, cv\<lparr>flag_hash := 1\<rparr>, set_pmem (put_byte (fr + 1) 48 (pmem st)) st)
                            else (0, cv, st))
        in Some (num_printf rd fr 8 sz cv st)
      else Some st)"

text \<open>
  The label \<open>inn_printf\<close>: the flags, the width and the precision, then the conversion. \<open>Inl\<close> is \<open>return -1\<close>. The
  variable \<open>s\<close> is at \<open>fr + 128\<close>.
\<close>

definition read_width :: "u32 \<Rightarrow> u8 \<Rightarrow> conv \<Rightarrow> printf_st \<Rightarrow> (conv \<times> printf_st) option" where
  "read_width fr ch cv st =
     map_option (\<lambda>(w, m).
       (cv\<lparr>width := w, padwith := (if ch = 48 \<and> \<not> flag_left cv then 48 else padwith cv)\<rparr>,
        set_pmem m (st\<lparr>format := m (fr + 128)\<rparr>)))
       (strtoul (format st - 1) (fr + 128) 10 (pmem st))"

definition read_preci :: "u32 \<Rightarrow> conv \<Rightarrow> printf_st \<Rightarrow> (conv \<times> printf_st) option" where
  "read_preci fr cv st =
     (let cv = cv\<lparr>flag_dot := True\<rparr>
      in if get_byte (pmem st) (format st) = 42 then
           let (tmp, st) = va_arg4 st
           in Some (cv\<lparr>preci := (if sint tmp < 0 then 0 else tmp)\<rparr>, st\<lparr>format := format st + 1\<rparr>)
         else
           map_option (\<lambda>(tmp, m). (cv\<lparr>preci := (if sint tmp < 0 then 0 else tmp)\<rparr>, set_pmem m (st\<lparr>format := m (fr + 128)\<rparr>)))
             (strtol (format st) (fr + 128) 10 (pmem st)))"

partial_function (option) inn_printf :: "rodata \<Rightarrow> u32 \<Rightarrow> conv \<Rightarrow> printf_st \<Rightarrow> (printf_st + printf_st) option" where
  "inn_printf rd fr cv st =
     (let ch = get_byte (pmem st) (format st);
          st = st\<lparr>format := format st + 1\<rparr>
      in if ch = 0 then Some (Inl st)
         else if ch = 35 then inn_printf rd fr (cv\<lparr>flag_hash := -1\<rparr>) st
         else if ch = 122 then inn_printf rd fr cv st
         else if ch = 104 then inn_printf rd fr (cv\<lparr>flag_long := flag_long cv - 1\<rparr>) st
         else if ch = 113 \<or> ch = 76 then inn_printf rd fr (cv\<lparr>flag_long := flag_long cv + 2\<rparr>) st
         else if ch = 108 then inn_printf rd fr (cv\<lparr>flag_long := flag_long cv + 1\<rparr>) st
         else if ch = 45 then inn_printf rd fr (cv\<lparr>flag_left := True\<rparr>) st
         else if ch = 32 then inn_printf rd fr (cv\<lparr>flag_space := True\<rparr>) st
         else if ch = 43 then inn_printf rd fr (cv\<lparr>flag_sign := True\<rparr>) st
         else if 48 \<le> ch \<and> ch \<le> 57 then
           if flag_dot cv then Some (Inl st)
           else Option.bind (read_width fr ch cv st) (\<lambda>(cv, st). inn_printf rd fr cv st)
         else if ch = 42 then let (w, st) = va_arg4 st in inn_printf rd fr (cv\<lparr>width := w\<rparr>) st
         else if ch = 46 then Option.bind (read_preci fr cv st) (\<lambda>(cv, st). inn_printf rd fr cv st)
         else map_option Inr (conversion rd fr ch cv st))"

partial_function (option) v_printf :: "rodata \<Rightarrow> u32 \<Rightarrow> printf_st \<Rightarrow> (u32 \<times> printf_st) option" where
  "v_printf rd fr st =
     (if get_byte (pmem st) (format st) = 0 then Some (plen st, st)
      else
        Option.bind (skip_to (format st) (pmem st)) (\<lambda>sz.
          let st = (if sz \<noteq> 0 then (emit (format st) sz st)\<lparr>format := format st + sz\<rparr> else st)
          in if get_byte (pmem st) (format st) = 37 then
               Option.bind (inn_printf rd fr conv0 (st\<lparr>format := format st + 1\<rparr>)) (\<lambda>r.
                 case r of Inl st \<Rightarrow> Some (-1, st) | Inr st \<Rightarrow> v_printf rd fr st)
             else v_printf rd fr st))"

definition vsnprintf :: "rodata \<Rightarrow> u32 \<Rightarrow> u32 \<Rightarrow> u32 \<Rightarrow> u32 \<Rightarrow> u32 \<Rightarrow> mem \<Rightarrow> (u32 \<times> mem) option" where
  "vsnprintf rd fr str sz fmt args m =
     (let sd = \<lparr>sd_str = str, sd_len = 0, sd_size = (if sz \<noteq> 0 then sz - 1 else 0)\<rparr>
      in map_option (\<lambda>(n, st).
           (n, if str \<noteq> 0 \<and> sz \<noteq> 0 \<and> sint n \<ge> 0 then
                 if sz \<noteq> -1 \<and> n \<ge> sz then put_byte (str + (sz - 1)) 0 (pmem st) else put_byte (str + n) 0 (pmem st)
               else pmem st))
           (v_printf rd fr \<lparr>pout = (sd, m), plen = 0, format = fmt, arg_ptr = args\<rparr>))"

definition vsprintf :: "rodata \<Rightarrow> u32 \<Rightarrow> u32 \<Rightarrow> u32 \<Rightarrow> u32 \<Rightarrow> mem \<Rightarrow> (u32 \<times> mem) option" where
  "vsprintf rd fr dest fmt args m = vsnprintf rd fr dest (-1) fmt args m"

end
