(* ===== verification/Printf_Numbers.thy ===== *)
theory Printf_Numbers
  imports Libc_Printf
begin

text \<open>
  The conversions of integers of \<open>core/libc/stdarg.c\<close>: \<open>__ltostr\<close> and \<open>__lltostr\<close> write the digits of a number, \<open>strtoul\<close> of
  \<open>stdlib.c\<close> reads them back, and \<open>vsnprintf\<close> with one conversion leaves the text of its argument in the buffer.
\<close>

section \<open>Printing numbers\<close>

function digits :: "nat \<Rightarrow> bool \<Rightarrow> nat \<Rightarrow> u8 list" where
  "digits b up i = (if i = 0 \<or> b < 2 then [] else digits b up (i div b) @ [digit_char (i mod b) up])"
  by auto
termination
  by (relation "measure (\<lambda>(b, up, i). i)") auto

declare digits.simps [simp del]

definition number_string :: "nat \<Rightarrow> bool \<Rightarrow> nat \<Rightarrow> u8 list" where
  "number_string b up i = (if i = 0 then [48] else digits b up i)"

lemma digits_0 [simp]: "digits b up 0 = []"
  by (simp add: digits.simps)

lemma digits_step: "0 < i \<Longrightarrow> 2 \<le> b \<Longrightarrow> digits b up i = digits b up (i div b) @ [digit_char (i mod b) up]"
  by (simp add: digits.simps)

lemma digit_char_value:
  assumes "d < 36"
  shows "digit_value (digit_char d up) = of_nat d" "digit_char d up \<noteq> 0"
proof -
  have "list_all (\<lambda>d. digit_value (digit_char d True) = of_nat d \<and> digit_char d True \<noteq> 0 \<and>
      digit_value (digit_char d False) = of_nat d \<and> digit_char d False \<noteq> 0) [0..<36]"
    by code_simp
  then show "digit_value (digit_char d up) = of_nat d" "digit_char d up \<noteq> 0"
    using assms by (cases up; simp add: list_all_iff)+
qed

lemma digits_value_append: "digits_value b a (xs @ ys) = digits_value b (digits_value b a xs) ys"
  by (simp add: digits_value_def)

lemma digits_ok:
  assumes "2 \<le> b" "b \<le> 36"
  shows "list_all (is_digit b) (digits b up i) \<and> digits_value b 0 (digits b up i) = i"
  using assms
proof (induction b up i rule: digits.induct)
  case (1 b up i)
  show ?case
  proof (cases "i = 0")
    case False
    have d: "i mod b < 36" "i mod b < b"
      using 1(2,3) by (simp_all add: order_less_le_trans [OF mod_less_divisor])
    then have "unat (digit_value (digit_char (i mod b) up)) = i mod b"
      using digit_char_value(1) [OF d(1), of up] by (simp add: unat_of_nat)
    then show ?thesis
      using False 1 digit_char_value(2) [OF d(1), of up] d(2)
      by (simp add: digits_step digits_value_append is_digit_def)
  qed simp
qed

lemma unat_ucast64 [simp]: "unat (ucast x :: u64) = unat x" for x :: u32
  using unat_u32 [of x] by (simp add: unsigned_ucast_eq take_bit_nat_eq_self)

lemma lltostr_loop_u32:
  "base \<noteq> 0 \<Longrightarrow> ltostr_loop s base up tmp i j m = lltostr_loop s (ucast base) up tmp (ucast i) j m"
proof (induction s base up tmp i j m rule: ltostr_loop.induct)
  case (1 s base up tmp i j m)
  have "unat (ucast i mod ucast base :: u64) = unat (i mod base)" "(ucast i div ucast base :: u64) = ucast (i div base)"
    "(ucast i = (0 :: u64)) = (i = 0)"
    by (simp_all add: unat_mod unat_div word_unat_eq_iff)
  then show ?case
    using 1 by (subst ltostr_loop.simps, subst lltostr_loop.simps) (simp add: Let_def)
qed


text \<open>The loop writes the digits before \<open>tmp\<close>.\<close>

lemma lltostr_loop_digits:
  assumes "2 \<le> b" "b \<le> 36" "D = digits b up (unat i)" "unat s + length D \<le> unat tmp" "p = tmp - of_nat (length D)"
  shows "\<exists>m'. lltostr_loop s (of_nat b) up tmp i j m = (p, j + of_nat (length D), m') \<and>
    (\<forall>x. get_byte m' x = (if unat (x - p) < length D then D ! unat (x - p) else get_byte m x))"
  using assms(3-)
proof (induction "unat i" arbitrary: i tmp j m D p rule: less_induct)
  case less
  show ?case
  proof (cases "i = 0")
    case True
    then show ?thesis
      using less.prems by (subst lltostr_loop.simps) simp
  next
    case False
    define D1 m1 where "D1 = digits b up (unat i div b)" and "m1 = put_byte (tmp - 1) (digit_char (unat i mod b) up) m"
    have ub: "unat (of_nat b :: u64) = b"
      using assms(2) by (simp add: unat_of_nat)
    have i: "0 < unat i" "unat (i div of_nat b) = unat i div b" "unat (i mod of_nat b) = unat i mod b"
      using False by (simp_all add: unat_gt_0 unat_div unat_mod ub)
    have D: "D = D1 @ [digit_char (unat i mod b) up]"
      using i(1) assms(1) by (simp add: less.prems(1) D1_def digits_step)
    have "tmp \<noteq> 0"
      using less.prems(2) D by auto
    then have ut: "unat (tmp - 1) = unat tmp - 1"
      by (rule unat_minus_one)
    have "unat i div b < unat i" "unat s + length D1 \<le> unat (tmp - 1)" "p = tmp - 1 - of_nat (length D1)"
      using i(1) assms(1) less.prems(2,3) ut D by simp_all
    then obtain m' where R: "lltostr_loop s (of_nat b) up (tmp - 1) (i div of_nat b) (j + 1) m1 = (p, j + 1 + of_nat (length D1), m')"
      and B: "\<And>x. get_byte m' x = (if unat (x - p) < length D1 then D1 ! unat (x - p) else get_byte m1 x)"
      using less.hyps [of "i div of_nat b" D1 "tmp - 1" p "j + 1" m1] by (auto simp: i(2) D1_def)
    have "tmp > s"
      using less.prems(2) D by (simp add: word_less_nat_alt)
    then have "lltostr_loop s (of_nat b) up tmp i j m = (p, j + of_nat (length D), m')"
      using R False by (subst lltostr_loop.simps) (simp add: i(3) m1_def D Let_def)
    moreover have "get_byte m' x = (if unat (x - p) < length D then D ! unat (x - p) else get_byte m x)" for x
    proof -
      have "unat (of_nat (length D1) :: u32) = length D1"
        using less.prems(2) D unat_u32 [of tmp] by (simp add: unat_of_nat)
      moreover have "tmp - 1 = x \<longleftrightarrow> x - p = of_nat (length D1)"
        using less.prems(3) D by (auto simp: algebra_simps)
      ultimately have "tmp - 1 = x \<longleftrightarrow> unat (x - p) = length D1"
        by (simp add: word_unat_eq_iff [of "x - p"])
      then show ?thesis
        using B [of x] D by (auto simp: m1_def nth_append)
    qed
    ultimately show ?thesis
      by blast
  qed
qed


lemma number_string_room:
  assumes "2 \<le> b" "i < 2 ^ n"
  shows "length (digits b up i) \<le> n"
  using assms(2)
proof (induction n arbitrary: i)
  case (Suc n)
  show ?case
  proof (cases "i = 0")
    case False
    have "i div b \<le> i div 2"
      using assms(1) by (simp add: div_le_mono2)
    also have "\<dots> < 2 ^ n"
      using Suc.prems by simp
    finally show ?thesis
      using Suc.IH [of "i div b"] False assms(1) by (simp add: digits_step)
  qed simp
qed simp

lemma number_string_nz: "2 \<le> b \<Longrightarrow> b \<le> 36 \<Longrightarrow> list_all (\<lambda>c. c \<noteq> 0) (number_string b up i)"
  using digits_ok [of b up i] by (auto simp: number_string_def list_all_iff is_digit_def)

text \<open>Moving a string that lies before the end \<open>s + n\<close> of a buffer to its start.\<close>

lemma move_string:
  assumes B: "\<And>x. get_byte m2 x = (if unat (x - p) < length ns then ns ! unat (x - p) else if x = s + of_nat n then 0 else get_byte m x)"
    and p: "p = s + of_nat (n - length ns)" "length ns \<le> n" "unat s + n < 2 ^ 32" "length ns < 128" and ns: "list_all (\<lambda>c. c \<noteq> 0) ns"
    and m': "m' = memmove s p (of_nat (length ns) + 1) m2"
  shows "cstr m' s ns" "n < unat (x - s) \<Longrightarrow> get_byte m' x = get_byte m x"
proof -
  have u: "unat (of_nat k :: u32) = k" if "k < 2 ^ 32" for k
    using that by (simp add: unat_of_nat)
  have "of_nat (length ns) + 1 = (of_nat (Suc (length ns)) :: u32)"
    by simp
  then have len: "unat (of_nat (length ns) + 1 :: u32) = Suc (length ns)"
    using u [of "Suc (length ns)"] p(4) by (simp add: add.commute)
  have up: "unat p = unat s + (n - length ns)"
    using p u [of "n - length ns"] by (simp add: unat_word_ariths)
  have M: "get_byte m' y = (if unat (y - s) < Suc (length ns) then get_byte m2 (p + (y - s)) else get_byte m2 y)" for y
    unfolding m' using memmove_bytes [of s "of_nat (length ns) + 1" p m2 y] p(2,3) up unfolding len by simp
  have k: "get_byte m' (s + of_nat k) = (if k < length ns then ns ! k else 0)" if "k \<le> length ns" for k
  proof -
    have "unat (of_nat k :: u32) = k"
      using that p(2,3) by (intro u) simp
    then have "get_byte m' (s + of_nat k) = get_byte m2 (p + of_nat k)"
      "get_byte m2 (p + of_nat k) = (if k < length ns then ns ! k else if p + of_nat k = s + of_nat n then 0 else get_byte m (p + of_nat k))"
      using M [of "s + of_nat k"] B [of "p + of_nat k"] that by simp_all
    moreover have "p + of_nat (length ns) = s + of_nat n"
      using p(1,2) by (simp add: of_nat_diff)
    ultimately show ?thesis
      using that by (cases "k = length ns") simp_all
  qed
  show "cstr m' s ns"
    using k ns by (auto simp: cstr_iff list_all_iff)
  assume x: "n < unat (x - s)"
  have "x \<noteq> s + of_nat n"
    using x u [of n] p(3) by auto
  moreover have "\<not> unat (x - p) < length ns"
  proof
    assume "unat (x - p) < length ns"
    then have "unat (x - p + of_nat (n - length ns)) < n"
      using p(2,3) u [of "n - length ns"] by (simp add: unat_word_ariths)
    moreover have "x - p + of_nat (n - length ns) = x - s"
      by (simp add: p(1))
    ultimately show False
      using x by simp
  qed
  ultimately show "get_byte m' x = get_byte m x"
    using x M [of x] B [of x] p(2) by simp
qed


text \<open>\<open>__lltostr\<close> and \<open>__ltostr\<close> leave the number at \<open>s\<close> and write only to their buffer of \<open>n + 1\<close> bytes.\<close>

lemma lltostr_string:
  assumes b: "2 \<le> b" "b \<le> 36" and ns: "ns = number_string b up (unat i)" and sz: "sz = of_nat (Suc n)"
    and n: "length ns \<le> n" "unat s + n < 2 ^ 32"
  shows "\<exists>m'. lltostr s sz i (of_nat b) up m = (of_nat (length ns), m') \<and> cstr m' s ns \<and>
    (\<forall>x. n < unat (x - s) \<longrightarrow> get_byte m' x = get_byte m x)"
proof -
  define m0 p where "m0 = put_byte (s + of_nat n) 0 m" and "p = s + of_nat (n - length ns)"
  have sz1: "sz - 1 = of_nat n"
    using sz by simp
  have base: "scast (of_nat b :: u32) = (of_nat b :: u64)" "\<not> (of_nat b = (0 :: u32) \<or> sint (of_nat b :: u32) > 36)"
    using b by (auto simp: signed_of_nat signed_take_bit_int_eq_self of_nat_eq_0_iff word_of_nat_eq_0_iff)
  have len: "length ns < 128"
    using number_string_room [OF b(1), of "unat i" 64 up] unsigned_less [of i, where 'a = nat] by (auto simp: ns number_string_def)
  have un: "unat (s + of_nat n) = unat s + n"
    using n(2) by (simp add: unat_word_ariths unat_of_nat)
  have "\<exists>m2. lltostr s sz i (of_nat b) up m = (of_nat (length ns), memmove s p (of_nat (length ns) + 1) m2) \<and>
    (\<forall>x. get_byte m2 x = (if unat (x - p) < length ns then ns ! unat (x - p) else get_byte m0 x))"
  proof (cases "i = 0")
    case True
    then have "ns = [48]" "p = s + of_nat n - 1"
      using n(1) by (simp_all add: ns number_string_def p_def of_nat_diff)
    then show ?thesis
      using True base sz1 by (auto simp: lltostr_def Let_def lltostr_loop.simps [of s _ _ _ 0] m0_def unsigned_eq_0_iff)
  next
    case False
    then have D: "ns = digits b up (unat i)"
      by (simp add: ns number_string_def unsigned_eq_0_iff)
    have "p = s + of_nat n - of_nat (length ns)"
      using n(1) by (simp add: p_def of_nat_diff)
    then show ?thesis
      using lltostr_loop_digits [OF b D _ , of s "s + of_nat n" p 0 m0] False base sz1 un n(1)
      by (auto simp: lltostr_def Let_def m0_def)
  qed
  then obtain m2 where R: "lltostr s sz i (of_nat b) up m = (of_nat (length ns), memmove s p (of_nat (length ns) + 1) m2)"
    and B: "\<And>x. get_byte m2 x = (if unat (x - p) < length ns then ns ! unat (x - p) else get_byte m0 x)"
    by blast
  have "get_byte m2 x = (if unat (x - p) < length ns then ns ! unat (x - p) else if x = s + of_nat n then 0 else get_byte m x)" for x
    using B [of x] by (auto simp: m0_def)
  note M = move_string [OF this p_def n len _ refl]
  show ?thesis
    using R M number_string_nz [OF b] ns by blast
qed

lemma ltostr_lltostr:
  assumes "2 \<le> b" "b \<le> 36"
  shows "ltostr s sz i (of_nat b) up m = lltostr s sz (ucast i) (of_nat b) up m"
proof -
  have "scast (of_nat b :: u32) = (of_nat b :: u64)" "ucast (of_nat b :: u32) = (of_nat b :: u64)"
    "sint (of_nat b :: u32) = int b" "unat (of_nat b :: u32) = b"
    using assms by (simp_all add: signed_of_nat signed_take_bit_int_eq_self unsigned_of_nat take_bit_nat_eq_self)
  moreover have "(of_nat b :: u32) \<noteq> 0" "\<not> (of_nat b :: u32) > 36"
    using calculation(4) assms by (auto simp: word_less_nat_alt)
  moreover have "(ucast i = (0 :: u64)) = (i = 0)"
    by (simp add: word_unat_eq_iff)
  ultimately show ?thesis
    using assms by (simp add: ltostr_def lltostr_def lltostr_loop_u32 Let_def)
qed


lemma hd_digits: "0 < i \<Longrightarrow> 2 \<le> b \<Longrightarrow> b \<le> 36 \<Longrightarrow> digits b up i \<noteq> [] \<and> hd (digits b up i) \<noteq> 48"
proof (induction b up i rule: digits.induct)
  case (1 b up i)
  show ?case
  proof (cases "i < b")
    case True
    have "digit_char i up \<noteq> 48"
    proof
      assume "digit_char i up = 48"
      then have "(of_nat i :: u8) = 0"
        using digit_char_value(1) [of i up] True 1(4) by (simp add: digit_value_def)
      then show False
        using True 1(2,4) by (auto simp: word_of_nat_eq_0_iff dest: dvd_imp_le)
    qed
    then show ?thesis
      using True 1(2,3) by (simp add: digits_step)
  next
    case False
    then have "0 < i div b"
      using 1(3) by (simp add: div_greater_zero_iff)
    then have "digits b up (i div b) \<noteq> [] \<and> hd (digits b up (i div b)) \<noteq> 48"
      using 1 by simp
    then show ?thesis
      using 1(2,3) by (subst (1 2) digits_step) simp_all
  qed
qed

lemma strtoul_number_string:
  assumes "2 \<le> b" "b \<le> 36" "cstr m s (number_string b up (unat i))" "b = 16 \<Longrightarrow> i \<noteq> 0"
  shows "strtoul s 0 (int b) m = Some (i, m)"
proof -
  let ?ns = "number_string b up (unat i)"
  have "is_digit b 48" "digits_value b 0 [48] = 0"
    using assms(1) by (simp_all add: is_digit_def digit_value_def)
  then have ns: "?ns \<noteq> []" "list_all (is_digit b) ?ns" "digits_value b 0 ?ns = unat i"
    using digits_ok [OF assms(1,2), of up "unat i"] hd_digits [of "unat i" b up] assms(1,2)
    by (auto simp: number_string_def)
  have hd: "hd ?ns \<noteq> 48" if "b = 16"
    using that assms(4) hd_digits [of "unat i" b up] by (simp add: number_string_def unat_gt_0 unsigned_eq_0_iff)
  have "length ?ns < 2 ^ 32"
    using number_string_room [OF assms(1) unat_u32, of up i] by (auto simp: number_string_def)
  then show ?thesis
    using strtoul_digits [OF assms(1,2) ns(1,2), of m s "[]" 0] assms(3) ns(3) hd unat_u32 [of i] by simp
qed


section \<open>Conversions of numbers\<close>

definition number_text :: "nat \<Rightarrow> bool \<Rightarrow> u32 \<Rightarrow> u8 list" where
  "number_text b sg v =
     (if sg \<and> sint v < 0 then 45 # number_string b False (unat (- v)) else number_string b False (unat v))"

lemma number_string_length: "2 \<le> b \<Longrightarrow> length (number_string b up (unat v)) \<le> 32" for v :: u32
  using number_string_room [OF _ unat_u32, of b up v] by (auto simp: number_string_def)

lemma cstr_cong: "(\<And>x. get_byte m' x = get_byte m x) \<Longrightarrow> cstr m' s xs = cstr m s xs"
  by (induction xs arbitrary: s) auto

lemma unat_diff_Suc:
  fixes x a :: u32
  assumes "k < unat (x - a)"
  shows "k \<le> unat (x - (a + 1))"
proof -
  have 1: "x - (a + 1) = (x - a) - 1" and "x - a \<noteq> 0"
    using assms by auto
  then show ?thesis
    unfolding 1 using unat_minus_one [of "x - a"] assms by simp
qed

text \<open>A conversion without flags, width and precision writes the text of the number from the local array.\<close>

lemma num_printf_text:
  assumes b: "2 \<le> b" "b \<le> 36" and cv: "cv = conv0\<lparr>flag_in_sign := (if sg then 1 else 0)\<rparr>"
    and v: "v = pmem st (arg_ptr st)" and tx: "txt = number_text b sg v" and fr: "unat fr + 128 \<le> 2 ^ 32"
  shows "\<exists>s m'. num_printf rd fr (of_nat b) 0 cv st = emit s (of_nat (length txt)) (set_pmem m' (st\<lparr>arg_ptr := arg_ptr st + 4\<rparr>)) \<and>
    cstr m' s txt \<and> (s = fr \<or> s = fr + 1) \<and> (\<forall>x. 128 \<le> unat (x - fr) \<longrightarrow> get_byte m' x = get_byte (pmem st) x)"
proof -
  define neg w where "neg \<longleftrightarrow> sg \<and> sint v < 0" and "w = (if neg then - v else v)"
  define ns where "ns = number_string b False (unat w)"
  have t: "txt = (if neg then 45 # ns else ns)"
    by (simp add: tx number_text_def neg_def ns_def w_def)
  have uf: "unat (fr + 1) = unat fr + 1"
    using fr by (simp add: unat_word_ariths)
  have "length ns \<le> 122" "unat (fr + 1) + 122 < 2 ^ 32"
    using number_string_length [OF b(1), of False w] fr uf by (simp_all add: ns_def)
  then obtain m1 where L: "ltostr (fr + 1) 123 w (of_nat b) False (pmem st) = (of_nat (length ns), m1)" "cstr m1 (fr + 1) ns"
    and out: "\<And>x. 122 < unat (x - (fr + 1)) \<Longrightarrow> get_byte m1 x = get_byte (pmem st) x"
    using lltostr_string [OF b, of ns False "ucast w" 123 122 "fr + 1" "pmem st"] unfolding ltostr_lltostr [OF b]
    by (auto simp: ns_def)
  have far: "122 < unat (x - (fr + 1))" if "128 \<le> unat (x - fr)" for x
    using unat_diff_Suc [of 127 x fr] that by simp
  have nsr: "list_all (\<lambda>c. c \<noteq> 0) ns"
    unfolding ns_def by (rule number_string_nz [OF b])
  define s m2 where "s = (if neg then fr else fr + 1)" and "m2 = (if neg then put_byte fr 45 m1 else m1)"
  have "num_printf rd fr (of_nat b) 0 cv st = emit s (of_nat (length txt)) (set_pmem m2 (st\<lparr>arg_ptr := arg_ptr st + 4\<rparr>))"
    using L(1) unfolding num_printf_def num_arg_def Let_def
    by (cases sg; cases "sint v < 0"; simp add: cv conv0_def va_arg4_def v [symmetric] neg_def w_def s_def m2_def t print_out_def add.commute)
  moreover have "cstr m2 s txt"
  proof -
    have "fr + 1 + of_nat k \<noteq> fr" if "k \<le> length ns" for k
    proof -
      have "unat (of_nat (Suc k) :: u32) = Suc k"
        using that \<open>length ns \<le> 122\<close> by (subst unat_of_nat) simp
      then have "of_nat (Suc k) \<noteq> (0 :: u32)"
        by (metis nat.distinct(1) unat_0)
      then show ?thesis
        by (simp add: add.assoc)
    qed
    then show ?thesis
      using L(2) by (auto simp: s_def m2_def t cstr_iff [of _ "fr + 1"])
  qed
  moreover have "get_byte m2 x = get_byte (pmem st) x" if "128 \<le> unat (x - fr)" for x
    using out [OF far [OF that]] that by (auto simp: m2_def)
  moreover have "s = fr \<or> s = fr + 1"
    by (simp add: s_def)
  ultimately show ?thesis
    by blast
qed


text \<open>The conversions of integers, with their base and whether they are signed.\<close>

definition plain_conv :: "u8 \<Rightarrow> (nat \<times> bool) option" where
  "plain_conv c =
     (if c = 98 then Some (2, False) else if c = 111 then Some (8, False) else if c = 117 then Some (10, False)
      else if c = 100 \<or> c = 105 then Some (10, True) else if c = 120 then Some (16, False) else None)"

lemma conversion_plain:
  assumes "plain_conv c = Some (b, sg)"
  shows "conversion rd fr c conv0 st = Some (num_printf rd fr (of_nat b) 0 (conv0\<lparr>flag_in_sign := (if sg then 1 else 0)\<rparr>) st)"
    "2 \<le> b" "b \<le> 36" "c \<notin> {0, 35, 122, 104, 113, 76, 108, 45, 32, 43, 42, 46}" "\<not> (48 \<le> c \<and> c \<le> 57)"
  using assms by (auto simp: plain_conv_def conversion_def conv_hex_def conv0_def split: if_splits)

lemma swrite_bytes:
  assumes "swrite p n (sd, m) = (sd', m')" "sd_str sd \<noteq> 0" "n \<le> sd_size sd - sd_len sd" "n \<noteq> 0"
    and "unat n \<le> unat (sd_str sd + sd_len sd - p)"
  shows "sd' = sd\<lparr>sd_len := sd_len sd + n\<rparr>"
    "get_byte m' x = (if x = sd_str sd + (sd_len sd + n) then 0
       else if unat (x - (sd_str sd + sd_len sd)) < unat n then get_byte m (p + (x - (sd_str sd + sd_len sd))) else get_byte m x)"
proof -
  have "sd_size sd - sd_len sd > 0"
    using assms(3,4) by (auto simp: word_gt_0)
  moreover have "\<not> n > sd_size sd - sd_len sd"
    using assms(3) by simp
  ultimately have "swrite p n (sd, m) =
      (sd\<lparr>sd_len := sd_len sd + n\<rparr>, put_byte (sd_str sd + (sd_len sd + n)) 0 (memcpy (sd_str sd + sd_len sd) p n m))"
    using assms(2) by (simp add: swrite_def Let_def)
  then show "sd' = sd\<lparr>sd_len := sd_len sd + n\<rparr>"
    "get_byte m' x = (if x = sd_str sd + (sd_len sd + n) then 0
       else if unat (x - (sd_str sd + sd_len sd)) < unat n then get_byte m (p + (x - (sd_str sd + sd_len sd))) else get_byte m x)"
    using assms(1) memcpy_bytes [OF assms(5), of m x] by (auto split: if_splits)
qed


lemma v_printf_plain:
  assumes c: "plain_conv c = Some (b, sg)" and f: "cstr (pmem st) (format st) [37, c]"
    and st1: "st1 = num_printf rd fr (of_nat b) 0 (conv0\<lparr>flag_in_sign := (if sg then 1 else 0)\<rparr>) (st\<lparr>format := 2 + format st\<rparr>)"
    and e: "format st1 = 2 + format st" "get_byte (pmem st1) (2 + format st) = 0"
  shows "v_printf rd fr st = Some (plen st1, st1)"
proof -
  note C = conversion_plain [OF c]
  have "inn_printf rd fr conv0 (st\<lparr>format := format st + 1\<rparr>) = Some (Inr st1)"
    using C f by (subst inn_printf.simps) (auto simp: Let_def st1)
  moreover have "skip_to (format st) (pmem st) = Some 0"
    using f by (simp add: skip_to_def skip_to_loop.simps [of _ 0])
  ultimately have "v_printf rd fr st = v_printf rd fr st1"
    using f by (subst v_printf.simps) (simp add: Let_def)
  then show ?thesis
    using e by (subst (asm) v_printf.simps [of rd fr st1]) simp
qed

lemma number_text_length:
  assumes "2 \<le> b" "b \<le> 36"
  shows "0 < length (number_text b sg v)" "length (number_text b sg v) \<le> 33"
proof -
  have "number_string b False i \<noteq> []" for i
    using hd_digits [of i b False] assms by (auto simp: number_string_def)
  then show "0 < length (number_text b sg v)"
    by (simp add: number_text_def)
  show "length (number_text b sg v) \<le> 33"
    using number_string_length [OF assms(1), of False v] number_string_length [OF assms(1), of False "- v"]
    by (simp add: number_text_def)
qed

text \<open>
  \<open>vsnprintf\<close> with a format that is one such conversion: the buffer receives the text of the argument. The local
  array, the format and the buffer do not overlap.
\<close>

lemma vsnprintf_plain:
  assumes c: "plain_conv c = Some (b, sg)" and f: "cstr m fmt [37, c]" and tx: "txt = number_text b sg (m args)"
    and sz: "length txt < unat sz" "str \<noteq> 0" and fr: "unat fr + 128 \<le> 2 ^ 32"
    and out: "128 \<le> unat (fmt + 2 - fr)" "128 \<le> unat (str - fr)" "unat sz \<le> unat (fmt + 2 - str)"
  shows "\<exists>m'. vsnprintf rd fr str sz fmt args m = Some (of_nat (length txt), m') \<and> cstr m' str txt"
proof -
  note b = conversion_plain(2,3) [OF c]
  define st0 where "st0 = \<lparr>pout = (\<lparr>sd_str = str, sd_len = 0, sd_size = sz - 1\<rparr>, m), plen = 0, format = fmt, arg_ptr = args\<rparr>"
  define st1 where "st1 = num_printf rd fr (of_nat b) 0 (conv0\<lparr>flag_in_sign := (if sg then 1 else 0)\<rparr>) (st0\<lparr>format := 2 + format st0\<rparr>)"
  have L: "0 < length txt" "length txt \<le> 33"
    unfolding tx by (rule number_text_length [OF b])+
  define n :: u32 where "n = of_nat (length txt)"
  have n: "unat n = length txt" "sint n = int (length txt)"
    using L(2) by (simp_all add: n_def unat_of_nat signed_of_nat signed_take_bit_int_eq_self)
  then have n0: "n \<noteq> 0"
    using L(1) by auto
  have sz0: "sz \<noteq> 0"
    using sz(1) by auto
  note sz1 = unat_minus_one [OF sz0] sz0
  obtain s m1 where st1: "st1 = emit s n (set_pmem m1 (st0\<lparr>format := 2 + fmt, arg_ptr := args + 4\<rparr>))"
    and m1: "cstr m1 s txt" "s = fr \<or> s = fr + 1" "\<And>x. 128 \<le> unat (x - fr) \<Longrightarrow> get_byte m1 x = get_byte m x"
    using num_printf_text [OF b refl _ tx fr, of "st0\<lparr>format := 2 + fmt\<rparr>" rd] by (auto simp: st1_def st0_def n_def)
  obtain sd2 m2 where W: "swrite s n (\<lparr>sd_str = str, sd_len = 0, sd_size = sz - 1\<rparr>, m1) = (sd2, m2)"
    by (rule prod.exhaust)
  have S: "length txt \<le> unat (str - s)"
    using m1(2) L(2) out(2) unat_diff_Suc [of 127 str fr] by auto
  have B: "get_byte m2 x = (if x = str + n then 0 else if unat (x - str) < length txt then get_byte m1 (s + (x - str)) else get_byte m1 x)" for x
    using swrite_bytes(2) [OF W, of x] S sz sz1 n n0 by (simp add: word_le_nat_alt)
  have str: "cstr m2 str txt"
  proof -
    have "unat (of_nat k :: u32) = k" if "k \<le> length txt" for k
      using that L(2) by (subst unat_of_nat) simp
    then show ?thesis
      using m1(1) n by (auto simp: cstr_iff B n_def)
  qed
  have "fmt + 2 \<noteq> str + n" "\<not> unat (fmt + 2 - str) < length txt"
    using out(3) sz(1) n by auto
  then have e: "get_byte m2 (2 + fmt) = 0"
    using f m1(3) [OF out(1)] B [of "fmt + 2"] by (simp add: add.commute)
  have F: "format st1 = 2 + fmt" "plen st1 = n" "pmem st1 = m2"
    using W by (simp_all add: st1 emit_def set_pmem_def st0_def)
  then have "v_printf rd fr st0 = Some (plen st1, st1)"
    using v_printf_plain [OF c _ st1_def] f e by (simp add: st0_def)
  moreover have "sint n \<ge> 0" "\<not> n \<ge> sz"
    using n sz(1) by (simp_all add: word_le_nat_alt)
  moreover have "get_byte (put_byte (str + n) 0 m2) x = get_byte m2 x" for x
    using cstr_end [OF str] by (auto simp: n_def)
  then have "cstr (put_byte (str + n) 0 m2) str txt"
    using str cstr_cong by blast
  ultimately show ?thesis
    using sz(2) sz1(2) F by (simp add: vsnprintf_def st0_def n_def)
qed

section \<open>Reading the text back\<close>

lemma strtoul_number:
  assumes b: "2 \<le> b" "b \<le> 36" and s: "cstr m s (number_string b up (unat i))"
  shows "strtoul s 0 (int b) m = Some (i, m)"
proof (cases "b = 16 \<and> i = 0")
  case True
  then have "get_byte m s = 48" "get_byte m (s + 1) = 0"
    using s by (simp_all add: number_string_def)
  then show ?thesis
    using True by (simp add: strtoul_def skip_isspace.simps [of s] isspace_def get_char_def strtoul_base_def skip0x_def
        strtoul_loop.simps [of _ s] strtoul_loop.simps [of _ "s + 1"] digit_value_def strtoul_add_def)
next
  case False
  then show ?thesis
    using strtoul_number_string [OF b s] by blast
qed

lemma strtoul_minus:
  assumes "get_byte m s = 45" "is_digit b (get_byte m (s + 1))" "b \<le> 36"
    and "strtoul (s + 1) 0 (int b) m = Some (v, m)" "v \<noteq> ULONG_MAX"
  shows "strtoul s 0 (int b) m = Some (- v, m)"
proof -
  have m: "get_char m s = 45" "\<not> isspace 45"
    using assms(1) by (simp_all add: get_char_def isspace_def)
  note skips = skip_isspace.simps [of s] skip_isspace.simps [of "s + 1"] get_char_not_space [OF assms(2,3)] m
  show ?thesis
  proof (cases "strtoul_base (s + 1) (int b) m")
    case None
    then show ?thesis
      using assms(4) by (simp add: strtoul_def skips)
  next
    case (Some a)
    obtain nptr base where a: "a = (nptr, base)"
      by (rule prod.exhaust)
    show ?thesis
      using assms(4,5) Some a
      by (cases "strtoul_loop base nptr (0, False) m") (auto simp: strtoul_def skips split: if_splits)
  qed
qed

lemma strtoul_number_text:
  assumes b: "2 \<le> b" "b \<le> 36" and s: "cstr m s (number_text b sg v)"
  shows "strtoul s 0 (int b) m = Some (v, m)"
proof (cases "sg \<and> sint v < 0")
  case True
  let ?ns = "number_string b False (unat (- v))"
  have c: "get_byte m s = 45" "cstr m (s + 1) ?ns"
    using s True by (auto simp: number_text_def)
  have "- v \<noteq> ULONG_MAX"
  proof
    assume "- v = ULONG_MAX"
    then have "v = - ULONG_MAX"
      by (metis minus_minus)
    then show False
      using True by (simp add: ULONG_MAX_def)
  qed
  moreover have "?ns \<noteq> [] \<and> list_all (is_digit b) ?ns"
    using digits_ok [OF b, of False "unat (- v)"] hd_digits [of "unat (- v)" b False] b
    by (auto simp: number_string_def is_digit_def digit_value_def)
  then have "is_digit b (get_byte m (s + 1))"
    using c(2) by (cases ?ns) auto
  ultimately show ?thesis
    using strtoul_minus [OF c(1) _ b(2) strtoul_number [OF b c(2)]] by simp
next
  case False
  then show ?thesis
    using strtoul_number [OF b, of m s False v] s by (auto simp: number_text_def)
qed

end
