(* ===== verification/Printf_Safe.thy ===== *)
theory Printf_Safe
  imports Printf_Numbers
begin

text \<open>
  What \<open>vsnprintf\<close> writes: every function of \<open>core/libc/stdarg.c\<close> and \<open>vsprintf.c\<close> keeps an invariant of the output
  record, by which only the local variables of \<open>__v_printf\<close> and the buffer of the caller change.
\<close>

section \<open>What the functions write\<close>

lemma memcpy_loop_other:
  "n < 2 ^ 32 \<Longrightarrow> n \<le> unat (x - d) \<Longrightarrow> get_byte (memcpy_loop (of_nat n + 1) d s m) x = get_byte m x"
proof (induction n arbitrary: d s m)
  case 0
  then show ?case
    by (simp add: memcpy_loop.simps)
next
  case (Suc n)
  have "of_nat (Suc n) \<noteq> (0 :: u32)"
    using Suc.prems(1) by (simp add: word_of_nat_eq_0_iff del: of_nat_Suc) (auto dest: dvd_imp_le)
  then have "memcpy_loop (of_nat (Suc n) + 1) d s m = memcpy_loop (of_nat n + 1) (d + 1) (s + 1) (put_byte d (get_byte m s) m)"
    by (subst memcpy_loop.simps) (simp add: Let_def add.commute)
  moreover have "n \<le> unat (x - (d + 1))" "d \<noteq> x"
    using Suc.prems(2) unat_diff_Suc [of n x d] by auto
  ultimately show ?case
    using Suc.IH [of "d + 1"] Suc.prems(1) by simp
qed

lemma memcpy_other: "unat n \<le> unat (x - d) \<Longrightarrow> get_byte (memcpy d s n m) x = get_byte m x"
  using memcpy_loop_other [of "unat n" x d s m] unat_u32 [of n] by (simp add: memcpy_def)

lemma strtoul_mem:
  assumes "strtoul p e b m = Some (v, m')"
  shows "m' = m \<or> (\<exists>w. m' = m(e := w))"
  using assms by (auto simp: strtoul_def Let_def bind_eq_Some_conv split: option.splits prod.splits if_splits)

lemma strtol_mem:
  assumes "strtol p e b m = Some (v, m')"
  shows "m' = m \<or> (\<exists>w. m' = m(e := w))"
proof -
  obtain q v1 m1 C where "strtoul q e b m = Some (v1, m1)" "m' = (if C then m1(e := p) else m1)"
    using assms by (clarsimp simp: strtol_def Let_def bind_eq_Some_conv)
  then show ?thesis
    using strtoul_mem [of q e b m v1 m1] by (auto split: if_splits)
qed

text \<open>
  The bytes \<open>vsnprintf\<close> may write: its local variables at \<open>fr\<close> and the \<open>sz\<close> bytes of the buffer. \<open>printf_ok\<close> is the
  invariant of the output.
\<close>

definition writable :: "u32 \<Rightarrow> u32 \<Rightarrow> u32 \<Rightarrow> u32 \<Rightarrow> bool" where
  "writable fr str sz x \<longleftrightarrow> unat (x - fr) < 136 \<or> str \<noteq> 0 \<and> unat (x - str) < unat sz"

definition kept :: "u32 \<Rightarrow> u32 \<Rightarrow> u32 \<Rightarrow> mem \<Rightarrow> mem \<Rightarrow> bool" where
  "kept fr str sz m m' \<longleftrightarrow> (\<forall>x. \<not> writable fr str sz x \<longrightarrow> get_byte m' x = get_byte m x)"

definition printf_ok :: "u32 \<Rightarrow> u32 \<Rightarrow> u32 \<Rightarrow> mem \<Rightarrow> str_cdata \<times> mem \<Rightarrow> bool" where
  "printf_ok fr str sz m0 = (\<lambda>(sd, m).
     sd_str sd = str \<and> sd_size sd = (if sz \<noteq> 0 then sz - 1 else 0) \<and> sd_len sd \<le> sd_size sd \<and> kept fr str sz m0 m)"

lemma kept_put: "writable fr str sz a \<Longrightarrow> kept fr str sz m0 m \<Longrightarrow> kept fr str sz m0 (put_byte a v m)"
  by (auto simp: kept_def)

lemma swrite_ok:
  assumes "printf_ok fr str sz m0 out"
  shows "printf_ok fr str sz m0 (swrite p n out)"
proof -
  obtain sd m where out: "out = (sd, m)"
    by (rule prod.exhaust)
  have P: "sd_str sd = str" "sd_size sd = (if sz \<noteq> 0 then sz - 1 else 0)" "sd_len sd \<le> sd_size sd" "kept fr str sz m0 m"
    using assms unfolding printf_ok_def out prod.case by blast+
  define tmp l where "tmp = sd_size sd - sd_len sd" and "l = (if n > tmp then tmp else n)"
  show ?thesis
  proof (cases "tmp > 0")
    case False
    then show ?thesis
      using assms by (simp add: out swrite_def tmp_def Let_def)
  next
    case True
    have ut: "unat tmp = unat (sd_size sd) - unat (sd_len sd)"
      unfolding tmp_def using P(3) by (rule unat_sub)
    have ul: "unat l \<le> unat tmp"
      by (auto simp: l_def word_le_nat_alt word_less_nat_alt)
    have "sz \<noteq> 0"
      using True P(2,3) by (auto simp: tmp_def)
    then have us: "unat (sd_size sd) = unat sz - 1" "0 < unat sz"
      using P(2) unat_minus_one [of sz] by (simp_all add: unat_gt_0)
    have sum: "unat (sd_len sd + l) = unat (sd_len sd) + unat l" "unat (sd_len sd) + unat l < unat sz"
      using ul ut us P(3) True unat_u32 [of "sd_size sd"]
      by (simp_all add: unat_word_ariths word_le_nat_alt word_less_nat_alt)
    define m2 where "m2 = (if str \<noteq> 0 then put_byte (str + (sd_len sd + l)) 0 (memcpy (str + sd_len sd) p l m) else m)"
    have "kept fr str sz m0 (put_byte (str + (sd_len sd + l)) 0 (memcpy (str + sd_len sd) p l m))" if "str \<noteq> 0"
    proof (rule kept_put)
      show "writable fr str sz (str + (sd_len sd + l))"
        using sum that by (simp add: writable_def)
      have "get_byte (memcpy (str + sd_len sd) p l m) x = get_byte m x" if "\<not> writable fr str sz x" for x
      proof (rule memcpy_other, rule ccontr)
        define q where "q = x - (str + sd_len sd)"
        assume "\<not> unat l \<le> unat (x - (str + sd_len sd))"
        then have "unat (q + sd_len sd) < unat sz"
          using sum(2) unat_u32 [of sz] by (simp add: unat_word_ariths flip: q_def)
        then show False
          using that \<open>str \<noteq> 0\<close> by (simp add: writable_def q_def)
      qed
      then show "kept fr str sz m0 (memcpy (str + sd_len sd) p l m)"
        using P(4) by (simp add: kept_def)
    qed
    then have "kept fr str sz m0 m2"
      using P(4) by (auto simp: m2_def)
    moreover have "sd_len sd + l \<le> sd_size sd"
      using sum us by (simp add: word_le_nat_alt)
    moreover have "swrite p n out = (sd\<lparr>sd_len := sd_len sd + l\<rparr>, m2)"
      using True unfolding swrite_def out prod.case Let_def tmp_def [symmetric] l_def [symmetric] P(1) m2_def by simp
    ultimately show ?thesis
      using P(1,2) unfolding printf_ok_def by (auto split del: if_split)
  qed
qed

lemma write_pad_loop_ok:
  "printf_ok fr str sz m0 out \<Longrightarrow> write_pad_loop pad len nr out = (len', nr', out') \<Longrightarrow> printf_ok fr str sz m0 out'"
proof (induction pad len nr out rule: write_pad_loop.induct)
  case (1 pad len nr out)
  then show ?case
    using swrite_ok by (subst (asm) (2) write_pad_loop.simps) (auto split: if_splits)
qed

lemma write_pad_ok:
  assumes "printf_ok fr str sz m0 out" "write_pad rd len c out = (nr, out')"
  shows "printf_ok fr str sz m0 out'"
proof -
  obtain l k out1 where L: "write_pad_loop (pad_line rd (if c = 48 then 1 else 0)) len 0 out = (l, k, out1)"
    by (metis prod_cases3)
  then show ?thesis
    using assms(2) write_pad_loop_ok [OF assms(1) L] by (auto simp: write_pad_def Let_def intro: swrite_ok split: if_splits)
qed

section \<open>The invariant of the output\<close>

lemma emit_ok: "printf_ok fr str sz m0 (pout st) \<Longrightarrow> printf_ok fr str sz m0 (pout (emit p n st))"
  by (simp add: emit_def swrite_ok)

lemma emit_pad_ok: "printf_ok fr str sz m0 (pout st) \<Longrightarrow> printf_ok fr str sz m0 (pout (emit_pad rd n c st))"
  by (auto simp: emit_pad_def intro: write_pad_ok split: prod.split)

lemma set_pmem_ok:
  assumes "printf_ok fr str sz m0 (pout st)" "kept fr str sz (pmem st) m"
  shows "printf_ok fr str sz m0 (pout (set_pmem m st))"
proof -
  have "kept fr str sz m0 m"
    using assms by (auto simp: printf_ok_def kept_def split: prod.splits)
  then show ?thesis
    using assms(1) unfolding printf_ok_def set_pmem_def by (auto split: prod.splits simp del: if_split_asm split del: if_split)
qed

lemma if_ok:
  "printf_ok fr str sz m0 (pout a) \<Longrightarrow> printf_ok fr str sz m0 (pout b) \<Longrightarrow> printf_ok fr str sz m0 (pout (if c then a else b))"
  by simp

lemma print_out_ok:
  "printf_ok fr str sz m0 (pout st) \<Longrightarrow> printf_ok fr str sz m0 (pout (print_out rd s n cv st))"
  unfolding print_out_def Let_def by (intro if_ok emit_ok emit_pad_ok)

lemma lltostr_kept:
  assumes "2 \<le> b" "b \<le> 36" "k \<le> 2" "unat fr + 136 \<le> 2 ^ 32"
  shows "kept fr str sz m (snd (lltostr (fr + 1 + of_nat k) 123 i (of_nat b) up m))"
proof -
  have len: "length (number_string b up (unat i)) \<le> 122"
    using number_string_room [OF assms(1), of "unat i" 64 up] unsigned_less [of i, where 'a = nat]
    by (auto simp: number_string_def)
  have "unat (fr + 1 + of_nat k) = unat fr + 1 + k"
    using assms(3,4) by (simp add: unat_word_ariths unat_of_nat)
  then have "unat (fr + 1 + of_nat k) + 122 < 2 ^ 32"
    using assms(3,4) by simp
  then obtain m' where m': "lltostr (fr + 1 + of_nat k) 123 i (of_nat b) up m = (of_nat (length (number_string b up (unat i))), m')"
      "\<And>x. 122 < unat (x - (fr + 1 + of_nat k)) \<Longrightarrow> get_byte m' x = get_byte m x"
    using lltostr_string [OF assms(1,2) refl _ len, of 123 "fr + 1 + of_nat k" m] by auto
  have "122 < unat (x - (fr + 1 + of_nat k))" if "\<not> writable fr str sz x" for x
  proof -
    have "136 \<le> unat (x - fr)"
      using that by (simp add: writable_def)
    moreover have "unat (1 + of_nat k :: u32) = 1 + k"
      using assms(3) by (simp add: unat_word_ariths unat_of_nat)
    ultimately have "unat (x - fr - (1 + of_nat k)) = unat (x - fr) - (1 + k)"
      using assms(3) unat_sub [of "1 + of_nat k" "x - fr"] by (simp add: word_le_nat_alt)
    moreover have eq: "x - (fr + 1 + of_nat k) = x - fr - (1 + of_nat k)"
      by simp
    ultimately show ?thesis
      unfolding eq using \<open>136 \<le> unat (x - fr)\<close> assms(3) by linarith
  qed
  then show ?thesis
    using m' by (simp add: kept_def)
qed

lemma num_arg_out: "num_arg cv st = (number, llnumber, cv', st') \<Longrightarrow> pout st' = pout st"
  by (auto simp: num_arg_def va_arg4_def va_arg8_def Let_def split: if_splits)

lemma num_printf_ok:
  assumes ok: "printf_ok fr str sz m0 (pout st)" and b: "2 \<le> b" "b \<le> 36" and k: "k \<le> 2" and fr: "unat fr + 136 \<le> 2 ^ 32"
  shows "printf_ok fr str sz m0 (pout (num_printf rd fr (of_nat b) (of_nat k) cv st))"
proof -
  obtain number llnumber cv1 st1 where A: "num_arg cv st = (number, llnumber, cv1, st1)"
    by (metis prod_cases4)
  have st1: "pout st1 = pout st"
    by (rule num_arg_out [OF A])
  obtain retval m1 where D: "(if sint (flag_long cv1) > 1 then lltostr (fr + 1 + of_nat k) 123 llnumber (of_nat b) (flag_upcase cv1) (pmem st1)
      else ltostr (fr + 1 + of_nat k) 123 number (of_nat b) (flag_upcase cv1) (pmem st1)) = (retval, m1)"
    by (rule prod.exhaust)
  have K: "kept fr str sz (pmem st1) m1"
    using lltostr_kept [OF b k fr, of str sz "pmem st1"] ltostr_lltostr [OF b] D by (metis snd_conv)
  have "writable fr str sz fr"
    by (simp add: writable_def)
  then have P: "printf_ok fr str sz m0 (pout (print_out rd s n cv (set_pmem (put_byte fr c m1) st1)))"
    "printf_ok fr str sz m0 (pout (print_out rd s n cv (set_pmem m1 st1)))" for s n cv c
    using ok K st1 by (auto intro!: print_out_ok set_pmem_ok kept_put)
  obtain n2 cv2 where E: "(if flag_dot cv1 \<and> retval = 1 \<and> get_byte m1 (fr + 1 + of_nat k) = 48 then
      (if preci cv1 = 0 \<or> sint (flag_hash cv1) > 0 then 0 else of_nat k, cv1\<lparr>flag_hash := 0\<rparr>) else (of_nat k + retval, cv1)) = (n2, cv2)"
    by (rule prod.exhaust)
  show ?thesis
    unfolding num_printf_def Let_def A prod.case D E by (intro if_ok) (use P in simp_all)
qed

lemma num_ok:
  assumes "printf_ok fr str sz m0 (pout st)" "unat fr + 136 \<le> 2 ^ 32" "base \<in> {2, 8, 10, 16}" "n \<in> {0, 1, 2}"
  shows "printf_ok fr str sz m0 (pout (num_printf rd fr base n cv st))"
proof -
  have "\<exists>b k. base = of_nat b \<and> n = of_nat k \<and> 2 \<le> b \<and> b \<le> 36 \<and> k \<le> 2"
    using assms(3,4) by (intro exI [of _ "unat base"] exI [of _ "unat n"]) auto
  then show ?thesis
    using num_printf_ok [OF assms(1) _ _ _ assms(2)] by blast
qed

lemma kept_word: "kept fr str sz m (m(fr + 128 := w))"
proof -
  have "writable fr str sz x" if "x AND NOT 3 = fr + 128" for x
  proof -
    have "NOT 3 = NOT (mask 2 :: u32)" "x AND 3 = take_bit 2 x"
      by (simp_all add: mask_eq_exp_minus_1 take_bit_eq_mask)
    then have "x - fr = (x AND NOT 3) + (x AND 3) - fr"
      using and_not_mask [of x 2] by simp
    also have "\<dots> = 128 + (x AND 3)"
      unfolding that by simp
    finally have "x - fr = 128 + (x AND 3)" .
    moreover have "unat (x AND 3) \<le> 3"
      using word_and_le1 [of x 3] by (simp add: word_le_nat_alt)
    ultimately have "unat (x - fr) < 136"
      by (simp add: unat_word_ariths)
    then show ?thesis
      by (simp add: writable_def)
  qed
  then show ?thesis
    by (auto simp: kept_def get_byte_def)
qed

lemma kept_refl: "kept fr str sz m m"
  by (simp add: kept_def)

lemma kept_trans: "kept fr str sz m m1 \<Longrightarrow> kept fr str sz m1 m2 \<Longrightarrow> kept fr str sz m m2"
  by (simp add: kept_def)

lemma read_width_ok:
  assumes "printf_ok fr str sz m0 (pout st)" "read_width fr ch cv st = Some (cv', st')"
  shows "printf_ok fr str sz m0 (pout st')"
  using assms kept_word kept_refl by (auto simp: read_width_def dest!: strtoul_mem intro!: set_pmem_ok)

lemma read_preci_ok:
  assumes "printf_ok fr str sz m0 (pout st)" "read_preci fr cv st = Some (cv', st')"
  shows "printf_ok fr str sz m0 (pout st')"
  using assms kept_word kept_refl
  by (auto simp: read_preci_def va_arg4_def Let_def dest!: strtol_mem intro!: set_pmem_ok split: if_splits)

lemma conversion_ok:
  assumes ok: "printf_ok fr str sz m0 (pout st)" and fr: "unat fr + 136 \<le> 2 ^ 32" and C: "conversion rd fr ch cv st = Some st'"
  shows "printf_ok fr str sz m0 (pout st')"
proof -
  have w: "writable fr str sz (fr + 132)" "writable fr str sz (fr + 1)" "writable fr str sz (fr + 2)"
    by (simp_all add: writable_def)
  have hex: "printf_ok fr str sz m0 (pout (conv_hex rd fr ch cv st))" for ch cv
    unfolding conv_hex_def Let_def using ok fr w
    by (auto intro!: num_ok set_pmem_ok kept_put kept_refl)
  have str: "printf_ok fr str sz m0 (pout st')" if "conv_str rd cv st = Some st'"
    using that ok by (auto simp: conv_str_def va_arg4_def Let_def intro!: print_out_ok)
  show ?thesis
    using C ok fr w hex str unfolding conversion_def Let_def
    by (auto simp: va_arg4_def intro!: emit_ok num_ok set_pmem_ok kept_put kept_refl split: if_splits)
qed

lemma inn_printf_ok:
  assumes I: "inn_printf rd fr cv st = Some r" and "printf_ok fr str sz m0 (pout st)" "unat fr + 136 \<le> 2 ^ 32"
  shows "printf_ok fr str sz m0 (pout (case_sum id id r))"
  using assms(2,3)
proof (induction rule: inn_printf.raw_induct [OF _ I])
  case (1 f rd fr cv st r)
  have next_ok: "printf_ok fr str sz m0 (pout (st\<lparr>format := x\<rparr>))" for x
    using 1(3) by simp
  have conv: "printf_ok fr str sz m0 (pout st')" if "conversion rd fr ch cv (st\<lparr>format := x\<rparr>) = Some st'" for ch st' x
    by (rule conversion_ok [OF next_ok 1(4) that])
  have fields: "printf_ok fr str sz m0 (pout st')"
    if "read_width fr ch cv (st\<lparr>format := x\<rparr>) = Some (cv', st') \<or> read_preci fr cv (st\<lparr>format := x\<rparr>) = Some (cv', st')"
    for ch cv' st' x
    using that read_width_ok [OF next_ok] read_preci_ok [OF next_ok] by blast
  have rec: "printf_ok fr str sz m0 (pout (case_sum id id y))"
    if "f rd fr cv' st' = Some y" "printf_ok fr str sz m0 (pout st')" for cv' st' y
    by (rule 1(1) [OF that 1(4)])
  have fields_rec: "printf_ok fr str sz m0 (pout (case_sum id id y))"
    if "read_width fr ch cv (st\<lparr>format := x\<rparr>) = Some (cv', st') \<or> read_preci fr cv (st\<lparr>format := x\<rparr>) = Some (cv', st')"
      "f rd fr cv' st' = Some y" for ch cv' st' x y
    by (rule rec [OF that(2) fields [OF that(1)]])
  show ?case
    using 1(2) rec next_ok 1(3) conv unfolding Let_def
    by (auto simp: va_arg4_def bind_eq_Some_conv split: if_splits intro: fields_rec [OF disjI1] fields_rec [OF disjI2])
qed

lemma v_printf_ok:
  assumes V: "v_printf rd fr st = Some r" and "printf_ok fr str sz m0 (pout st)" "unat fr + 136 \<le> 2 ^ 32"
  shows "printf_ok fr str sz m0 (pout (snd r))"
  using assms(2,3)
proof (induction rule: v_printf.raw_induct [OF _ V])
  case (1 f rd fr st r)
  have text_ok: "printf_ok fr str sz m0 (pout ((emit p n st)\<lparr>format := x\<rparr>))" for p n x
    using emit_ok [OF 1(3)] by simp
  have inn: "printf_ok fr str sz m0 (pout (case_sum id id y))"
    if "inn_printf rd fr conv0 st1 = Some y" "printf_ok fr str sz m0 (pout st1)" for st1 y
    by (rule inn_printf_ok [OF that 1(4)])
  have rec: "printf_ok fr str sz m0 (pout (snd y))"
    if "f rd fr st' = Some y" "printf_ok fr str sz m0 (pout st')" for st' y
    by (rule 1(1) [OF that 1(4)])
  have conv: "printf_ok fr str sz m0 (pout (snd r))"
    if "inn_printf rd fr conv0 (st1\<lparr>format := x\<rparr>) = Some y" "printf_ok fr str sz m0 (pout st1)"
      "(case y of Inl st \<Rightarrow> Some (-1, st) | Inr st \<Rightarrow> f rd fr st) = Some r" for st1 x y
    using inn [OF that(1)] that(2,3) rec by (cases y) auto
  show ?case
    using 1(2,3) unfolding Let_def
    by (auto simp: bind_eq_Some_conv split: if_splits
        intro: conv [OF _ text_ok] conv [OF _ 1(3)] rec [OF _ text_ok] rec [OF _ 1(3)])
qed

lemma vsnprintf_kept:
  assumes fr: "unat fr + 136 \<le> 2 ^ 32" and V: "vsnprintf rd fr str sz fmt args m = Some (n, m')"
  shows "kept fr str sz m m'"
proof -
  define sd where "sd = \<lparr>sd_str = str, sd_len = 0, sd_size = (if sz \<noteq> 0 then sz - 1 else 0)\<rparr>"
  obtain st where st: "v_printf rd fr \<lparr>pout = (sd, m), plen = 0, format = fmt, arg_ptr = args\<rparr> = Some (n, st)"
    and m': "m' = (if str \<noteq> 0 \<and> sz \<noteq> 0 \<and> sint n \<ge> 0 then
                 if sz \<noteq> -1 \<and> n \<ge> sz then put_byte (str + (sz - 1)) 0 (pmem st) else put_byte (str + n) 0 (pmem st)
               else pmem st)"
    using V by (auto simp: vsnprintf_def sd_def)
  have "printf_ok fr str sz m (pout st)"
    using v_printf_ok [OF st _ fr, of str sz m] by (simp add: printf_ok_def sd_def kept_refl)
  hence k: "kept fr str sz m (pmem st)"
    by (auto simp: printf_ok_def split: prod.splits)
  have "n \<noteq> -1" if "sint n \<ge> 0"
    using that by auto
  hence "unat n < unat sz" if "sint n \<ge> 0" "\<not> (sz \<noteq> -1 \<and> n \<ge> sz)"
    using that by (metis not_le word_less_nat_alt word_order.not_eq_extremum)
  moreover have "unat (sz - 1) < unat sz" if "sz \<noteq> 0"
    using that unat_minus_one [of sz] by (simp add: unat_gt_0 [symmetric])
  ultimately show ?thesis
    using k by (auto simp: m' writable_def intro!: kept_put)
qed

end
