(* ===== verification/Printf_Ends.thy ===== *)
theory Printf_Ends
  imports Printf_Safe
begin

text \<open>
  \<open>vsnprintf\<close> returns for every format string: its loops, and those of \<open>strtoul\<close>, \<open>strtol\<close> and \<open>strlen\<close> which it
  calls, come closer to a zero byte that is not overwritten.
\<close>

section \<open>The loops end\<close>

text \<open>
  Addresses wrap around, so a loop over a string ends as soon as the memory has a zero byte at some address \<open>z\<close>.
  The distance to it decreases with every step.
\<close>

lemma to_next: "p \<noteq> z \<Longrightarrow> unat (z - (p + 1)) < unat (z - p)" for p z :: u32
  using unat_minus_one [of "z - p"] unat_gt_0 [of "z - p"] by (simp add: diff_diff_eq [symmetric])

lemma string_induct: "(\<And>p. (p \<noteq> z \<Longrightarrow> P (p + 1)) \<Longrightarrow> P p) \<Longrightarrow> P p" for p z :: u32
  by (induction "unat (z - p)" arbitrary: p rule: less_induct) (use to_next in blast)

lemma strlen_ends:
  assumes "get_byte m z = 0"
  shows "\<exists>n. strlen s m = Some n"
proof -
  have "\<forall>i. \<exists>n. strlen_loop i s m = Some n"
  proof (induction s rule: string_induct [of z])
    case (1 s)
    then show ?case
      using assms by (subst strlen_loop.simps) auto
  qed
  then show ?thesis
    by (simp add: strlen_def)
qed

lemma skip_isspace_ends:
  assumes "get_byte m z = 0"
  shows "\<exists>q. skip_isspace p m = Some q \<and> unat (z - q) \<le> unat (z - p)"
proof (induction p rule: string_induct [of z])
  case (1 p)
  have "\<not> isspace (get_char m z)"
    using assms by (simp add: get_char_def isspace_def)
  then show ?case
    using 1 to_next [of p z] by (subst skip_isspace.simps) (auto intro: le_less_trans order.strict_implies_order)
qed

lemma strtoul_loop_ends:
  assumes "get_byte m z = 0"
  shows "\<forall>vo. \<exists>q vo'. strtoul_loop b p vo m = Some (q, vo') \<and> unat (z - q) \<le> unat (z - p)"
proof (induction p rule: string_induct [of z])
  case (1 p)
  show ?case
  proof
    fix vo
    show "\<exists>q vo'. strtoul_loop b p vo m = Some (q, vo') \<and> unat (z - q) \<le> unat (z - p)"
    proof (cases "get_byte m p \<noteq> 0 \<and> \<not> uint (digit_value (get_byte m p)) \<ge> b")
      case True
      then have "p \<noteq> z"
        using assms by auto
      then obtain q vo' where "strtoul_loop b (p + 1) (strtoul_add b (digit_value (get_byte m p)) vo) m = Some (q, vo')"
        "unat (z - q) \<le> unat (z - (p + 1))"
        using 1 by blast
      then show ?thesis
        using True to_next [OF \<open>p \<noteq> z\<close>] by (subst strtoul_loop.simps) (auto intro: order.strict_implies_order le_less_trans)
    qed (subst strtoul_loop.simps, auto)
  qed
qed

lemma skip_to_ends:
  assumes "get_byte m z = 0"
  shows "\<exists>n. skip_to f m = Some n \<and> (if n = 0 then get_byte m f \<in> {0, 37} else unat (z - (f + n)) < unat (z - f))"
proof -
  have "\<exists>n. skip_to_loop f (p - f) m = Some n \<and> unat (z - (f + n)) \<le> unat (z - p) \<and> get_byte m (f + n) \<in> {0, 37}" for p
  proof (induction p rule: string_induct [of z])
    case (1 p)
    show ?case
    proof (cases "get_byte m p \<in> {0, 37}")
      case False
      then have "p \<noteq> z"
        using assms by auto
      then obtain n where "skip_to_loop f (p + 1 - f) m = Some n" "unat (z - (f + n)) \<le> unat (z - (p + 1))"
        "get_byte m (f + n) \<in> {0, 37}"
        using 1 by blast
      moreover have "p + 1 - f = p - f + 1"
        by simp
      ultimately show ?thesis
        using False to_next [OF \<open>p \<noteq> z\<close>] by (subst skip_to_loop.simps) (auto intro: le_less_trans order.strict_implies_order)
    qed (subst skip_to_loop.simps, auto)
  qed
  from this [of f] obtain n where n: "skip_to f m = Some n" "unat (z - (f + n)) \<le> unat (z - f)" "get_byte m (f + n) \<in> {0, 37}"
    by (auto simp: skip_to_def)
  moreover have "unat (z - (f + n)) \<noteq> unat (z - f)" if "n \<noteq> 0"
    using that by (simp add: word_unat_eq_iff [symmetric] diff_diff_eq [symmetric])
  ultimately show ?thesis
    by (cases "n = 0") auto
qed

text \<open>\<open>strtoul\<close> and \<open>strtol\<close> in base 10: the address they store is not behind \<open>z\<close>.\<close>

lemma strtoul_ends:
  assumes z: "get_byte m z = 0" and e: "e \<noteq> 0"
  shows "\<exists>v q. strtoul p e 10 m = Some (v, m(e := q)) \<and> unat (z - q) \<le> unat (z - p)"
proof -
  obtain p1 where p1: "skip_isspace p m = Some p1" "unat (z - p1) \<le> unat (z - p)"
    using skip_isspace_ends [OF z] by blast
  define neg orig where "neg \<longleftrightarrow> get_char m p1 = 45"
    and "orig = (if get_char m p1 = 45 \<or> get_char m p1 = 43 then p1 + 1 else p1)"
  have "p1 \<noteq> z" if "get_char m p1 = 45 \<or> get_char m p1 = 43"
    using that z by (auto simp: get_char_def)
  then have o: "unat (z - orig) \<le> unat (z - p)"
    using p1(2) to_next [of p1 z] by (auto simp: orig_def)
  obtain q v ov where L: "strtoul_loop 10 orig (0, False) m = Some (q, v, ov)" "unat (z - q) \<le> unat (z - orig)"
    using strtoul_loop_ends [OF z, of 10 orig] by (metis prod.exhaust)
  have "strtoul_base orig 10 m = Some (orig, 10)"
    by (simp add: strtoul_base_def)
  then have "strtoul p e 10 m = Some (if ov then ULONG_MAX else if neg then - (if q = orig then 0 else v) else if q = orig then 0 else v,
      m(e := if q = orig then p else q))"
    unfolding strtoul_def p1(1) Option.bind.simps Let_def orig_def [symmetric] unfolding neg_def [symmetric] using L(1) e by simp
  then show ?thesis
    using o L(2) by (cases "q = orig") auto
qed

lemma strtoul_digit_ends:
  assumes z: "get_byte m z = 0" and e: "e \<noteq> 0" and d: "48 \<le> get_byte m p" "get_byte m p \<le> 57"
  shows "\<exists>v q. strtoul p e 10 m = Some (v, m(e := q)) \<and> unat (z - q) < unat (z - p)"
proof -
  have "is_digit 10 (get_byte m p)"
    using d by (auto simp: is_digit_def digit_value_def word_le_nat_alt word_less_nat_alt unat_sub_if')
  then have s: "\<not> isspace (get_char m p)" "get_char m p \<noteq> 45" "get_char m p \<noteq> 43"
    and v: "unat (digit_value (get_byte m p)) < 10" "get_byte m p \<noteq> 0"
    using get_char_not_space [of 10 m p] d by (auto simp: is_digit_def)
  have l: "strtoul_loop 10 p vo m = strtoul_loop 10 (p + 1) (strtoul_add 10 (digit_value (get_byte m p)) vo) m" for vo
  proof -
    have "uint (digit_value (get_byte m p)) < 10"
      using v(1) by (simp only: uint_nat)
    then show ?thesis
      using v(2) by (subst strtoul_loop.simps) simp
  qed
  have "p \<noteq> z"
    using z d by auto
  obtain q v ov where L: "strtoul_loop 10 p (0, False) m = Some (q, v, ov)" "unat (z - q) \<le> unat (z - (p + 1))"
    using strtoul_loop_ends [OF z, of 10 "p + 1"] l by (metis prod.exhaust)
  have q: "unat (z - q) < unat (z - p)"
    using L(2) to_next [OF \<open>p \<noteq> z\<close>] by simp
  then have "q \<noteq> p"
    by auto
  then have "strtoul p e 10 m = Some (if ov then ULONG_MAX else v, m(e := q))"
    using s L(1) e by (simp add: strtoul_def skip_isspace.simps [of p] strtoul_base_def)
  then show ?thesis
    using q by blast
qed

lemma strtol_ends:
  assumes z: "get_byte m z = 0" and e: "e \<noteq> 0"
  shows "\<exists>v q. strtol p e 10 m = Some (v, m(e := q)) \<and> unat (z - q) \<le> unat (z - p)"
proof -
  obtain p1 where p1: "skip_isspace p m = Some p1" "unat (z - p1) \<le> unat (z - p)"
    using skip_isspace_ends [OF z] by blast
  define neg p2 where "neg \<longleftrightarrow> get_char m p1 = 45 \<and> isalnum (get_char m (p1 + 1))" and "p2 = (if neg then p1 + 1 else p1)"
  have "p1 \<noteq> z" if "neg"
    using that z by (auto simp: neg_def get_char_def)
  then have o: "unat (z - p2) \<le> unat (z - p)"
    using p1(2) to_next [of p1 z] by (auto simp: p2_def)
  obtain v q where L: "strtoul p2 e 10 m = Some (v, m(e := q))" "unat (z - q) \<le> unat (z - p2)"
    using strtoul_ends [OF z e] by blast
  have "\<exists>w. strtol p e 10 m = Some (w, m(e := if q = p2 then p else q))"
    unfolding strtol_def p1(1) Option.bind.simps Let_def neg_def [symmetric] p2_def [symmetric] using L(1) e by simp
  moreover have "unat (z - (if q = p2 then p else q)) \<le> unat (z - p)"
    using o L(2) by auto
  ultimately show ?thesis
    by blast
qed

section \<open>Formatted output ends\<close>

definition nul_at :: "u32 \<Rightarrow> u32 \<Rightarrow> u32 \<Rightarrow> mem \<Rightarrow> u32 \<Rightarrow> bool" where
  "nul_at fr str sz m z \<longleftrightarrow> get_byte m z = 0 \<and> \<not> writable fr str sz z"

lemma nul_kept: "printf_ok fr str sz m0 (pout st) \<Longrightarrow> nul_at fr str sz m0 z \<Longrightarrow> get_byte (pmem st) z = 0"
  by (auto simp: printf_ok_def nul_at_def kept_def split: prod.splits)

lemma format_simps [simp]:
  "format (set_pmem m st) = format st" "format (emit p n st) = format st" "format (emit_pad rd k c st) = format st"
  by (simp_all add: set_pmem_def emit_def emit_pad_def split: prod.splits)

lemma format_if: "format a = f \<Longrightarrow> format b = f \<Longrightarrow> format (if c then a else b) = f"
  by simp

lemma print_out_format [simp]: "format (print_out rd s n cv st) = format st"
  unfolding print_out_def Let_def by (intro format_if) (simp_all add: format_if)

lemma num_arg_format: "num_arg cv st = (number, llnumber, cv', st') \<Longrightarrow> format st' = format st"
  by (auto simp: num_arg_def va_arg4_def va_arg8_def Let_def split: if_splits)

lemma num_printf_format [simp]: "format (num_printf rd fr base n cv st) = format st"
  unfolding num_printf_def Let_def by (auto split: prod.splits dest: num_arg_format)

lemma conversion_ends:
  assumes "printf_ok fr str sz m0 (pout st)" "nul_at fr str sz m0 z"
  shows "\<exists>st'. conversion rd fr ch cv st = Some st' \<and> format st' = format st"
proof -
  have "strlen s (pmem st) \<noteq> None" for s
    using strlen_ends [OF nul_kept [OF assms], of s] by auto
  then have "conv_str rd cv st \<noteq> None"
    by (simp add: conv_str_def va_arg4_def Let_def del: not_None_eq)
  then obtain st' where "conv_str rd cv st = Some st'"
    by blast
  moreover from this have "format st' = format st"
    by (auto simp: conv_str_def va_arg4_def Let_def)
  moreover have "format (conv_hex rd fr ch cv st) = format st" for ch cv
    by (simp add: conv_hex_def Let_def)
  ultimately show ?thesis
    by (auto simp: conversion_def va_arg4_def Let_def)
qed

lemma read_width_ends:
  assumes ok: "printf_ok fr str sz m0 (pout st)" and z: "nul_at fr str sz m0 z" and fr: "fr + 128 \<noteq> 0"
    and ch: "48 \<le> get_byte (pmem st) (format st - 1)" "get_byte (pmem st) (format st - 1) \<le> 57"
  shows "\<exists>cv' st'. read_width fr ch cv st = Some (cv', st') \<and> unat (z - format st') < unat (z - (format st - 1))"
  using strtoul_digit_ends [OF nul_kept [OF ok z] fr ch] by (auto simp: read_width_def)

lemma read_preci_ends:
  assumes ok: "printf_ok fr str sz m0 (pout st)" and z: "nul_at fr str sz m0 z" and fr: "fr + 128 \<noteq> 0"
  shows "\<exists>cv' st'. read_preci fr cv st = Some (cv', st') \<and> unat (z - format st') \<le> unat (z - format st)"
proof (cases "get_byte (pmem st) (format st) = 42")
  case True
  then have "format st \<noteq> z"
    using nul_kept [OF ok z] by auto
  then show ?thesis
    using True to_next [of "format st" z] by (simp add: read_preci_def va_arg4_def Let_def)
next
  case False
  obtain v q where "strtol (format st) (fr + 128) 10 (pmem st) = Some (v, (pmem st)(fr + 128 := q))"
    "unat (z - q) \<le> unat (z - format st)"
    using strtol_ends [OF nul_kept [OF ok z] fr] by blast
  then show ?thesis
    using False by (simp add: read_preci_def)
qed

text \<open>The conversion at \<open>format\<close> returns, and where \<open>v_printf\<close> goes on the format has come closer to its end.\<close>

definition advances :: "u32 \<Rightarrow> u32 \<Rightarrow> (printf_st + printf_st) option \<Rightarrow> bool" where
  "advances z f x \<longleftrightarrow> x \<noteq> None \<and> (\<forall>st'. x = Some (Inr st') \<longrightarrow> unat (z - format st') < unat (z - f))"

lemma advances_trans: "advances z g x \<Longrightarrow> unat (z - g) \<le> unat (z - f) \<Longrightarrow> advances z f x"
  by (auto simp: advances_def intro: less_le_trans)

lemma inn_printf_ends:
  assumes "printf_ok fr str sz m0 (pout st)" and z: "nul_at fr str sz m0 z" and fr: "unat fr + 136 \<le> 2 ^ 32"
  shows "advances z (format st) (inn_printf rd fr cv st)"
  using assms(1)
proof (induction "unat (z - format st)" arbitrary: cv st rule: less_induct)
  case less
  let ?ch = "get_byte (pmem st) (format st)" and ?st = "st\<lparr>format := format st + 1\<rparr>"
  have fr128: "fr + 128 \<noteq> 0"
    using fr by (auto simp: word_unat_eq_iff unat_word_ariths)
  show ?case
  proof (cases "?ch = 0")
    case False
    then have lt: "unat (z - (format st + 1)) < unat (z - format st)"
      using nul_kept [OF less.prems z] by (intro to_next) auto
    have rec: "advances z (format st) (inn_printf rd fr cv' st1)"
      if "unat (z - format st1) < unat (z - format st)" "printf_ok fr str sz m0 (pout st1)" for cv' st1
      using advances_trans [OF less.hyps [OF that]] that(1) by simp
    have ok: "printf_ok fr str sz m0 (pout ?st)"
      using less.prems by simp
    have flags: "advances z (format st) (inn_printf rd fr cv' ?st)"
      "advances z (format st) (inn_printf rd fr cv' (st\<lparr>format := format st + 1, arg_ptr := y\<rparr>))" for cv' y
      using rec lt less.prems by simp_all
    have conv: "advances z (format st) (map_option Inr (conversion rd fr ?ch cv ?st))"
      using conversion_ends [OF ok z, of rd ?ch cv] lt by (auto simp: advances_def)
    have width: "advances z (format st) (Option.bind (read_width fr ?ch cv ?st) (\<lambda>(cv, st). inn_printf rd fr cv st))"
      if d: "48 \<le> ?ch" "?ch \<le> 57"
    proof -
      obtain cv' st' where w: "read_width fr ?ch cv ?st = Some (cv', st')" "unat (z - format st') < unat (z - format st)"
        using read_width_ends [OF ok z fr128, of ?ch cv] d by auto
      then show ?thesis
        using rec [OF w(2) read_width_ok [OF ok w(1)]] by simp
    qed
    have preci: "advances z (format st) (Option.bind (read_preci fr cv ?st) (\<lambda>(cv, st). inn_printf rd fr cv st))"
    proof -
      obtain cv' st' where p: "read_preci fr cv ?st = Some (cv', st')" "unat (z - format st') < unat (z - format st)"
        using read_preci_ends [OF ok z fr128, of cv] lt by auto
      then show ?thesis
        using rec [OF p(2) read_preci_ok [OF ok p(1)]] by simp
    qed
    have "advances z (format st) (Some (Inl st'))" for st'
      by (simp add: advances_def)
    then show ?thesis
      using False flags conv width preci by (subst inn_printf.simps) (simp add: Let_def va_arg4_def)
  qed (simp add: inn_printf.simps advances_def)
qed

lemma v_printf_ends:
  assumes "printf_ok fr str sz m0 (pout st)" and z: "nul_at fr str sz m0 z" and fr: "unat fr + 136 \<le> 2 ^ 32"
  shows "\<exists>r. v_printf rd fr st = Some r"
  using assms(1)
proof (induction "unat (z - format st)" arbitrary: st rule: less_induct)
  case less
  show ?case
  proof (cases "get_byte (pmem st) (format st) = 0")
    case False
    obtain n where n: "skip_to (format st) (pmem st) = Some n" "n = 0 \<Longrightarrow> get_byte (pmem st) (format st) = 37"
      "n \<noteq> 0 \<Longrightarrow> unat (z - (format st + n)) < unat (z - format st)"
      using skip_to_ends [OF nul_kept [OF less.prems z], of "format st"] False by (auto split: if_splits)
    define st1 where "st1 = (if n \<noteq> 0 then (emit (format st) n st)\<lparr>format := format st + n\<rparr> else st)"
    have st1: "format st1 = format st + n" "printf_ok fr str sz m0 (pout st1)"
      using emit_ok [OF less.prems] less.prems by (simp_all add: st1_def)
    have V: "v_printf rd fr st = (if get_byte (pmem st1) (format st1) = 37 then
        Option.bind (inn_printf rd fr conv0 (st1\<lparr>format := format st1 + 1\<rparr>)) (\<lambda>r.
          case r of Inl st \<Rightarrow> Some (-1, st) | Inr st \<Rightarrow> v_printf rd fr st)
        else v_printf rd fr st1)"
      using False n(1) by (subst v_printf.simps) (simp only: if_False Option.bind.simps Let_def st1_def)
    show ?thesis
    proof (cases "get_byte (pmem st1) (format st1) = 37")
      case True
      let ?st = "st1\<lparr>format := format st1 + 1\<rparr>"
      have ok: "printf_ok fr str sz m0 (pout ?st)"
        using st1(2) by simp
      have adv: "advances z (format st1 + 1) (inn_printf rd fr conv0 ?st)"
        using inn_printf_ends [OF ok z fr] by simp
      have "unat (z - (format st1 + 1)) < unat (z - format st1)"
        using True nul_kept [OF st1(2) z] by (intro to_next) auto
      then have "unat (z - (format st1 + 1)) < unat (z - format st)"
        using n(3) st1(1) by (cases "n = 0") auto
      then have rec: "\<exists>r. v_printf rd fr st2 = Some r" if "inn_printf rd fr conv0 ?st = Some (Inr st2)" for st2
        using less.hyps [of st2] adv that inn_printf_ok [OF that ok fr] by (auto simp: advances_def)
      obtain r where "inn_printf rd fr conv0 ?st = Some r"
        using adv by (auto simp: advances_def)
      then show ?thesis
        using V True rec by (cases r) auto
    next
      case nopercent: False
      then have "n \<noteq> 0"
        using n(2) by (auto simp: st1_def)
      then show ?thesis
        using less.hyps [OF _ st1(2)] n(3) st1(1) V nopercent by simp
    qed
  qed (simp add: v_printf.simps)
qed

lemma vsnprintf_ends:
  assumes "nul_at fr str sz m z" "unat fr + 136 \<le> 2 ^ 32"
  shows "\<exists>n m'. vsnprintf rd fr str sz fmt args m = Some (n, m') \<and> kept fr str sz m m'"
proof -
  define sd where "sd = \<lparr>sd_str = str, sd_len = 0, sd_size = (if sz \<noteq> 0 then sz - 1 else 0)\<rparr>"
  have "printf_ok fr str sz m (sd, m)"
    by (simp add: printf_ok_def sd_def kept_refl)
  then have "vsnprintf rd fr str sz fmt args m \<noteq> None"
    using v_printf_ends [of fr str sz m "\<lparr>pout = (sd, m), plen = 0, format = fmt, arg_ptr = args\<rparr>" z rd] assms
    by (auto simp: vsnprintf_def sd_def Let_def)
  then show ?thesis
    using vsnprintf_kept [OF assms(2)] by auto
qed

end
