(* ===== verification/Spec2Isabelle.thy ===== *)
theory Spec2Isabelle
  imports Example_States Tlsf_Heap Libc_Heap Libc_Region Printf_Ends
begin

text \<open>
  A verification library for ObelISK, a real-time kernel with the ITRON interface for the Blackfin
  processor. Paths are relative to \<open>src/obelisk/\<close>.

  \<^bold>\<open>The program.\<close> Tasks run at user level and enter the kernel by traps (\<open>user/ulibc\<close>,
  \<open>core/kernel/blackfin/entry.S\<close>, \<open>syscall_tab.S\<close>). The calls work on static pools of control blocks
  for tasks, semaphores, event flags, mailboxes and memory pools (\<open>core/kernel/port\<close>), whose free entries
  are found in 32-bit bitmaps (\<open>core/include/bitop.h\<close>, \<open>bitmap.h\<close>). Control blocks are linked into
  queues through embedded list nodes (\<open>core/include/linked_list.h\<close>, \<open>queue.h\<close>). \<open>sched.c\<close> keeps a
  ready queue per priority and one queue of timed waits, which the timer interrupt (\<open>time.c\<close>) serves.
  Memory comes from block pools (\<open>core/libc/mpool.c\<close>) and from the TLSF allocator (\<open>core/libc/tlsf.c\<close>);
  \<open>core/libc\<close> also has the string functions, number conversion, formatted output, a binary heap and a
  region allocator.

  \<^bold>\<open>Theories and sources.\<close>
  \<^item> \<open>Obelisk_Prelude\<close>: machine integers, status codes of \<open>itronsys/status.h\<close>, collections of
    simplification rules, loops that drain a queue.
  \<^item> \<open>Bitmaps\<close>: \<open>bitop.h\<close> and \<open>bitmap.h\<close>; \<open>_ffs\<close>, \<open>_ffc\<close>, \<open>_fls\<close>, \<open>_flc\<close> find least and greatest
    bits. The locale \<open>id_allocator\<close> is the contract of the calls that hand out identifiers; it is
    interpreted for tasks, semaphores and mailboxes.
  \<^item> \<open>Linked_Lists\<close>, \<open>Queue_Families\<close>: the lists and queues on an explicit store of nodes, so that aliasing
    is part of the model; the representation predicates \<open>queue_rep\<close>, \<open>list_rep\<close> and \<open>family_rep\<close> relate
    them to HOL lists, and the locales there give the laws of first-in first-out queues.
  \<^item> \<open>Kernel_State\<close>: the record \<open>kernel\<close> with one field per static variable of the kernel, control blocks
    as records with the fields of the C structures, pointers into the static pools as indices.
  \<^item> \<open>Sched\<close> (\<open>sched.c\<close>, \<open>time.c\<close>, \<open>syslog.c\<close>), \<open>Tasks\<close> (\<open>task.c\<close>), \<open>Semaphores\<close> (\<open>semaphore.c\<close>),
    \<open>Eventflags\<close> (\<open>event.c\<close>), \<open>Mailboxes\<close> (\<open>mailbox.c\<close>), \<open>Mempools\<close> (\<open>mempool.c\<close>), \<open>Mpool\<close>
    (\<open>mpool.c\<close>): one definition per function, with the name of the function. A call that
    waits is split at its call of \<open>scheduler()\<close>: the first part ends with \<open>Sched k\<close>, and \<open>k\<close> names the
    second part, a definition with the suffix \<open>_resume\<close>. Other results are \<open>Ret\<close> with the returned value, \<open>Fault\<close>
    for a null pointer that is followed, \<open>Spin\<close> for a loop that does not end and \<open>NoValue\<close> for a function
    that ends without \<open>return\<close>.
  \<^item> \<open>Kernel_Inv\<close>, \<open>Inv_Calls\<close>, \<open>Inv_Sync\<close>, \<open>Inv_Mbx\<close>: the invariant \<open>kinv\<close> of the kernel state and
    its preservation. The locales \<open>kernel_call\<close> and \<open>safe_call\<close> are the contracts of a call and are interpreted
    for the calls.
  \<^item> \<open>Syscalls\<close>: the system call table, the check of the number, the dispatch and the stubs of the user library.
  \<^item> \<open>Machine\<close>: \<open>start_kernel\<close> of \<open>setup.c\<close> and the inductive relation \<open>kstep\<close>: traps, the rest of a
    call after \<open>scheduler()\<close>, timer interrupts, and writes of tasks to their memory; \<open>reachable\<close> are the
    states after boot.
  \<^item> \<open>Sem_Spec\<close>: abstract counting semaphores and the refinement of the two main calls.
  \<^item> \<open>Example_States\<close>: concrete states for the witnesses.
  \<^item> \<open>Libc_String\<close> (\<open>string.c\<close>), \<open>Libc_Stdlib\<close> (\<open>stdlib.c\<close>, \<open>ctype.h\<close>): memory is a function from word
    addresses to 32-bit words with a little-endian byte view; strings are the predicate \<open>cstr\<close>.
  \<^item> \<open>Tlsf\<close> (\<open>tlsf.c\<close>), \<open>Tlsf_Fit\<close>, \<open>Tlsf_Init\<close>: the allocator on word memory, with every macro and
    helper; the invariant \<open>tlsf_ok\<close> of the index and the heads of its lists, the good-fit property of the two mappings,
    what \<open>malloc_ex\<close> returns and when it fails, and the state \<open>init_memory_pool\<close> sets up.
  \<^item> \<open>Tlsf_Lists\<close>, \<open>Tlsf_Blocks\<close>: the whole invariant of a pool. \<open>free_lists\<close> relates the index and the doubly
    linked lists to the set of free blocks; \<open>pool_rep\<close> relates the memory to the sequence of blocks between the
    control structure and the sentinel, with their headers, and says that no two free blocks are neighbours.
  \<^item> \<open>Tlsf_Malloc\<close>, \<open>Tlsf_Release\<close>, \<open>Tlsf_Pool\<close>: \<open>malloc_ex\<close> cuts a block (\<open>cut_block\<close>), \<open>free_ex\<close> merges one
    with its neighbours (\<open>release\<close>), and a fresh pool has the invariant; neither function changes a buffer in use.
  \<^item> \<open>Alloc_Clients\<close>, \<open>Tlsf_Heap\<close>: the locale \<open>allocator\<close> is the contract of an allocator, with a machine of
    clients that allocate, release and store; it is interpreted for \<open>malloc_ex\<close> and \<open>free_ex\<close>.
  \<^item> \<open>Libc_Heap\<close> (\<open>heap.c\<close>), \<open>Libc_Region\<close> (\<open>region.c\<close>): the binary heap as a priority queue on word memory, and
    the region allocator.
  \<^item> \<open>Libc_Printf\<close> (\<open>stdarg.c\<close>, \<open>vsprintf.c\<close>), \<open>Printf_Numbers\<close>, \<open>Printf_Safe\<close>, \<open>Printf_Ends\<close>: formatted output on word memory;
    what the conversions of integers print, which memory the functions write, and that they end.

  \<^bold>\<open>What is shown.\<close> The properties are in this theory, each after a text with its number. They are about the
  kernel machine (the invariant of reachable states, priority scheduling, that calls end, the refinement of
  semaphores, timed waits, event flags, boot), its data structures (first-in first-out queues, identifiers),
  the system call table, the C library and the allocator (the refinement of allocation and release, the
  isolation of its clients, and that no memory is lost).

  \<^bold>\<open>Loops.\<close> Loops over kernel data are \<open>while_option\<close> or \<open>partial_function (option)\<close>; \<open>None\<close> is a loop that
  does not end, and the properties show that the result is \<open>Some\<close>. Loops that count down a machine word are
  functions with a termination proof. No fuel is used.

  \<^bold>\<open>Not modelled.\<close> The registers and the memory protection of the processor (\<open>core/kernel/blackfin\<close> apart from the
  entry code and \<open>stack.c\<close>), the interrupt flag set by \<open>__hw_cli\<close> and \<open>__hw_sti\<close> (the kernel runs
  with interrupts masked between them, so calls are atomic steps up to \<open>scheduler()\<close>), the drivers and the copy
  of lwIP under \<open>drivers\<close>, \<open>libc/tbitmap.c\<close> (commented out as a whole), the configuration tools under \<open>scripts\<close>,
  and the log viewer. The variable-size memory pools of \<open>mempool.c\<close> are not modelled: their calls are the
  allocator on the pool's base, and the table of system calls does not reach \<open>cre_mpl\<close> and \<open>rel_mpl\<close>. The device
  table is not modelled: \<open>device.c\<close> uses undeclared names in two functions and does not compile. What \<open>malloc_ex\<close> returns for the message pool of the mailboxes is a parameter there.
\<close>

section \<open>The kernel machine\<close>

text \<open>C1: Every state the kernel can reach from boot by served system calls, ticks, preemption and
  work of the tasks on their memory has the invariant: the ready queues, wait queues and the timeout
  queue are well-formed lists, a task is on at most one of them and on the right one for its state, the
  bitmap of priorities agrees with the ready queues, semaphore counts are in range and objects exist.\<close>

theorem reachable_invariant:
  assumes "reachable s"
  shows "kinv s"
  using assms by (rule reachable_kinv)

theorem reachable_invariant_witness: "kinv user0"
  by (rule reachable_invariant [OF user0_reachable])

text \<open>C2: The kernel schedules by priority. When a task calls \<open>scheduler()\<close>, the task that runs
  afterwards has the highest priority (the least number) of all tasks that are ready or running, and the
  idle task runs only when there is none.\<close>

theorem highest_priority_runs:
  assumes "reachable s" "kctx s (current_task s) = Some (Calling k)" "s' = scheduler (resuming k s)"
    and "t \<noteq> idle_task s" "tskstat (task_pool s' t) \<in> {TTS_RDY, TTS_RUN}"
  shows "current_task s' \<noteq> idle_task s \<and>
    tskpri (task_pool s' (current_task s')) \<le> tskpri (task_pool s' t)"
proof -
  obtain Q W T where K: "kinvw s Q W T"
    using reachable_kinv [OF assms(1)] by (auto simp: kinv_def)
  have K': "kinvw s' Q W T" "current_task s' = next_task (idle_task s) Q"
    using kinvw_scheduler [OF K refl assms(2) refl] by (simp_all add: assms(3) resuming_def)
  have idle: "idle_task s' = idle_task s"
    by (simp add: assms(3) resuming_def)
  have t: "t \<in> set (Q (tskpri (task_pool s' t)))" "tskpri (task_pool s' t) < PRIORITY_LEVELS"
    using kinvw_task [OF K'(1), of t] assms(4,5) idle by (auto simp: task_ok_def)
  then obtain u where u: "highest_ready Q = Some u"
    using highest_ready_None by (metis empty_iff empty_set not_Some_eq)
  then obtain i where "Q i \<noteq> []" "u = hd (Q i)" "\<And>j. j < i \<Longrightarrow> Q j = []"
    by (rule highest_ready_Some) blast
  then have i: "u \<in> set (Q i)" "i \<le> tskpri (task_pool s' t)"
    using t(1) by (auto simp: not_less [symmetric])
  then show ?thesis
    using kinvw_task [OF K'(1), of u] K'(2) u idle by (auto simp: next_task_def task_ok_def)
qed

theorem highest_priority_runs_witness:
  "current_task run0 \<noteq> idle_task boot0 \<and>
    tskpri (task_pool run0 (current_task run0)) \<le> tskpri (task_pool run0 1)"
proof -
  have "tskstat (task_pool run0 1) \<in> {TTS_RDY, TTS_RUN}"
    using scheduler_pool [of "resuming K_idle boot0" 1 1] kinvw_sys [OF boot0_parts(5)] run0_current boot0_parts
    by (simp add: run0_def resuming_def sys_ok_def)
  then show ?thesis
    using highest_priority_runs [of boot0 K_idle run0 1] boot0_reachable boot0_parts
    by (simp add: run0_def)
qed





text \<open>C10: The timer interrupt handler always returns. It advances the time by one and moves the
  tasks whose time has come off the timeout queue: what is left is sorted and lies in the future.\<close>

theorem tick_returns:
  assumes "reachable s"
  shows "\<exists>s' T. evt_tmr_isr s = Some s' \<and> system_time s' = system_time s + 1 \<and> tq_rep s' T \<and>
    list_all (\<lambda>t. system_time s' < wuptim (task_pool s' t)) T"
proof -
  obtain Q W T where "kinvw s Q W T"
    using reachable_kinv [OF assms] by (auto simp: kinv_def)
  then obtain s' Q' T' where s': "evt_tmr_isr s = Some s'" "system_time s' = system_time s + 1"
    "\<forall>t \<in> set T'. system_time s' < wuptim (task_pool s' t)" and K': "kinvw s' Q' W T'"
    using kinvw_tick by blast
  show ?thesis
    using s' krep_tq [OF kinvw_krep [OF K']] by (auto simp: list_all_iff)
qed

theorem tick_returns_witness:
  "\<exists>s' T. evt_tmr_isr user0 = Some s' \<and> system_time s' = system_time user0 + 1 \<and> tq_rep s' T \<and>
    list_all (\<lambda>t. system_time s' < wuptim (task_pool s' t)) T"
  by (rule tick_returns [OF user0_reachable])



section \<open>Semaphores, event flags and queues\<close>

text \<open>C4: \<open>sig_sem_sys\<close> implements the abstract release: the task that has waited longest becomes
  ready at the tail of its priority, or the count grows by one when no task waits.\<close>

theorem sig_sem_implements:
  assumes "sem_abs s A" "isbitset (sembmap s) i" "i < CONFIG_MAX_SEM"
    and "semcnt (sem_pool s i) \<noteq> maxsem (sem_pool s i)"
  shows "\<exists>s'. sig_sem_sys (int i + 1) s = (Sched (K_ret E_OK), s') \<and>
    sem_abs s' (asig i (\<lambda>t. tskpri (task_pool s t)) A)"
  using sig_sem_refines [OF assms(1)] assms(2-) by simp

theorem sig_sem_implements_witness:
  "\<exists>s'. sig_sem_sys 1 sem0 = (Sched (K_ret E_OK), s') \<and>
    sem_abs s' (asig 0 (\<lambda>t. tskpri (task_pool sem0 t)) asem0)"
  using sig_sem_implements [of sem0 asem0 0] sem0_parts by (simp add: asem0_abs cfg_defs)

text \<open>C5: \<open>wai_sem_sys\<close> implements the abstract acquisition: it takes a resource and returns, or puts
  the caller at the end of the queue of the semaphore and off the ready queue before \<open>scheduler()\<close>.\<close>

theorem wai_sem_implements:
  assumes "sem_abs s A" "user_level s" "isbitset (sembmap s) i" "i < CONFIG_MAX_SEM"
  shows "\<exists>s'. wai_sem_sys (int i + 1) s =
      (if semcnt (sem_pool s i) \<ge> 1 then Ret E_OK else Sched (K_wai_sem (int i + 1)), s') \<and>
    sem_abs (if semcnt (sem_pool s i) \<ge> 1 then s'
        else s'\<lparr>kctx := (kctx s')(current_task s \<mapsto> Calling (K_wai_sem (int i + 1)))\<rparr>)
      (await_sem i (current_task s) (\<lambda>t. tskpri (task_pool s t)) A)"
  using wai_sem_refines [OF assms(1,2) refl] assms(3,4) by simp

theorem wai_sem_implements_witness:
  "\<exists>s'. wai_sem_sys 1 sem0 = (Ret E_OK, s') \<and>
    sem_abs s' (await_sem 0 (current_task sem0) (\<lambda>t. tskpri (task_pool sem0 t)) asem0)"
  using wai_sem_implements [of sem0 asem0 0] sem0_parts by (simp add: asem0_abs cfg_defs)

text \<open>C12: The walk of \<open>set_flg_sys\<close> ends and releases exactly the first task, in waiting order, whose
  condition the new pattern meets. A flag with \<open>TA_WMUL\<close> is no exception: the node of the released task
  is unlinked before its \<open>next\<close> pointer is read, so no second task is ever released.\<close>

theorem set_flg_releases_first:
  assumes "kinvw s Q W T"
  shows "set_flg_loop i s =
    Some (case find (\<lambda>t. flg_releases (flgptn (flg_pool s i)) (task_pool s t)) (W (WFlg i)) of
      None \<Rightarrow> s | Some t \<Rightarrow> flg_wake i t s)"
  by (rule set_flg_loop_eq [OF assms])

theorem set_flg_releases_first_witness:
  "set_flg_loop 0 flgwait0 =
    Some (if flg_releases (flgptn (flg_pool flgwait0 0)) (task_pool flgwait0 1) then flg_wake 0 1 flgwait0
      else flgwait0)"
  using set_flg_releases_first [OF flgwait0_kinvw, of 0] by simp

text \<open>C13: \<open>tq_insert\<close> is insertion into a list sorted by wake-up time, before the tasks with the same
  time, and its search always ends.\<close>

theorem tq_insert_sorted:
  assumes "tq_rep s T" "t \<notin> set T"
    and "list_all (\<lambda>u. ll_this (nodes s (Slp u)) = Some (Tsk u)) T"
    and "s0 = upd_task t (wuptim_update (\<lambda>_. ucast tmout + system_time s)) s"
  shows "\<exists>s'. tq_insert t tmout s = Some s' \<and> tq_rep s' (insort_key (\<lambda>u. wuptim (task_pool s0 u)) t T)"
  using tq_insert_rep [OF assms(1,2) _ assms(4) refl] assms(3) by (auto simp: list_all_iff)

theorem tq_insert_sorted_witness:
  "\<exists>s'. tq_insert 1 5 user0 = Some s' \<and> tq_rep s' [1]"
  using tq_insert_sorted [of user0 "[]" 1 _ 5, OF krep_tq [OF kinvw_krep [OF user0_kinvw]]] by simp

text \<open>C15: The queues of \<open>queue.h\<close> are first-in first-out: nodes inserted into an empty queue are
  extracted in the same order, and the queue is empty again.\<close>

theorem queue_fifo:
  assumes "queue_rep st q []" "distinct ps" "list_all (isolated st) ps"
    and "ins_all queue_insert ps q st = (q1, st1)" "ext_many queue_extract (length ps) q1 st1 = (ts, q2, st2)"
  shows "ts = map (\<lambda>p. ll_this (st p)) ps \<and> queue_rep st2 q2 []"
  using queue.fifo_order [OF assms(1,2) _ assms(4,5)] assms(3) by (simp add: list_all_iff)

theorem queue_fifo_witness:
  "fst (let (q1, st1) = ins_all queue_insert [1, 2 :: nat] queue_init (\<lambda>n. \<lparr>ll_prev = None, ll_next = None, ll_this = Some n\<rparr>)
        in ext_many queue_extract 2 q1 st1) = [Some 1, Some 2]"
proof -
  let ?st = "\<lambda>n. \<lparr>ll_prev = None, ll_next = None, ll_this = Some n\<rparr> :: (nat, nat) linked_list_t"
  obtain q1 st1 where 1: "ins_all queue_insert [1, 2] queue_init ?st = (q1, st1)"
    by fastforce
  obtain ts q2 st2 where 2: "ext_many queue_extract 2 q1 st1 = (ts, q2, st2)"
    by (metis prod_cases3)
  show ?thesis
    using queue_fifo [of ?st queue_init "[1, 2]" q1 st1 ts q2 st2] 1 2
    by (simp add: queue_rep_def queue_init_def isolated_def numeral_2_eq_2)
qed

section \<open>Identifiers and the system call table\<close>

text \<open>C16: \<open>_ffc\<close> finds the lowest clear bit of a bitmap, so an identifier below a limit of at most 31 is
  handed out exactly when one is free.\<close>

theorem ffc_allocates:
  assumes "n < 32"
  shows "0 \<le> ffc bm \<and> ffc bm < int n \<longleftrightarrow> (\<exists>m < n. \<not> bit bm m)"
  by (rule ffc_below [OF assms])

theorem ffc_allocates_witness:
  "0 \<le> ffc 3 \<and> ffc 3 < 4 \<longleftrightarrow> (\<exists>m < 4. \<not> bit (3 :: u32) m)"
  using ffc_allocates [of 4 3] by simp

text \<open>C17: Every stub of the user library that traps reaches the kernel function it is named after, with
  two exceptions: the table has an entry missing, so \<open>cre_mpl\<close> and \<open>rel_mpl\<close> trap with numbers whose
  entries are empty.\<close>

theorem stubs_reach_kernel:
  "map fst (filter (\<lambda>st. \<not> reaches st) stubs) = [''cre_mpl'', ''rel_mpl'']"
  by (rule stubs_reaching)

text \<open>C18: The entry rejects numbers above \<open>NR_SYSCALLS\<close> only, and the table is shorter than that:
  the numbers from 235 to 256 select what lies behind the table.\<close>

theorem dispatch_beyond: "dispatch nr = Beyond \<longleftrightarrow> 235 \<le> nr \<and> nr \<le> 256"
  using table_length by (auto simp: dispatch_def NR_SYSCALLS_def split: option.splits)

section \<open>The C library\<close>

text \<open>C26: \<open>memmove\<close> copies an area to another one that may overlap it: afterwards every byte of the
  destination is the byte the source had before the call, and every other byte is unchanged.\<close>

theorem memmove_copies:
  assumes "unat dst + unat n \<le> 2 ^ 32" "unat src + unat n \<le> 2 ^ 32"
  shows "get_byte (memmove dst src n m) x =
    (if unat (x - dst) < unat n then get_byte m (src + (x - dst)) else get_byte m x)"
  using assms by (rule memmove_bytes)

theorem memmove_copies_witness:
  "get_byte (memmove 0x101 0x100 3 ((\<lambda>_. 0)(0x100 := 0x64636261))) 0x103 = 0x63"
  by (subst memmove_copies) (simp_all add: get_byte_def)

text \<open>C27: \<open>strcmp\<close> ends on two strings and compares them: its result is zero for equal strings and
  negative exactly when the first is smaller in the lexicographic order of unsigned bytes.\<close>

theorem strcmp_orders:
  assumes "cstr m s xs" "cstr m t ys"
  shows "\<exists>r. strcmp s t m = Some r \<and> (r = 0 \<longleftrightarrow> xs = ys) \<and> (r < 0 \<longleftrightarrow> ord_class.lexordp xs ys)"
  using assms by (rule strcmp_cstr)

theorem strcmp_orders_witness:
  "\<exists>r. strcmp 0x100 0x200 ((\<lambda>_. 0)(0x100 := 0x6261, 0x200 := 0x80)) = Some r \<and> r < 0"
  using strcmp_orders [of "(\<lambda>_. 0)(0x100 := 0x6261, 0x200 := 0x80)" "0x100" "[0x61, 0x62]" "0x200" "[0x80]"]
  by (auto simp: get_byte_def)

text \<open>C28: \<open>strcat\<close> ends and leaves the concatenation of both strings at its first argument, provided
  the end of the first string does not lie within the second one.\<close>

theorem strcat_appends:
  assumes "cstr m s xs" "s \<noteq> 0" "cstr m t ys" "length ys < unat (s + of_nat (length xs) - t)"
    and "length xs + length ys < 2 ^ 32"
  shows "\<exists>m'. strcat s t m = Some m' \<and> cstr m' s (xs @ ys)"
  using assms by (rule strcat_cstr)

theorem strcat_appends_witness:
  "\<exists>m'. strcat 0x200 0x100 ((\<lambda>_. 0)(0x100 := 0x6261, 0x200 := 0x63)) = Some m' \<and> cstr m' 0x200 [0x63, 0x61, 0x62]"
  using strcat_appends [of "(\<lambda>_. 0)(0x100 := 0x6261, 0x200 := 0x63)" "0x200" "[0x63]" "0x100" "[0x61, 0x62]"]
  by (simp add: get_byte_def)

text \<open>C29: \<open>strstr\<close> ends and returns the first position at which the second string occurs in the first,
  and the null pointer when there is none.\<close>

theorem strstr_finds:
  assumes "cstr m h xs" "cstr m n ys" "h \<noteq> 0" "n \<noteq> 0" "length xs < 2 ^ 32" "length ys < 2 ^ 32"
  shows "strstr h n m = Some (case occurrence ys xs of None \<Rightarrow> 0 | Some j \<Rightarrow> h + of_nat j)"
  using assms by (rule strstr_cstr)

theorem strstr_finds_witness:
  "strstr 0x100 0x200 ((\<lambda>_. 0)(0x100 := 0x636261, 0x200 := 0x6362)) = Some 0x101"
proof -
  have "occurrence [0x62, 0x63] [0x61, 0x62, 0x63] = Some 1"
    by (simp add: occurrence_def upt_rec)
  then show ?thesis
    using strstr_finds [of "(\<lambda>_. 0)(0x100 := 0x636261, 0x200 := 0x6362)" "0x100" "[0x61, 0x62, 0x63]" "0x200" "[0x62, 0x63]"]
    by (simp add: get_byte_def)
qed



section \<open>The allocator\<close>

text \<open>C23: The search class of TLSF is a good fit: a request that \<open>MAPPING_SEARCH\<close> puts into a class is
  served by every free block that \<open>MAPPING_INSERT\<close> puts into that class or a later one.\<close>

theorem search_fits:
  assumes "4 dvd unat r" "unat r < 2 ^ 31" "MAPPING_SEARCH r = (r', fl, sl)" "MAPPING_INSERT z = (fl', sl')"
    and "fl < fl' \<or> fl = fl' \<and> sl \<le> sl'"
  shows "unat r \<le> unat r' \<and> unat r' \<le> unat z"
  using good_fit [OF assms] by simp

theorem search_fits_witness: "unat (1000 :: u32) \<le> unat (1008 :: u32) \<and> unat (1008 :: u32) \<le> unat (1010 :: u32)"
  by (rule search_fits [of 1000 1008 3 31 1010 3 31])
    (simp, simp, code_simp, code_simp, simp)



text \<open>C22: A fresh pool serves every request that fits: when the size the allocator searches for is at most the
  size of the block \<open>init_memory_pool\<close> reports, \<open>malloc_ex\<close> does not return the null pointer.\<close>

theorem fresh_pool_serves:
  assumes "t \<noteq> 0" "4 dvd unat t" "m t \<noteq> TLSF_SIGNATURE" "3244 \<le> unat sz" "unat sz < 2 ^ 30" "unat t + unat sz \<le> 2 ^ 32"
    and "init_memory_pool sz t mp m = (r, mp', m1)"
    and "unat n < 2 ^ 28" "MAPPING_SEARCH (request_size n) = (r', fl, sl)" "unat r' \<le> unat r"
  shows "fst (malloc_ex n t m1) \<noteq> 0"
  using assms by (rule fresh_pool_malloc)

theorem fresh_pool_serves_witness:
  "fst (malloc_ex 1000 0x1000 (snd (snd (init_memory_pool 0x2000 0x1000 0 (\<lambda>_. 0))))) \<noteq> 0"
proof -
  obtain r mp' m' where I: "init_memory_pool 0x2000 0x1000 0 (\<lambda>_. 0) = (r, mp', m')"
    by (metis prod_cases3)
  then have "unat r = 4976"
    using init_pool(3) [of "0x1000" "\<lambda>_. 0" "0x2000" 0 r mp' m'] by (simp add: TLSF_SIGNATURE_def)
  moreover have "MAPPING_SEARCH (request_size 1000) = (1008, 3, 31)"
    by code_simp
  ultimately show ?thesis
    using fresh_pool_serves [of "0x1000" "\<lambda>_. 0" "0x2000" 0 r mp' m' 1000 1008 3 31] I by (simp add: TLSF_SIGNATURE_def)
qed



text \<open>C21: In a valid pool \<open>malloc_ex\<close> fails only when every class at or above the class of the request is
  empty: the first block of every list is smaller than the request after rounding. It then changes nothing.\<close>

theorem malloc_fails_full:
  assumes "tlsf_ok t m" "unat sz < 2 ^ 28" "malloc_ex sz t m = (0, m')"
    and "MAPPING_SEARCH (request_size sz) = (r, fl, sl)"
    and "f < REAL_FLI" "s < MAX_SLI" "b = m (matrix_at t (int f) (int s))" "b \<noteq> 0"
  shows "m' = m \<and> unat (m (size_at b) AND BLOCK_SIZE) < unat r"
  using malloc_null [OF assms] by simp

theorem malloc_fails_full_witness:
  "\<exists>r fl sl. malloc_ex 100 0x1000 tiny_pool = (0, tiny_pool) \<and> MAPPING_SEARCH (request_size 100) = (r, fl, sl) \<and>
     unat (tiny_pool (size_at 0x2000) AND BLOCK_SIZE) < unat r"
proof -
  obtain r fl sl where S: "MAPPING_SEARCH (request_size 100) = (r, fl, sl)"
    by (metis prod_cases3)
  define m' where "m' = snd (malloc_ex 100 0x1000 tiny_pool)"
  have "fst (malloc_ex 100 0x1000 tiny_pool) = 0"
    by code_simp
  then have M: "malloc_ex 100 0x1000 tiny_pool = (0, m')"
    unfolding m'_def by (simp add: prod_eq_iff)
  have "0x2000 = tiny_pool (matrix_at 0x1000 (int 0) (int 2))"
    by (simp add: tiny_pool_def matrix_at_def)
  from malloc_fails_full [OF tiny_pool_ok _ M S _ _ this] show ?thesis
    using M S by (simp add: REAL_FLI_def MAX_SLI_def)
qed


section \<open>Heaps and regions\<close>

text \<open>C34: The binary heap is a priority queue. Nodes with keys of at least -1 that are inserted into an empty
  heap with enough room are extracted in the order of their keys; both loops end and the heap is empty
  again.\<close>

theorem heap_sorts:
  fixes vs :: "heapnode_t list"
  assumes "heap_rep h e N m {#}" "length vs \<le> N" "list_all (\<lambda>v. -1 \<le> sint (key v)) vs"
  shows "\<exists>m1 ws m2. insert_all (\<lambda>v. heap_insert h (item v) (key v)) vs m = Some m1 \<and>
    extract_many (heap_extract h) (length vs) m1 = Some (map item ws, m2) \<and>
    mset ws = mset vs \<and> sorted (map (\<lambda>v. sint (key v)) ws) \<and> heap_rep h e N m2 {#}"
  by (rule heapq.drains_sorted [OF assms])

theorem heap_sorts_witness:
  "\<exists>m1 m2. insert_all (\<lambda>v. heap_insert 0x100 (item v) (key v)) [\<lparr>key = 7, item = 1\<rparr>, \<lparr>key = 5, item = 2\<rparr>]
     ((\<lambda>_. 0)(0x100 := 0x1000, 0x1000 := -1, 0x1004 := -1)) = Some m1 \<and>
   extract_many (heap_extract 0x100) 2 m1 = Some ([2, 1], m2)"
proof -
  let ?m = "(\<lambda>_. 0)(0x100 := 0x1000, 0x1000 := -1, 0x1004 := -1) :: mem"
  let ?vs = "[\<lparr>key = 7, item = 1\<rparr>, \<lparr>key = 5, item = 2\<rparr>]"
  have "key_at ?m 0x1000 0 = -1"
    by code_simp
  then have "heap_rep 0x100 0x1000 5 ?m {#}"
    by (intro heap_repI [of _ _ _ _ 0]) (simp_all add: heap_fits_def nodes_of_def)
  from heap_sorts [OF this, of ?vs] obtain m1 ws m2 where
    1: "insert_all (\<lambda>v. heap_insert 0x100 (item v) (key v)) ?vs ?m = Some m1"
      "extract_many (heap_extract 0x100) 2 m1 = Some (map item ws, m2)"
    and 2: "mset ws = mset ?vs" "sorted (map (\<lambda>v. sint (key v)) ws)"
    by (auto simp: numeral_2_eq_2)
  have "length ws = 2"
    using mset_eq_length [OF 2(1)] by simp
  then have "ws = rev ?vs"
    using 2 by (auto simp: numeral_2_eq_2 length_Suc_conv add_eq_conv_diff)
  then show ?thesis
    using 1 by simp
qed




section \<open>Formatted output\<close>

text \<open>C31: \<open>vsnprintf\<close> returns for every format string that it does not overwrite, whatever the conversions and the
  arguments are, and writes nothing but its local variables and the \<open>sz\<close> bytes of the buffer.\<close>

theorem vsnprintf_safe:
  assumes "cstr m fmt fs" "\<not> writable fr str sz (fmt + of_nat (length fs))" "unat fr + 136 \<le> 2 ^ 32"
  shows "\<exists>n m'. vsnprintf rd fr str sz fmt args m = Some (n, m') \<and>
    (\<forall>x. \<not> writable fr str sz x \<longrightarrow> get_byte m' x = get_byte m x)"
  using vsnprintf_ends [of fr str sz m "fmt + of_nat (length fs)"] assms cstr_end [OF assms(1)]
  by (simp add: nul_at_def kept_def)

text \<open>The format is \<open>%s\<close>, its argument the string at 0x300 and the buffer has three bytes.\<close>

theorem vsnprintf_safe_witness:
  "\<exists>n m'. vsnprintf \<lparr>pad_line = \<lambda>_. 0x500, null_string = 0x520\<rparr> 0x1000 0x200 3 0x100 0x400
      ((\<lambda>_. 0)(0x100 := 0x7325, 0x300 := 0x64636261, 0x400 := 0x300)) = Some (n, m') \<and>
    get_byte m' 0x203 = 0"
proof -
  let ?m = "(\<lambda>_. 0)(0x100 := 0x7325, 0x300 := 0x64636261, 0x400 := 0x300) :: mem"
  have "cstr ?m 0x100 [37, 115]" "\<not> writable 0x1000 0x200 3 (0x100 + of_nat (length [37, 115 :: u8]))"
    "\<not> writable 0x1000 0x200 3 0x203"
    by (simp_all add: get_byte_def writable_def)
  then show ?thesis
    using vsnprintf_safe [of ?m "0x100" "[37, 115]" "0x1000" "0x200" 3 "\<lparr>pad_line = \<lambda>_. 0x500, null_string = 0x520\<rparr>" "0x400"]
    by (auto simp: get_byte_def)
qed

text \<open>C32: \<open>vsnprintf\<close> with one of the conversions \<open>%b\<close>, \<open>%o\<close>, \<open>%u\<close>, \<open>%d\<close>, \<open>%i\<close> and \<open>%x\<close> writes the number
  to the buffer without leading zeros, with a minus sign where the conversion is signed and the argument negative,
  and returns the number of characters. The local variables, the format and the buffer do not overlap.\<close>

theorem vsnprintf_number:
  assumes "plain_conv c = Some (b, sg)" "cstr m fmt [37, c]" "length (number_text b sg (m args)) < unat sz" "str \<noteq> 0"
    and "unat fr + 128 \<le> 2 ^ 32" "128 \<le> unat (fmt + 2 - fr)" "128 \<le> unat (str - fr)" "unat sz \<le> unat (fmt + 2 - str)"
  shows "\<exists>m'. vsnprintf rd fr str sz fmt args m = Some (of_nat (length (number_text b sg (m args))), m') \<and>
    cstr m' str (number_text b sg (m args))"
  using vsnprintf_plain [OF assms(1,2) refl assms(3-)] .

theorem vsnprintf_number_witness:
  "\<exists>m'. vsnprintf \<lparr>pad_line = \<lambda>_. 0x500, null_string = 0x520\<rparr> 0x1000 0x200 8 0x100 0x400
      ((\<lambda>_. 0)(0x100 := 0x6425, 0x400 := - 42)) = Some (3, m') \<and> cstr m' 0x200 [45, 52, 50]"
proof -
  let ?m = "(\<lambda>_. 0)(0x100 := 0x6425, 0x400 := - 42) :: mem"
  have t: "number_text 10 True (?m 0x400) = [45, 52, 50]"
    by code_simp
  show ?thesis
    using vsnprintf_number [of 100 10 True ?m "0x100" "0x400" 8 "0x200" "0x1000" "\<lparr>pad_line = \<lambda>_. 0x500, null_string = 0x520\<rparr>"]
    unfolding t by (simp add: plain_conv_def get_byte_def)
qed

text \<open>C33: Printing and reading a number is the identity: what \<open>vsnprintf\<close> writes for an argument, \<open>strtoul\<close> reads
  back as that argument, for every conversion and every 32 bit value.\<close>

theorem print_scan_roundtrip:
  assumes "plain_conv c = Some (b, sg)" "cstr m fmt [37, c]" "34 \<le> unat sz" "str \<noteq> 0"
    and "unat fr + 128 \<le> 2 ^ 32" "128 \<le> unat (fmt + 2 - fr)" "128 \<le> unat (str - fr)" "unat sz \<le> unat (fmt + 2 - str)"
  shows "\<exists>n m'. vsnprintf rd fr str sz fmt args m = Some (n, m') \<and> strtoul str 0 (int b) m' = Some (m args, m')"
proof -
  note b = conversion_plain(2,3) [OF assms(1)]
  have "length (number_text b sg (m args)) < unat sz"
    using number_text_length(2) [OF b, of sg "m args"] assms(3) by simp
  then show ?thesis
    using vsnprintf_plain [OF assms(1,2) refl _ assms(4-)] strtoul_number_text [OF b] by blast
qed

theorem print_scan_roundtrip_witness:
  "\<exists>n m'. vsnprintf \<lparr>pad_line = \<lambda>_. 0x500, null_string = 0x520\<rparr> 0x1000 0x200 40 0x100 0x400
      ((\<lambda>_. 0)(0x100 := 0x7825, 0x400 := 0xCAFE)) = Some (n, m') \<and> strtoul 0x200 0 16 m' = Some (0xCAFE, m')"
  using print_scan_roundtrip [of 120 16 False "(\<lambda>_. 0)(0x100 := 0x7825, 0x400 := 0xCAFE)" "0x100" 40 "0x200" "0x1000"
      "\<lparr>pad_line = \<lambda>_. 0x500, null_string = 0x520\<rparr>" "0x400"]
  by (simp add: plain_conv_def get_byte_def)

section \<open>The allocator and its clients\<close>

text \<open>C7: \<open>malloc_ex\<close> implements the allocation on the sequence of blocks of a pool: it cuts a block of at least
  the requested size from a free block, keeps the whole invariant of headers, free lists and index, and
  changes no word of a buffer in use; it returns the null pointer only when every free block of the pool is
  smaller than the rounded request, and then changes nothing.\<close>

theorem malloc_implements:
  assumes "pool_rep t lo e m bs" "unat sz < 2 ^ 28" "malloc_ex sz t m = (p, m')"
  shows "if p = 0 then m' = m \<and> list_all (\<lambda>(i, z, f). \<not> f \<or> z < unat (fst (MAPPING_SEARCH (request_size sz)))) bs
    else \<exists>xs i z ys r. bs = xs @ (i, z, True) # ys \<and> unat sz \<le> r \<and> r \<le> z \<and> p = t + of_nat (i + 8) \<and>
      pool_rep t lo e m' (xs @ cut_block r (i, z, True) @ ys) \<and> keeps t (xs @ ys) m m'"
proof (cases "p = 0")
  case True
  obtain r fl sl where S: "MAPPING_SEARCH (request_size sz) = (r, fl, sl)"
    by (rule prod_cases3)
  show ?thesis
    using malloc_none [OF assms(1,2) assms(3) [unfolded True] S] True S by (auto simp: list_all_iff)
next
  case False
  then show ?thesis
    using malloc_rep [OF assms] by (metis (no_types, lifting))
qed

theorem malloc_implements_witness:
  "\<exists>m c m'. malloc_ex 1000 0x1000 m = (0x1C88, m') \<and>
     pool_rep 0x1000 3184 8184 m' ((3184, 8, False) # cut_block c (3200, 4976, True))"
proof -
  obtain m where H: "heap_ok 0x1000 (3208 + 4976) m []"
    by (rule example_pool)
  obtain m' c where M: "malloc_ex 1000 0x1000 m = (0x1000 + of_nat 3208, m')"
    by (rule first_malloc [OF H _ request_1000]) simp_all
  have P: "pool_rep 0x1000 3184 8184 m [(3184, 8, False), (3200, 4976, True)]"
    using heap_drained [OF H] by simp
  have "(0x1000 :: u32) + of_nat 3208 \<noteq> 0" "unat (1000 :: u32) < 2 ^ 28"
    by simp_all
  then obtain xs i z ys r where x: "[(3184, 8, False), (3200, 4976, True)] = xs @ (i, z, True) # ys"
      "pool_rep 0x1000 3184 8184 m' (xs @ cut_block r (i, z, True) @ ys)"
    using malloc_implements [OF P _ M] by (metis (no_types, lifting))
  then have "xs = [(3184, 8, False)]" "i = 3200" "z = 4976" "ys = []"
    by (cases xs; cases "tl xs"; simp)+
  then show ?thesis
    using M x(2) by (intro exI [of _ m] exI [of _ r] exI [of _ m']) simp
qed

text \<open>C8: \<open>free_ex\<close> implements the release of a block in use: the block is merged with the free blocks before and
  behind it, the whole invariant of headers, free lists and index holds again, no two free blocks are
  neighbours, and no word of a buffer still in use changes.\<close>

theorem free_implements:
  assumes "pool_rep t lo e m (xs @ (i, z, False) # ys)"
  shows "pool_rep t lo e (free_ex (t + of_nat (i + 8)) t m) (release xs i z ys) \<and>
    keeps t (xs @ ys) m (free_ex (t + of_nat (i + 8)) t m)"
  using free_rep [OF assms] by simp

theorem free_implements_witness:
  "\<exists>m m'. malloc_ex 1000 0x1000 m = (0x1C88, m') \<and>
     pool_rep 0x1000 3184 8184 (free_ex 0x1C88 0x1000 m') [(3184, 8, False), (3200, 4976, True)]"
proof -
  obtain m where H: "heap_ok 0x1000 (3208 + 4976) m []"
    by (rule example_pool)
  obtain m' c where M: "malloc_ex 1000 0x1000 m = (0x1000 + of_nat 3208, m')"
      and P: "pool_rep 0x1000 3184 (3208 + 4976) m' ((3184, 8, False) # cut_block c (3200, 4976, True))"
    by (rule first_malloc [OF H _ request_1000]) simp_all
  obtain k ys where k: "cut_block c (3200, 4976, True) = (3200, k, False) # ys" "release [(3184, 8, False)] 3200 k ys = [(3184, 8, False), (3200, 4976, True)]"
    by (cases "c + 16 \<le> 4976") (auto simp: release_def join_prev_def)
  show ?thesis
    using free_implements [of "0x1000" 3184 8184 m' "[(3184, 8, False)]" 3200 k ys] P k M by auto
qed



text \<open>C9: No memory is lost: when the clients of a pool have freed every buffer, whatever they did before, the
  pool serves again every request that fitted it when it was new.\<close>

theorem allocator_no_leak:
  assumes "t \<noteq> 0" "4 dvd unat t" "m t \<noteq> TLSF_SIGNATURE" "3244 \<le> unat sz" "unat sz < 2 ^ 30" "unat t + unat sz + 4 \<le> 2 ^ 32"
    and "init_memory_pool sz t mp m = (r, mp', m1)"
    and "client_run (2 ^ 28) (\<lambda>n. malloc_ex n t) (\<lambda>p. free_ex p t) cs (new_client m1) = Some s" "held s = []"
    and "unat n < 2 ^ 28" "MAPPING_SEARCH (request_size n) = (r', fl, sl)" "unat r' \<le> unat r"
  shows "fst (malloc_ex n t (cmem s)) \<noteq> 0"
proof -
  have "heap_ok t (3208 + unat r) (cmem s) []"
    using tlsf.run_isolated(1) [OF init_heap [where m = m, OF assms(1-7)] assms(8)] assms(9) by simp
  then show ?thesis
    by (rule drained_serves [OF _ assms(10-12)])
qed

theorem allocator_no_leak_witness:
  "\<exists>s. client_run (2 ^ 28) (\<lambda>n. malloc_ex n 0x1000) (\<lambda>p. free_ex p 0x1000)
      [Malloc 1000, Free 0x1C88] (new_client (snd (snd (init_memory_pool 0x2000 0x1000 0 (\<lambda>_. 0))))) = Some s \<and>
    held s = [] \<and> fst (malloc_ex 1000 0x1000 (cmem s)) \<noteq> 0"
proof -
  obtain r m where I: "init_memory_pool 0x2000 0x1000 0 (\<lambda>_. 0) = (r, 0x1000, m)" and H: "heap_ok 0x1000 (3208 + 4976) m []"
    by (rule example_pool)
  obtain m1 where M: "malloc_ex 1000 0x1000 m = (0x1000 + of_nat 3208, m1)"
    by (rule first_malloc [OF H _ request_1000]) simp_all
  define s where "s = \<lparr>cmem = free_ex 0x1C88 0x1000 m1, held = [], stored = []\<rparr>"
  have s: "client_run (2 ^ 28) (\<lambda>n. malloc_ex n 0x1000) (\<lambda>p. free_ex p 0x1000) [Malloc 1000, Free 0x1C88] (new_client m) = Some s"
    using M by (simp add: new_client_def s_def drop_buffer_def)
  have "unat r = 4976"
    using init_pool(3) [OF _ _ _ _ _ _ I] by (simp add: TLSF_SIGNATURE_def)
  then have "fst (malloc_ex 1000 0x1000 (cmem s)) \<noteq> 0"
    using allocator_no_leak [OF _ _ _ _ _ _ I s _ _ request_1000] by (simp add: TLSF_SIGNATURE_def s_def)
  then show ?thesis
    using s I by (intro exI [of _ s]) (simp add: s_def)
qed

text \<open>C25: \<open>init_memory_pool\<close> takes the size of the control structure unrounded off the size of the pool, but starts
  the area at the rounded size: for a size that is 4 modulo 8 the header of the sentinel block is written over
  the word behind the pool.\<close>

theorem init_overruns:
  assumes "t \<noteq> 0" "4 dvd unat t" "m t \<noteq> TLSF_SIGNATURE" "3244 \<le> unat sz" "unat sz < 2 ^ 30" "unat t + unat sz + 4 \<le> 2 ^ 32"
    and "unat sz mod 8 = 4"
  shows "snd (snd (init_memory_pool sz t mp m)) (t + sz) = USED_BLOCK OR PREV_FREE"
proof -
  obtain r mp' m' where I: "init_memory_pool sz t mp m = (r, mp', m')"
    by (rule prod_cases3)
  have "unat r = (unat sz - 3180) div 8 * 8 - 32"
    using init_pool(3) [where m = m, OF assms(1-5) _ I] assms(6) by simp
  moreover have "(unat sz - 3180) div 8 * 8 = unat sz - 3180"
    using assms(4,7) by presburger
  ultimately have "3208 + unat r + 4 = unat sz"
    using assms(4) by simp
  then have "size_at (t + of_nat (3208 + unat r)) = t + sz"
    unfolding at_offset by simp
  moreover have "m' (size_at (t + of_nat (3208 + unat r))) = hdr 0 False True"
    using pool_repD(4) [OF init_rep [where m = m, OF assms(1-6) I]] by simp
  ultimately have "m' (t + sz) = hdr 0 False True"
    by (simp only:)
  then show ?thesis
    using I by (simp add: hdr_def USED_BLOCK_def)
qed

theorem init_overruns_witness: "snd (snd (init_memory_pool 0x2004 0x1000 0 (\<lambda>_. 0))) 0x3004 = 2"
  using init_overruns [of "0x1000" "\<lambda>_. 0" "0x2004" 0] by (simp add: TLSF_SIGNATURE_def USED_BLOCK_def PREV_FREE_def)

end
